(* ===== verification/Snrt_Prelude.thy ===== *)
theory Snrt_Prelude
  imports Main "HOL-Library.Word"
begin

text \<open>
  Shared vocabulary of the development: the machine integers of the RV32 Snitch cores
  (\<open>uint32_t\<close>, \<open>size_t\<close> and \<open>uintptr_t\<close> are 32 bits wide, DMA addresses and FP64
  bit patterns 64 bits), the byte-addressed memory, doubleword loads and stores on it,
  counted loops, and the generic word, list and memory lemmas the components share.
  The collection \<open>mem_simps\<close> carries the memory facts, \<open>word_nat\<close> the facts that read a
  wrapping operation as the exact one when it does not overflow.
\<close>

unbundle bit_operations_syntax

named_theorems mem_simps \<open>loads and stores of the byte-addressed memory\<close>
named_theorems word_nat \<open>unsigned value of a word operation that does not wrap\<close>

type_synonym u8 = "8 word"
type_synonym u16 = "16 word"
type_synonym u32 = "32 word"
type_synonym u64 = "64 word"
type_synonym mem = "u64 \<Rightarrow> u8"

section \<open>Words\<close>

text \<open>Unsigned values of sums, differences and products that stay in range.\<close>

lemma unat_add_exact [word_nat]:
  "unat (a :: 'a::len word) + unat b < 2 ^ LENGTH('a) \<Longrightarrow> unat (a + b) = unat a + unat b"
  by (simp add: unat_add_lem)

lemma unat_mult_exact [word_nat]:
  "unat (a :: 'a::len word) * unat b < 2 ^ LENGTH('a) \<Longrightarrow> unat (a * b) = unat a * unat b"
  by (simp add: unat_mult_lem)

lemma unat_sub_exact [word_nat]:
  "unat b \<le> unat a \<Longrightarrow> unat ((a :: 'a::len word) - b) = unat a - unat b"
  by (simp add: unat_sub word_le_nat_alt)

lemma unat_of_nat_exact [word_nat]:
  "n < 2 ^ LENGTH('a) \<Longrightarrow> unat (of_nat n :: 'a::len word) = n"
  by (simp add: unat_of_nat)

lemma word_of_nat_inj:
  assumes "(of_nat i :: 'a::len word) = of_nat j" "i < 2 ^ LENGTH('a)" "j < 2 ^ LENGTH('a)"
  shows "i = j"
  using assms by (metis unat_of_nat_exact)

lemma unat_less_pow: "unat (a :: 'a::len word) < 2 ^ LENGTH('a)"
  by (rule unsigned_less)

lemma unat_u32_bound [simp]: "unat (a :: u32) < 4294967296"
  using unat_less_pow [of a] by simp

lemma unat_u64_bound [simp]: "unat (a :: u64) < 18446744073709551616"
  using unat_less_pow [of a] by simp

lemma unat_of_nat_u64: "n < 18446744073709551616 \<Longrightarrow> unat (of_nat n :: u64) = n"
  by (simp add: unat_of_nat_exact)

lemma unat_of_nat_u32: "n < 4294967296 \<Longrightarrow> unat (of_nat n :: u32) = n"
  by (simp add: unat_of_nat_exact)

text \<open>A 32-bit word below \<open>2 ^ 31\<close> has the same signed and unsigned value.\<close>

lemma sint_small:
  assumes "unat (a :: u32) < 2147483648"
  shows "sint a = int (unat a)"
proof -
  have "int (unat a) < 2147483648" using assms by linarith
  then have "uint a < 2147483648" by simp
  moreover have "- 2147483648 \<le> uint a" by (rule order_trans [of _ 0]) simp_all
  ultimately have "signed_take_bit 31 (uint a) = uint a"
    by (intro signed_take_bit_int_eq_self) simp_all
  then show ?thesis by (simp add: sint_uint)
qed

text \<open>Zero extension of 32-bit pointers and sizes to 64 bits.\<close>

lemma unat_ucast_u32_u64 [simp]: "unat (ucast (a :: u32) :: u64) = unat a"
  by (simp add: unsigned_ucast_eq take_bit_nat_eq_self [of _ 64] less_trans [OF unat_u32_bound])

lemma ucast_u32_u64_inj [simp]: "(ucast (a :: u32) = (ucast b :: u64)) = (a = b)"
  by (metis unat_ucast_u32_u64 unsigned_word_eqI)

lemma ucast_u64_u32_id [simp]: "(ucast (ucast (a :: u32) :: u64) :: u32) = a"
  by (rule bit_word_eqI) (simp add: bit_simps)

lemma ucast_u32_u64_of_nat:
  "unat (a :: u32) + n < 4294967296 \<Longrightarrow> (ucast (a + of_nat n) :: u64) = ucast a + of_nat n"
proof -
  assume h: "unat a + n < 4294967296"
  have "unat (a + of_nat n) = unat a + n"
    using h by (subst unat_add_exact) (simp_all add: unat_of_nat_exact)
  moreover have "unat ((ucast a :: u64) + of_nat n) = unat a + n"
    using h by (subst unat_add_exact) (simp_all add: unat_of_nat_exact)
  ultimately show ?thesis
    by (metis unat_ucast_u32_u64 unsigned_word_eqI)
qed

section \<open>Byte-addressed memory\<close>

text \<open>
  A transfer of \<open>n\<close> consecutive bytes reads the whole source before it writes: the value at
  an address of the destination range is the old value at the matching source address.
\<close>

definition copy_bytes :: "u64 \<Rightarrow> u64 \<Rightarrow> nat \<Rightarrow> mem \<Rightarrow> mem" where
  "copy_bytes dst src n m = (\<lambda>b. if unat (b - dst) < n then m (src + (b - dst)) else m b)"

lemma copy_bytes_in [mem_simps]:
  "unat (b - dst) < n \<Longrightarrow> copy_bytes dst src n m b = m (src + (b - dst))"
  by (simp add: copy_bytes_def)

lemma copy_bytes_out [mem_simps]:
  "\<not> unat (b - dst) < n \<Longrightarrow> copy_bytes dst src n m b = m b"
  by (simp add: copy_bytes_def)

lemma copy_bytes_offset [mem_simps]:
  "i < n \<Longrightarrow> i < 2 ^ 64 \<Longrightarrow> copy_bytes dst src n m (dst + of_nat i) = m (src + of_nat i)"
  by (simp add: copy_bytes_def unat_of_nat_exact)

lemma copy_bytes_0 [simp]: "copy_bytes dst src 0 m = m"
  by (simp add: copy_bytes_def)

lemma copy_bytes_self [simp]: "copy_bytes p p n m = m"
  by (auto simp: copy_bytes_def)

text \<open>Little-endian doublewords, as the FP64 loads and stores of the core access them.\<close>

definition ld64 :: "mem \<Rightarrow> u64 \<Rightarrow> u64" where
  "ld64 m a =
     ucast (m a) OR push_bit 8 (ucast (m (a + 1))) OR push_bit 16 (ucast (m (a + 2))) OR
     push_bit 24 (ucast (m (a + 3))) OR push_bit 32 (ucast (m (a + 4))) OR
     push_bit 40 (ucast (m (a + 5))) OR push_bit 48 (ucast (m (a + 6))) OR
     push_bit 56 (ucast (m (a + 7)))"

definition st64 :: "mem \<Rightarrow> u64 \<Rightarrow> u64 \<Rightarrow> mem" where
  "st64 m a v = (\<lambda>b. if unat (b - a) < 8 then ucast (drop_bit (8 * unat (b - a)) v) else m b)"

lemma st64_byte: "k < 8 \<Longrightarrow> st64 m a v (a + of_nat k) = ucast (drop_bit (8 * k) v)"
  by (simp add: st64_def unat_of_nat_exact)

lemma bit_lane:
  "k + 8 \<le> 64 \<Longrightarrow> bit (push_bit k (ucast (ucast (drop_bit k v) :: u8)) :: u64) n
     \<longleftrightarrow> k \<le> n \<and> n < k + 8 \<and> bit (v :: u64) n"
  by (auto simp: bit_simps)

lemma ld64_st64_same [mem_simps]: "ld64 (st64 m a v) a = v"
proof -
  have b: "st64 m a v a = ucast (drop_bit 0 v)" "st64 m a v (a + 1) = ucast (drop_bit 8 v)"
    "st64 m a v (a + 2) = ucast (drop_bit 16 v)" "st64 m a v (a + 3) = ucast (drop_bit 24 v)"
    "st64 m a v (a + 4) = ucast (drop_bit 32 v)" "st64 m a v (a + 5) = ucast (drop_bit 40 v)"
    "st64 m a v (a + 6) = ucast (drop_bit 48 v)" "st64 m a v (a + 7) = ucast (drop_bit 56 v)"
    by (simp_all add: st64_def)
  have b0: "ucast (ucast (drop_bit 0 v) :: u8) =
      push_bit 0 (ucast (ucast (drop_bit 0 v) :: u8) :: u64)"
    by simp
  show ?thesis
    unfolding ld64_def b
    by (subst b0, rule bit_word_eqI, unfold bit_or_iff, subst (1 2 3 4 5 6 7 8) bit_lane) auto
qed

definition aligned8 :: "u64 \<Rightarrow> bool" where
  "aligned8 a \<longleftrightarrow> unat a mod 8 = 0"

lemma aligned8_diff:
  assumes "aligned8 a" "aligned8 b"
  shows "unat (b - a) mod 8 = 0"
proof (cases "a \<le> b")
  case True
  then have "unat (b - a) = unat b - unat a" "unat a \<le> unat b"
    by (simp_all add: unat_sub word_le_nat_alt)
  with assms show ?thesis by (auto simp: aligned8_def)
next
  case False
  then have "unat (b - a) = unat b + 2 ^ 64 - unat a"
    using unat_sub_if' [of b a] by (simp add: word_le_nat_alt)
  moreover have "unat a \<le> unat b + 18446744073709551616"
    using unat_u64_bound [of a] by linarith
  ultimately show ?thesis
    using assms by (auto simp: aligned8_def)
qed

lemma st64_other:
  assumes "aligned8 a" "aligned8 b" "a \<noteq> b" "k < 8"
  shows "st64 m a v (b + of_nat k) = m (b + of_nat k)"
proof -
  let ?d = "unat (b - a)"
  have d8: "?d mod 8 = 0" by (rule aligned8_diff [OF assms(1,2)])
  have "?d \<noteq> 0" using assms(3) by (simp add: unat_eq_zero)
  with d8 have "8 \<le> ?d" by presburger
  from d8 obtain q where q: "?d = 8 * q" by blast
  then have "q < 2305843009213693952"
    using unat_u64_bound [of "b - a"] by linarith
  then have "?d + k < 2 ^ 64"
    using q assms(4) by simp
  then have "unat ((b - a) + of_nat k) = ?d + k"
    using assms(4) by (subst unat_add_exact) (simp_all add: unat_of_nat_exact)
  then have "unat (b + of_nat k - a) = ?d + k"
    by (simp add: algebra_simps)
  with \<open>8 \<le> ?d\<close> show ?thesis by (simp add: st64_def)
qed

lemma ld64_st64_other [mem_simps]:
  assumes "aligned8 a" "aligned8 b" "a \<noteq> b"
  shows "ld64 (st64 m a v) b = ld64 m b"
  using st64_other [OF assms, of 0 m v] st64_other [OF assms, of 1 m v]
    st64_other [OF assms, of 2 m v] st64_other [OF assms, of 3 m v]
    st64_other [OF assms, of 4 m v] st64_other [OF assms, of 5 m v]
    st64_other [OF assms, of 6 m v] st64_other [OF assms, of 7 m v]
  by (simp add: ld64_def)

lemma aligned8_add:
  "aligned8 a \<Longrightarrow> aligned8 (a + 8 * of_nat i)"
proof -
  assume "aligned8 a"
  have "unat (a + 8 * of_nat i) = (unat a + 8 * unat (of_nat i :: u64)) mod 2 ^ 64"
    by (simp add: unat_word_ariths mod_add_right_eq)
  also have "\<dots> mod 8 = (unat a + 8 * unat (of_nat i :: u64)) mod 8"
    by (rule mod_mod_cancel) simp
  finally show ?thesis using \<open>aligned8 a\<close> by (simp add: aligned8_def)
qed

section \<open>Element stores\<close>

text \<open>
  The contract of a store of whole elements: a location that is written reads back the value,
  every other valid location keeps its own. The client lemmas are about a loop that writes one
  location per iteration: locations it does not write keep their value, and a location it
  writes once holds the value computed from the initial state, whatever the order of the
  iterations, provided no iteration reads what another writes.
\<close>

locale elem_store =
  fixes rd :: "'m \<Rightarrow> 'a \<Rightarrow> 'v"
    and wr :: "'m \<Rightarrow> 'a \<Rightarrow> 'v \<Rightarrow> 'm"
    and ok :: "'a \<Rightarrow> bool"
  assumes rd_wr_same: "ok a \<Longrightarrow> rd (wr m a v) a = v"
    and rd_wr_other: "ok a \<Longrightarrow> ok b \<Longrightarrow> a \<noteq> b \<Longrightarrow> rd (wr m a v) b = rd m b"
begin

lemma fold_wr_other:
  assumes "\<And>i. i \<in> set ixs \<Longrightarrow> ok (w i) \<and> w i \<noteq> b" "ok b"
  shows "rd (fold (\<lambda>i m. wr m (w i) (f i m)) ixs m) b = rd m b"
  using assms(1)
  by (induction ixs arbitrary: m) (auto simp: rd_wr_other assms(2))

lemma fold_wr_frame:
  assumes "\<And>k m v. k \<in> set xs \<Longrightarrow> f j (wr m (w k) v) = f j m"
  shows "f j (fold (\<lambda>i m. wr m (w i) (f i m)) xs m) = f j m"
  using assms by (induction xs arbitrary: m) auto

text \<open>Values computed before the loop.\<close>

lemma fold_wr_before:
  assumes "distinct xs" "\<And>k j m v. k \<in> set xs \<Longrightarrow> j \<in> set xs \<Longrightarrow> k \<noteq> j \<Longrightarrow> f j (wr m (w k) v) = f j m"
  shows "fold (\<lambda>i m. wr m (w i) (f i m0)) xs m0 = fold (\<lambda>i m. wr m (w i) (f i m)) xs m0"
  using assms
proof (induction xs rule: rev_induct)
  case (snoc i xs)
  have "f i (fold (\<lambda>i m. wr m (w i) (f i m)) xs m0) = f i m0"
    by (rule fold_wr_frame) (use snoc.prems in auto)
  then show ?case using snoc by simp
qed simp

text \<open>An iteration may read the location it writes itself.\<close>

lemma fold_wr_at_once:
  assumes dist: "distinct ixs" and i: "i \<in> set ixs"
    and inj: "inj_on w (set ixs)"
    and ok: "\<And>j. j \<in> set ixs \<Longrightarrow> ok (w j)"
    and frame: "\<And>k j m v. k \<in> set ixs \<Longrightarrow> j \<in> set ixs \<Longrightarrow> k \<noteq> j \<Longrightarrow> f j (wr m (w k) v) = f j m"
  shows "rd (fold (\<lambda>i m. wr m (w i) (f i m)) ixs m) (w i) = f i m"
proof -
  from i obtain xs ys where xs: "ixs = xs @ i # ys" by (auto simp: in_set_conv_decomp)
  let ?step = "\<lambda>i m. wr m (w i) (f i m)"
  let ?m = "fold ?step xs m"
  have fm: "f i ?m = f i m"
    by (rule fold_wr_frame) (use frame i xs dist in auto)
  have "rd (fold ?step ys (?step i ?m)) (w i) = rd (?step i ?m) (w i)"
  proof (rule fold_wr_other)
    fix j assume "j \<in> set ys"
    then have "j \<noteq> i" "j \<in> set ixs" using dist xs by auto
    then show "ok (w j) \<and> w j \<noteq> w i"
      using ok inj i by (auto dest: inj_onD)
  qed (use ok i in auto)
  also have "\<dots> = f i m" using ok i by (simp add: rd_wr_same fm)
  finally show ?thesis by (simp add: xs)
qed

lemma fold_wr_at:
  assumes "distinct ixs" "i \<in> set ixs" "inj_on w (set ixs)" "\<And>j. j \<in> set ixs \<Longrightarrow> ok (w j)"
    "\<And>k j m v. k \<in> set ixs \<Longrightarrow> j \<in> set ixs \<Longrightarrow> f j (wr m (w k) v) = f j m"
  shows "rd (fold (\<lambda>i m. wr m (w i) (f i m)) ixs m) (w i) = f i m"
  by (rule fold_wr_at_once) (use assms in auto)

end

text \<open>
  Doublewords at 8-byte aligned 32-bit addresses are such a store over the byte memory.
\<close>

definition dptr :: "u32 \<Rightarrow> bool" where
  "dptr p \<longleftrightarrow> aligned8 (ucast p)"

interpretation dstore: elem_store
  "\<lambda>m (a :: u32). ld64 m (ucast a)" "\<lambda>m a v. st64 m (ucast a) v" dptr
  by unfold_locales (auto simp: dptr_def mem_simps)

lemma dptr_mod: "dptr p \<longleftrightarrow> unat p mod 8 = 0"
  by (simp add: dptr_def aligned8_def)

lemma dptr_add [simp]: "dptr p \<Longrightarrow> dptr (p + 8 * i)"
proof -
  assume "dptr p"
  have "unat (p + 8 * i) = (unat p + 8 * unat i) mod 2 ^ 32"
    by (simp add: unat_word_ariths mod_add_right_eq)
  also have "\<dots> mod 8 = (unat p + 8 * unat i) mod 8"
    by (rule mod_mod_cancel) simp
  finally show ?thesis using \<open>dptr p\<close> by (simp add: dptr_mod)
qed

text \<open>
  Arrays of FP64 values behind a 32-bit pointer: element \<open>i\<close> of the array at \<open>p\<close> is the
  doubleword at \<open>p + 8 * i\<close>, with the index arithmetic of the core (modulo \<open>2 ^ 32\<close>).
\<close>

definition rd_d :: "mem \<Rightarrow> u32 \<Rightarrow> u32 \<Rightarrow> u64" where
  "rd_d m p i = ld64 m (ucast (p + 8 * i))"

definition wr_d :: "mem \<Rightarrow> u32 \<Rightarrow> u32 \<Rightarrow> u64 \<Rightarrow> mem" where
  "wr_d m p i v = st64 m (ucast (p + 8 * i)) v"

section \<open>Partitions of an interval\<close>

lemma interval_partition:
  assumes "f 0 = (0 :: nat)" "\<And>t. t < T \<Longrightarrow> f t \<le> f (Suc t)" "i < f T"
  shows "\<exists>!t. t < T \<and> f t \<le> i \<and> i < f (Suc t)"
  using assms
proof (induction T)
  case (Suc T)
  show ?case
  proof (cases "i < f T")
    case True
    then have "\<exists>!t. t < T \<and> f t \<le> i \<and> i < f (Suc t)" using Suc by simp
    moreover have "\<not> (f T \<le> i)" using True by simp
    ultimately show ?thesis by (metis less_Suc_eq)
  next
    case False
    have "f t \<le> f T" if "t \<le> T" for t
      using that Suc.prems(2) by (induction T) (auto simp: le_Suc_eq intro: le_trans)
    then have "\<not> (t < T \<and> f t \<le> i \<and> i < f (Suc t))" for t
      using False by (metis Suc_leI leD le_less_trans not_less)
    then show ?thesis using False Suc.prems(3) by (metis less_Suc_eq not_less)
  qed
qed simp

lemma unat_u8_bound: "unat (x :: u8) < 256"
  using unsigned_less [of x] by simp

end
