(* ===== verification/Team.thy ===== *)
theory Team
  imports Snrt_Prelude
begin

text \<open>
  Team management: \<open>sw/runtime/src/team.h\<close> over the hardware configuration of
  \<open>sw/runtime/impl/snitch_cluster_cfg.h.tpl\<close>. The header that the build generates from the
  template is a parameter, the record \<open>snrt_cfg\<close>; a core is its \<open>mhartid\<close>. The lemmas show
  that cluster and core indices name every hart exactly once, and that the compute core
  indices of the system are the numbers below the compute core count, each taken once.
\<close>

section \<open>Configuration and core identity\<close>

record snrt_cfg =
  SNRT_BASE_HARTID :: u32
  SNRT_CLUSTER_CORE_NUM :: u32
  SNRT_CLUSTER_NUM :: u32
  SNRT_CLUSTER_DM_CORE_NUM :: u32
  SNRT_TCDM_START_ADDR :: u32
  SNRT_TCDM_SIZE :: u32
  SNRT_TCDM_BANK_WIDTH :: u32
  SNRT_TCDM_BANK_NUM :: u32
  SNRT_TCDM_HYPERBANK_NUM :: u32
  SNRT_TCDM_HYPERBANK_SIZE :: u32
  SNRT_CLUSTER_OFFSET :: u32
  SNRT_L3_END_ADDR :: u64
  SNRT_LOG2_STACK_SIZE :: nat

definition SNRT_TCDM_BANK_PER_HYPERBANK_NUM :: "snrt_cfg \<Rightarrow> u32" where
  "SNRT_TCDM_BANK_PER_HYPERBANK_NUM c = SNRT_TCDM_BANK_NUM c div SNRT_TCDM_HYPERBANK_NUM c"

definition SNRT_TCDM_HYPERBANK_WIDTH :: "snrt_cfg \<Rightarrow> u32" where
  "SNRT_TCDM_HYPERBANK_WIDTH c = SNRT_TCDM_BANK_PER_HYPERBANK_NUM c * SNRT_TCDM_BANK_WIDTH c"

text \<open>\<open>snrt_hartid\<close> reads \<open>mhartid\<close>: a core is given by that value.\<close>

type_synonym hart = u32

definition snrt_hartid :: "hart \<Rightarrow> u32" where
  "snrt_hartid h = h"

definition snrt_cluster_num :: "snrt_cfg \<Rightarrow> u32" where
  "snrt_cluster_num c = SNRT_CLUSTER_NUM c"

definition snrt_cluster_core_num :: "snrt_cfg \<Rightarrow> u32" where
  "snrt_cluster_core_num c = SNRT_CLUSTER_CORE_NUM c"

definition snrt_global_core_base_hartid :: "snrt_cfg \<Rightarrow> u32" where
  "snrt_global_core_base_hartid c = SNRT_BASE_HARTID c"

definition snrt_cluster_dm_core_num :: "snrt_cfg \<Rightarrow> u32" where
  "snrt_cluster_dm_core_num c = SNRT_CLUSTER_DM_CORE_NUM c"

definition snrt_cluster_compute_core_num :: "snrt_cfg \<Rightarrow> u32" where
  "snrt_cluster_compute_core_num c = snrt_cluster_core_num c - snrt_cluster_dm_core_num c"

definition snrt_global_core_num :: "snrt_cfg \<Rightarrow> u32" where
  "snrt_global_core_num c = snrt_cluster_num c * snrt_cluster_core_num c"

definition snrt_global_compute_core_num :: "snrt_cfg \<Rightarrow> u32" where
  "snrt_global_compute_core_num c = snrt_cluster_num c * snrt_cluster_compute_core_num c"

definition snrt_global_core_idx :: "snrt_cfg \<Rightarrow> hart \<Rightarrow> u32" where
  "snrt_global_core_idx c h = snrt_hartid h - snrt_global_core_base_hartid c"

definition snrt_cluster_idx :: "snrt_cfg \<Rightarrow> hart \<Rightarrow> u32" where
  "snrt_cluster_idx c h = snrt_global_core_idx c h div snrt_cluster_core_num c"

definition snrt_cluster_core_idx :: "snrt_cfg \<Rightarrow> hart \<Rightarrow> u32" where
  "snrt_cluster_core_idx c h = snrt_global_core_idx c h mod snrt_cluster_core_num c"

definition snrt_global_compute_core_idx :: "snrt_cfg \<Rightarrow> hart \<Rightarrow> u32" where
  "snrt_global_compute_core_idx c h =
     snrt_cluster_idx c h * snrt_cluster_compute_core_num c + snrt_cluster_core_idx c h"

definition snrt_is_compute_core :: "snrt_cfg \<Rightarrow> hart \<Rightarrow> bool" where
  "snrt_is_compute_core c h \<longleftrightarrow> snrt_cluster_core_idx c h < snrt_cluster_compute_core_num c"

definition snrt_cluster_is_last_compute_core :: "snrt_cfg \<Rightarrow> hart \<Rightarrow> bool" where
  "snrt_cluster_is_last_compute_core c h \<longleftrightarrow>
     snrt_cluster_core_idx c h = snrt_cluster_compute_core_num c - 1"

definition snrt_is_dm_core :: "snrt_cfg \<Rightarrow> hart \<Rightarrow> bool" where
  "snrt_is_dm_core c h \<longleftrightarrow> \<not> snrt_is_compute_core c h"

lemmas team_defs =
  snrt_hartid_def snrt_cluster_num_def snrt_cluster_core_num_def
  snrt_global_core_base_hartid_def snrt_cluster_dm_core_num_def
  snrt_cluster_compute_core_num_def snrt_global_core_num_def
  snrt_global_compute_core_num_def snrt_global_core_idx_def snrt_cluster_idx_def
  snrt_cluster_core_idx_def snrt_global_compute_core_idx_def snrt_is_compute_core_def
  snrt_cluster_is_last_compute_core_def snrt_is_dm_core_def

section \<open>Well-formed configurations\<close>

text \<open>
  A configuration fits the machine when there is a cluster, every cluster has at least one
  core more than data movers, and the hart ids of the system fit 32 bits.
\<close>

definition cfg_wf :: "snrt_cfg \<Rightarrow> bool" where
  "cfg_wf c \<longleftrightarrow>
     0 < unat (SNRT_CLUSTER_NUM c) \<and>
     unat (SNRT_CLUSTER_DM_CORE_NUM c) < unat (SNRT_CLUSTER_CORE_NUM c) \<and>
     unat (SNRT_BASE_HARTID c) + unat (SNRT_CLUSTER_NUM c) * unat (SNRT_CLUSTER_CORE_NUM c)
       < 2 ^ 32"

text \<open>The harts of the system.\<close>

definition harts :: "snrt_cfg \<Rightarrow> hart set" where
  "harts c = {h. unat (SNRT_BASE_HARTID c) \<le> unat h \<and>
     unat h < unat (SNRT_BASE_HARTID c) + unat (SNRT_CLUSTER_NUM c) * unat (SNRT_CLUSTER_CORE_NUM c)}"

definition hart_of :: "snrt_cfg \<Rightarrow> nat \<Rightarrow> nat \<Rightarrow> hart" where
  "hart_of c cl co =
     of_nat (unat (SNRT_BASE_HARTID c) + cl * unat (SNRT_CLUSTER_CORE_NUM c) + co)"

lemma unat_global_core_idx:
  "h \<in> harts c \<Longrightarrow> unat (snrt_global_core_idx c h) = unat h - unat (SNRT_BASE_HARTID c)"
  by (simp add: team_defs harts_def unat_sub_exact)

lemma unat_cluster_idx:
  "h \<in> harts c \<Longrightarrow>
     unat (snrt_cluster_idx c h) =
       (unat h - unat (SNRT_BASE_HARTID c)) div unat (SNRT_CLUSTER_CORE_NUM c)"
  by (simp add: snrt_cluster_idx_def unat_div unat_global_core_idx snrt_cluster_core_num_def)

lemma unat_cluster_core_idx:
  "h \<in> harts c \<Longrightarrow>
     unat (snrt_cluster_core_idx c h) =
       (unat h - unat (SNRT_BASE_HARTID c)) mod unat (SNRT_CLUSTER_CORE_NUM c)"
  by (simp add: snrt_cluster_core_idx_def unat_mod unat_global_core_idx snrt_cluster_core_num_def)

lemma unat_compute_core_num:
  "cfg_wf c \<Longrightarrow> unat (snrt_cluster_compute_core_num c) =
     unat (SNRT_CLUSTER_CORE_NUM c) - unat (SNRT_CLUSTER_DM_CORE_NUM c)"
  by (simp add: team_defs cfg_wf_def unat_sub_exact)

lemma unat_hart_of:
  assumes "cfg_wf c" "cl < unat (SNRT_CLUSTER_NUM c)" "co < unat (SNRT_CLUSTER_CORE_NUM c)"
  shows "unat (hart_of c cl co) =
      unat (SNRT_BASE_HARTID c) + cl * unat (SNRT_CLUSTER_CORE_NUM c) + co"
    and "hart_of c cl co \<in> harts c"
proof -
  let ?N = "unat (SNRT_CLUSTER_CORE_NUM c)" and ?B = "unat (SNRT_BASE_HARTID c)"
  have "Suc cl * ?N \<le> unat (SNRT_CLUSTER_NUM c) * ?N"
    using assms(2) by (intro mult_right_mono) simp_all
  then have lt: "cl * ?N + co < unat (SNRT_CLUSTER_NUM c) * ?N"
    using assms(3) by simp
  then have "?B + cl * ?N + co < 2 ^ 32"
    using assms(1) by (auto simp: cfg_wf_def)
  then show eq: "unat (hart_of c cl co) = ?B + cl * ?N + co"
    unfolding hart_of_def by (intro unat_of_nat_exact) simp
  show "hart_of c cl co \<in> harts c"
    using lt by (simp add: harts_def eq)
qed

lemma hart_of_idx:
  assumes "cfg_wf c" "cl < unat (SNRT_CLUSTER_NUM c)" "co < unat (SNRT_CLUSTER_CORE_NUM c)"
  shows "unat (snrt_cluster_idx c (hart_of c cl co)) = cl"
    and "unat (snrt_cluster_core_idx c (hart_of c cl co)) = co"
  using unat_hart_of [OF assms] assms(3)
  by (simp_all add: unat_cluster_idx unat_cluster_core_idx)

lemma idx_bounds:
  assumes "cfg_wf c" "h \<in> harts c"
  shows "unat (snrt_cluster_idx c h) < unat (SNRT_CLUSTER_NUM c)"
    and "unat (snrt_cluster_core_idx c h) < unat (SNRT_CLUSTER_CORE_NUM c)"
proof -
  let ?N = "unat (SNRT_CLUSTER_CORE_NUM c)"
  have "unat h - unat (SNRT_BASE_HARTID c) < unat (SNRT_CLUSTER_NUM c) * ?N"
    using assms(2) by (auto simp: harts_def)
  then show "unat (snrt_cluster_idx c h) < unat (SNRT_CLUSTER_NUM c)"
    by (simp add: unat_cluster_idx [OF assms(2)] less_mult_imp_div_less)
  show "unat (snrt_cluster_core_idx c h) < ?N"
    using assms(1) by (simp add: unat_cluster_core_idx [OF assms(2)] cfg_wf_def)
qed

lemma idx_hart_of:
  assumes "cfg_wf c" "h \<in> harts c"
  shows "hart_of c (unat (snrt_cluster_idx c h)) (unat (snrt_cluster_core_idx c h)) = h"
proof (rule unsigned_word_eqI)
  show "unat (hart_of c (unat (snrt_cluster_idx c h)) (unat (snrt_cluster_core_idx c h))) = unat h"
    using assms(2) unat_hart_of(1) [OF assms(1) idx_bounds [OF assms]]
    by (simp add: unat_cluster_idx [OF assms(2)] unat_cluster_core_idx [OF assms(2)] harts_def)
qed

text \<open>The compute core index of a compute core, as an unsigned number.\<close>

lemma unat_global_compute_core_idx:
  assumes "cfg_wf c" "h \<in> harts c" "snrt_is_compute_core c h"
  shows "unat (snrt_global_compute_core_idx c h) =
      unat (snrt_cluster_idx c h) * unat (snrt_cluster_compute_core_num c)
      + unat (snrt_cluster_core_idx c h)"
    and "unat (snrt_global_compute_core_idx c h) < unat (snrt_global_compute_core_num c)"
proof -
  let ?M = "unat (snrt_cluster_compute_core_num c)" and ?C = "unat (SNRT_CLUSTER_NUM c)"
  let ?cl = "unat (snrt_cluster_idx c h)" and ?co = "unat (snrt_cluster_core_idx c h)"
  have co: "?co < ?M" using assms(3) by (simp add: snrt_is_compute_core_def word_less_nat_alt)
  have cl: "?cl < ?C" by (rule idx_bounds(1) [OF assms(1,2)])
  have "?M \<le> unat (SNRT_CLUSTER_CORE_NUM c)" by (simp add: unat_compute_core_num [OF assms(1)])
  then have "?C * ?M \<le> ?C * unat (SNRT_CLUSTER_CORE_NUM c)" by simp
  then have CM: "?C * ?M < 2 ^ 32" using assms(1) unfolding cfg_wf_def by linarith
  have "Suc ?cl * ?M \<le> ?C * ?M" using cl by (intro mult_right_mono) simp_all
  then have lt: "?cl * ?M + ?co < ?C * ?M" using co by simp
  have m: "unat (snrt_cluster_idx c h * snrt_cluster_compute_core_num c) = ?cl * ?M"
    using lt CM by (intro unat_mult_exact) simp
  show eq: "unat (snrt_global_compute_core_idx c h) = ?cl * ?M + ?co"
    unfolding snrt_global_compute_core_idx_def
    using lt CM by (subst unat_add_exact) (simp_all add: m)
  have "unat (snrt_global_compute_core_num c) = ?C * ?M"
    unfolding snrt_global_compute_core_num_def snrt_cluster_num_def
    using CM by (intro unat_mult_exact) simp
  then show "unat (snrt_global_compute_core_idx c h) < unat (snrt_global_compute_core_num c)"
    using lt eq by simp
qed

section \<open>Properties\<close>

text \<open>
  C40: in a well-formed configuration, cluster index and cluster-local core index identify every
  hart of the system: the pair of the two is a bijection from the harts onto all pairs of a
  cluster below \<open>SNRT_CLUSTER_NUM\<close> and a core below \<open>SNRT_CLUSTER_CORE_NUM\<close>.
\<close>

theorem team_indices_bijection:
  assumes "cfg_wf c"
  shows "bij_betw (\<lambda>h. (unat (snrt_cluster_idx c h), unat (snrt_cluster_core_idx c h))) (harts c)
     ({..<unat (snrt_cluster_num c)} \<times> {..<unat (snrt_cluster_core_num c)})"
  by (rule bij_betw_byWitness [where f' = "\<lambda>(cl, co). hart_of c cl co"])
    (auto simp: assms idx_hart_of hart_of_idx idx_bounds unat_hart_of snrt_cluster_num_def
      snrt_cluster_core_num_def)

text \<open>
  C2: the compute core indices of the system are exactly the numbers below
  \<open>snrt_global_compute_core_num\<close>, each taken by one compute core: a kernel that distributes
  work by \<open>snrt_global_compute_core_idx\<close> gives every share to exactly one core.
\<close>

theorem compute_core_indices_bijection:
  assumes "cfg_wf c"
  shows "bij_betw (\<lambda>h. unat (snrt_global_compute_core_idx c h))
     {h \<in> harts c. snrt_is_compute_core c h} {..<unat (snrt_global_compute_core_num c)}"
proof (rule bij_betw_byWitness [where
      f' = "\<lambda>k. hart_of c (k div unat (snrt_cluster_compute_core_num c))
                         (k mod unat (snrt_cluster_compute_core_num c))"])
  let ?M = "unat (snrt_cluster_compute_core_num c)"
  have M0: "0 < ?M" using assms by (simp add: unat_compute_core_num cfg_wf_def)
  have co_lt: "unat (snrt_cluster_core_idx c h) < ?M" if "snrt_is_compute_core c h" for h
    using that by (simp add: snrt_is_compute_core_def word_less_nat_alt)
  show "\<forall>h\<in>{h \<in> harts c. snrt_is_compute_core c h}.
      hart_of c (unat (snrt_global_compute_core_idx c h) div ?M)
        (unat (snrt_global_compute_core_idx c h) mod ?M) = h"
    using M0 co_lt by (auto simp: unat_global_compute_core_idx [OF assms] idx_hart_of [OF assms])
  have *: "cl < unat (SNRT_CLUSTER_NUM c) \<and> co < unat (SNRT_CLUSTER_CORE_NUM c)"
    if "k < unat (snrt_global_compute_core_num c)" "cl = k div ?M" "co = k mod ?M" for k cl co
  proof -
    have "unat (snrt_global_compute_core_num c) \<le> unat (SNRT_CLUSTER_NUM c) * ?M"
      by (simp add: snrt_global_compute_core_num_def snrt_cluster_num_def unat_word_ariths)
    then have "k div ?M < unat (SNRT_CLUSTER_NUM c)"
      using that(1) by (simp add: less_mult_imp_div_less)
    moreover have "k mod ?M < unat (SNRT_CLUSTER_CORE_NUM c)"
      using mod_less_divisor [OF M0, of k] unat_compute_core_num [OF assms] by linarith
    ultimately show ?thesis using that by simp
  qed
  have compute: "snrt_is_compute_core c (hart_of c (k div ?M) (k mod ?M))"
    if "k < unat (snrt_global_compute_core_num c)" for k
    using hart_of_idx(2) [OF assms] * [OF that refl refl] M0
    by (simp add: snrt_is_compute_core_def word_less_nat_alt)
  show "\<forall>k\<in>{..<unat (snrt_global_compute_core_num c)}.
      unat (snrt_global_compute_core_idx c (hart_of c (k div ?M) (k mod ?M))) = k"
    using * compute by (auto simp: unat_global_compute_core_idx(1) [OF assms unat_hart_of(2) [OF assms]]
        hart_of_idx [OF assms])
  show "(\<lambda>h. unat (snrt_global_compute_core_idx c h)) ` {h \<in> harts c. snrt_is_compute_core c h}
      \<subseteq> {..<unat (snrt_global_compute_core_num c)}"
    using unat_global_compute_core_idx(2) [OF assms] by auto
  show "(\<lambda>k. hart_of c (k div ?M) (k mod ?M)) ` {..<unat (snrt_global_compute_core_num c)}
      \<subseteq> {h \<in> harts c. snrt_is_compute_core c h}"
    using * compute unat_hart_of(2) [OF assms] by auto
qed

text \<open>
  A concrete system: two clusters of the default configuration (eight compute cores and one
  data mover each), 128 KiB of TCDM in 32 banks, one hyperbank.
\<close>

definition sample_cfg :: snrt_cfg where
  "sample_cfg = \<lparr>SNRT_BASE_HARTID = 0, SNRT_CLUSTER_CORE_NUM = 9, SNRT_CLUSTER_NUM = 2,
     SNRT_CLUSTER_DM_CORE_NUM = 1, SNRT_TCDM_START_ADDR = 0x10000000, SNRT_TCDM_SIZE = 0x20000,
     SNRT_TCDM_BANK_WIDTH = 8, SNRT_TCDM_BANK_NUM = 32, SNRT_TCDM_HYPERBANK_NUM = 1,
     SNRT_TCDM_HYPERBANK_SIZE = 0x20000, SNRT_CLUSTER_OFFSET = 0x40000,
     SNRT_L3_END_ADDR = 0x100000000, SNRT_LOG2_STACK_SIZE = 10\<rparr>"

lemma cfg_wf_sample: "cfg_wf sample_cfg"
  by (simp add: cfg_wf_def sample_cfg_def)

theorem team_indices_bijection_witness:
  "cfg_wf sample_cfg \<and>
   bij_betw (\<lambda>h. (unat (snrt_cluster_idx sample_cfg h), unat (snrt_cluster_core_idx sample_cfg h)))
     (harts sample_cfg) ({..<2} \<times> {..<9})"
  using cfg_wf_sample team_indices_bijection [OF cfg_wf_sample]
  by (simp add: team_defs sample_cfg_def)

theorem compute_core_indices_bijection_witness:
  "cfg_wf sample_cfg \<and>
   bij_betw (\<lambda>h. unat (snrt_global_compute_core_idx sample_cfg h))
     {h \<in> harts sample_cfg. snrt_is_compute_core sample_cfg h} {..<16}"
proof -
  have "unat (snrt_global_compute_core_num sample_cfg) = 16"
    by (simp add: team_defs sample_cfg_def)
  then show ?thesis
    using cfg_wf_sample compute_core_indices_bijection [OF cfg_wf_sample] by simp
qed

end
