(* ===== verification/Alloc.thy ===== *)
theory Alloc
  imports Team
begin

text \<open>
  The bump allocators of the runtime: alignment and the cluster-shared allocators of
  \<open>sw/runtime/src/alloc.h\<close>, the per-core allocators and the pointer translations of
  \<open>sw/runtime/src/alloc_v2.h\<close>, and the memory layout they rely on (\<open>snrt_cls_base_addr\<close> of
  \<open>start.h\<close> and the stack pointers of \<open>start.S\<close>). The \<open>ecall\<close> of a failed bounds check is
  the error branch of the result. The locale \<open>bump_allocator\<close> states what a client relies on:
  blocks are handed out in increasing address order below the limit; it is interpreted on the
  model of each of the four allocation routines.
\<close>

section \<open>Alignment\<close>

definition MIN_CHUNK_SIZE :: u32 where
  "MIN_CHUNK_SIZE = 8"

text \<open>Unsigned 32-bit arithmetic; the callers pass a non-zero \<open>size\<close>.\<close>

definition snrt_align_up :: "u32 \<Rightarrow> u32 \<Rightarrow> u32 \<Rightarrow> u32" where
  "snrt_align_up addr sz base = (((addr - base) + sz - 1) div sz) * sz + base"

definition snrt_align_up_hyperbank :: "snrt_cfg \<Rightarrow> u32 \<Rightarrow> u32" where
  "snrt_align_up_hyperbank c addr =
     snrt_align_up addr (SNRT_TCDM_HYPERBANK_WIDTH c) (SNRT_TCDM_START_ADDR c)"

section \<open>Allocator state\<close>

record snrt_allocator_t =
  a_base :: u64
  a_end :: u64
  a_next :: u64

text \<open>The symbols and address of the generated linker script and address map.\<close>

record ld_syms =
  cdata_start :: u32
  cdata_end :: u32
  cbss_start :: u32
  cbss_end :: u32
  tdata_start :: u32
  tdata_end :: u32
  tbss_start :: u32
  tbss_end :: u32
  bss_start :: u32
  bss_end :: u32
  edram :: u32

section \<open>Cluster-shared allocators (alloc.h)\<close>

definition snrt_l1_next :: "snrt_allocator_t \<Rightarrow> u32" where
  "snrt_l1_next a = ucast (a_next a)"

definition snrt_l3_next :: "snrt_allocator_t \<Rightarrow> u32" where
  "snrt_l3_next a = ucast (a_next a)"

definition snrt_l1_alloc :: "u32 \<Rightarrow> snrt_allocator_t \<Rightarrow> u32 \<times> snrt_allocator_t" where
  "snrt_l1_alloc sz alloc =
     (let sz = snrt_align_up sz MIN_CHUNK_SIZE 0;
          ret = ucast (a_next alloc)
      in (ret, alloc\<lparr>a_next := a_next alloc + ucast sz\<rparr>))"

definition snrt_l1_update_next :: "u32 \<Rightarrow> snrt_allocator_t \<Rightarrow> snrt_allocator_t" where
  "snrt_l1_update_next nxt alloc = alloc\<lparr>a_next := ucast nxt\<rparr>"

definition snrt_l3_alloc :: "u32 \<Rightarrow> snrt_allocator_t \<Rightarrow> u32 \<times> snrt_allocator_t" where
  "snrt_l3_alloc sz alloc =
     (let sz = snrt_align_up sz MIN_CHUNK_SIZE 0;
          ret = ucast (a_next alloc)
      in (ret, alloc\<lparr>a_next := a_next alloc + ucast sz\<rparr>))"

text \<open>
  \<open>snrt_alloc_init\<close> up to its closing barrier: the data mover of a cluster sets the cluster's
  L1 allocator and the global L3 allocator; \<open>tcdm\<close> is the address of the cluster's TCDM.
\<close>

definition snrt_alloc_init ::
  "snrt_cfg \<Rightarrow> ld_syms \<Rightarrow> hart \<Rightarrow> u32 \<Rightarrow> snrt_allocator_t \<times> snrt_allocator_t \<Rightarrow>
     snrt_allocator_t \<times> snrt_allocator_t" where
  "snrt_alloc_init c ld h tcdm = (\<lambda>(l1, l3).
     if snrt_is_dm_core c h then
       (let b1 = ucast (snrt_align_up tcdm MIN_CHUNK_SIZE 0);
            b3 = ucast (snrt_align_up (edram ld) MIN_CHUNK_SIZE 0)
        in (l1\<lparr>a_base := b1, a_end := ucast (tcdm + SNRT_TCDM_SIZE c), a_next := b1\<rparr>,
            l3\<lparr>a_base := b3, a_end := b3, a_next := b3\<rparr>))
     else (l1, l3))"

section \<open>Per-core allocators (alloc\_v2.h)\<close>

text \<open>The error of an allocation: the environment call of the bounds check.\<close>

datatype trap = Ecall snrt_allocator_t

definition snrt_l1_next_v2 :: "snrt_allocator_t \<Rightarrow> u32" where
  "snrt_l1_next_v2 a = ucast (a_next a)"

definition snrt_l1_update_next_v2 :: "u32 \<Rightarrow> snrt_allocator_t \<Rightarrow> snrt_allocator_t" where
  "snrt_l1_update_next_v2 nxt a = a\<lparr>a_next := ucast nxt\<rparr>"

definition snrt_l1_alloc_check_bounds :: "snrt_allocator_t \<Rightarrow> trap + unit" where
  "snrt_l1_alloc_check_bounds a = (if a_next a > a_end a then Inl (Ecall a) else Inr ())"

definition snrt_l1_alloc_cluster_local ::
  "u32 \<Rightarrow> u32 \<Rightarrow> snrt_allocator_t \<Rightarrow> trap + u32 \<times> snrt_allocator_t" where
  "snrt_l1_alloc_cluster_local sz alignment a =
     (let a1 = a\<lparr>a_next := ucast (snrt_align_up (ucast (a_next a)) alignment 0)\<rparr>;
          retval = snrt_l1_next_v2 a1;
          a2 = a1\<lparr>a_next := a_next a1 + ucast sz\<rparr>
      in case snrt_l1_alloc_check_bounds a2 of
           Inl e \<Rightarrow> Inl e
         | Inr _ \<Rightarrow> Inr (retval, a2))"

definition snrt_l1_alloc_compute_core_local ::
  "snrt_cfg \<Rightarrow> hart \<Rightarrow> u32 \<Rightarrow> u32 \<Rightarrow> snrt_allocator_t \<Rightarrow> trap + u32 \<times> snrt_allocator_t" where
  "snrt_l1_alloc_compute_core_local c h sz alignment a =
     (let a1 = a\<lparr>a_next := ucast (snrt_align_up (ucast (a_next a)) alignment 0)\<rparr>;
          retval = snrt_l1_next_v2 a1 + sz * snrt_cluster_core_idx c h;
          a2 = a1\<lparr>a_next := a_next a1 + ucast (sz * snrt_cluster_compute_core_num c)\<rparr>
      in case snrt_l1_alloc_check_bounds a2 of
           Inl e \<Rightarrow> Inl e
         | Inr _ \<Rightarrow> Inr (retval, a2))"

text \<open>The base of the cluster-local storage at the top of the TCDM (\<open>start.h\<close>).\<close>

definition snrt_cls_base_addr :: "snrt_cfg \<Rightarrow> ld_syms \<Rightarrow> hart \<Rightarrow> u32" where
  "snrt_cls_base_addr c ld h =
     (let cdata_size = cdata_end ld - cdata_start ld;
          cbss_size = cbss_end ld - cbss_start ld;
          l1_end_addr = SNRT_TCDM_START_ADDR c + snrt_cluster_idx c h * SNRT_CLUSTER_OFFSET c
            + SNRT_TCDM_SIZE c
      in l1_end_addr - cdata_size - cbss_size)"

definition snrt_l1_init ::
  "snrt_cfg \<Rightarrow> ld_syms \<Rightarrow> hart \<Rightarrow> u32 \<Rightarrow> snrt_allocator_t \<Rightarrow> snrt_allocator_t" where
  "snrt_l1_init c ld h tcdm a =
     (let heap_end_addr = snrt_cls_base_addr c ld h;
          heap_end_addr = heap_end_addr - push_bit (SNRT_LOG2_STACK_SIZE c) 1 * snrt_cluster_core_num c;
          heap_end_addr = heap_end_addr - 128;
          b = ucast (snrt_align_up tcdm MIN_CHUNK_SIZE 0)
      in a\<lparr>a_base := b, a_end := ucast heap_end_addr, a_next := b\<rparr>)"

definition snrt_l3_next_v2 :: "snrt_allocator_t \<Rightarrow> u32" where
  "snrt_l3_next_v2 a = ucast (a_next a)"

definition snrt_l3_alloc_check_bounds :: "snrt_allocator_t \<Rightarrow> trap + unit" where
  "snrt_l3_alloc_check_bounds a = (if a_next a \<ge> a_end a then Inl (Ecall a) else Inr ())"

definition snrt_l3_alloc_v2 ::
  "u32 \<Rightarrow> u32 \<Rightarrow> snrt_allocator_t \<Rightarrow> trap + u32 \<times> snrt_allocator_t" where
  "snrt_l3_alloc_v2 sz alignment a =
     (let a1 = a\<lparr>a_next := ucast (snrt_align_up (ucast (a_next a)) alignment 0)\<rparr>;
          retval = snrt_l3_next_v2 a1;
          a2 = a1\<lparr>a_next := a_next a1 + ucast sz\<rparr>
      in case snrt_l3_alloc_check_bounds a2 of
           Inl e \<Rightarrow> Inl e
         | Inr _ \<Rightarrow> Inr (retval, a2))"

definition snrt_l3_init :: "snrt_cfg \<Rightarrow> ld_syms \<Rightarrow> snrt_allocator_t \<Rightarrow> snrt_allocator_t" where
  "snrt_l3_init c ld a =
     (let b = ucast (snrt_align_up (edram ld) MIN_CHUNK_SIZE 0)
      in a\<lparr>a_base := b, a_end := SNRT_L3_END_ADDR c, a_next := b\<rparr>)"

section \<open>Pointer translation\<close>

definition snrt_compute_core_local_ptr :: "snrt_cfg \<Rightarrow> hart \<Rightarrow> u32 \<Rightarrow> u32 \<Rightarrow> u32 \<Rightarrow> u32" where
  "snrt_compute_core_local_ptr c h ptr core_idx sz =
     (let offset = (core_idx - snrt_cluster_core_idx c h) * sz in ptr + offset)"

definition snrt_remote_l1_ptr :: "snrt_cfg \<Rightarrow> u32 \<Rightarrow> u32 \<Rightarrow> u32 \<Rightarrow> u32" where
  "snrt_remote_l1_ptr c ptr src_cluster_idx dst_cluster_idx =
     ptr + (dst_cluster_idx - src_cluster_idx) * SNRT_CLUSTER_OFFSET c"

section \<open>Stack pointers (start.S)\<close>

text \<open>
  The stack pointer of a core before space for the thread-local storage is taken from it: the
  stacks grow down from below the cluster-local storage, one per core, each shifted by 8 bytes.
  The cluster index is computed with the signed division of the instruction \<open>div\<close>.
\<close>

definition rv_div :: "u32 \<Rightarrow> u32 \<Rightarrow> u32" where
  "rv_div a b = (if b = 0 then - 1 else word_of_int (sgn (sint a) * sgn (sint b) * (\<bar>sint a\<bar> div \<bar>sint b\<bar>)))"

definition stack_start :: "snrt_cfg \<Rightarrow> ld_syms \<Rightarrow> hart \<Rightarrow> u32" where
  "stack_start c ld h =
     (let a0 = h - SNRT_BASE_HARTID c;
          t0 = rv_div a0 (SNRT_CLUSTER_CORE_NUM c);
          a0 = a0 mod SNRT_CLUSTER_CORE_NUM c;
          a2 = SNRT_TCDM_START_ADDR c + SNRT_CLUSTER_OFFSET c * t0 + SNRT_TCDM_SIZE c;
          a2 = a2 - (cdata_end ld - cdata_start ld);
          a2 = a2 - (cbss_end ld - cbss_start ld);
          a2 = a2 - 8;
          sp = a2 - push_bit (SNRT_LOG2_STACK_SIZE c) a0
      in sp - push_bit 3 a0)"

section \<open>Alignment lemmas\<close>

lemma nat_round_up:
  assumes "0 < (s::nat)"
  shows "x \<le> (x + s - 1) div s * s" "(x + s - 1) div s * s < x + s"
proof -
  have "(x + s - 1) div s * s + (x + s - 1) mod s = x + s - 1" by simp
  moreover have "(x + s - 1) mod s < s" using assms by simp
  ultimately show "x \<le> (x + s - 1) div s * s" "(x + s - 1) div s * s < x + s"
    using assms by linarith+
qed

lemma unat_align_up:
  assumes "sz \<noteq> 0" "unat base \<le> unat addr" "unat addr + unat sz \<le> 2 ^ 32"
  shows "unat (snrt_align_up addr sz base) =
    (unat addr - unat base + unat sz - 1) div unat sz * unat sz + unat base"
proof -
  let ?x = "unat addr - unat base" and ?s = "unat sz"
  have s0: "0 < ?s" using assms(1) by (simp add: unat_gt_0)
  then have "1 \<le> sz" by (simp add: word_le_nat_alt)
  then have "unat (sz - 1) = ?s - 1" by (simp add: unat_sub)
  moreover have "unat (addr - base) = ?x" using assms(2) by (rule unat_sub_exact)
  ultimately have "unat ((addr - base) + (sz - 1)) = ?x + ?s - 1"
    using assms s0 by (subst unat_add_exact) simp_all
  then have n: "unat ((addr - base) + sz - 1) = ?x + ?s - 1"
    by (simp add: add_diff_eq)
  have lt: "(?x + ?s - 1) div ?s * ?s < ?x + ?s" using nat_round_up(2) [OF s0] .
  have m: "unat (((addr - base) + sz - 1) div sz * sz) = (?x + ?s - 1) div ?s * ?s"
    using lt assms n by (subst unat_mult_exact) (simp_all add: unat_div)
  show ?thesis
    unfolding snrt_align_up_def
    using lt assms by (subst unat_add_exact) (simp_all add: m)
qed

lemma align_up_range:
  assumes "sz \<noteq> 0" "unat base \<le> unat addr" "unat addr + unat sz \<le> 2 ^ 32"
  shows "unat addr \<le> unat (snrt_align_up addr sz base)"
    and "unat (snrt_align_up addr sz base) < unat addr + unat sz"
    and "(unat (snrt_align_up addr sz base) - unat base) mod unat sz = 0"
proof -
  have s0: "0 < unat sz" using assms(1) by (simp add: unat_gt_0)
  show "unat addr \<le> unat (snrt_align_up addr sz base)"
    "unat (snrt_align_up addr sz base) < unat addr + unat sz"
    using nat_round_up [OF s0, of "unat addr - unat base"] assms(2)
    unfolding unat_align_up [OF assms] by linarith+
  show "(unat (snrt_align_up addr sz base) - unat base) mod unat sz = 0"
    by (simp add: unat_align_up [OF assms])
qed

section \<open>The contract of a bump allocator\<close>

text \<open>
  A sequence of allocations, stopping at the first that fails; each request yields the address
  of its block.
\<close>

fun alloc_seq :: "('r \<Rightarrow> 's \<Rightarrow> (nat \<times> 's) option) \<Rightarrow> 'r list \<Rightarrow> 's \<Rightarrow> (nat list \<times> 's) option" where
  "alloc_seq alloc [] s = Some ([], s)"
| "alloc_seq alloc (r # rs) s =
     (case alloc r s of
        None \<Rightarrow> None
      | Some (p, s') \<Rightarrow>
          (case alloc_seq alloc rs s' of
             None \<Rightarrow> None
           | Some (ps, s'') \<Rightarrow> Some (p # ps, s'')))"

text \<open>Blocks in increasing address order, each ending where the next may start.\<close>

definition blocks_ascending :: "('r \<Rightarrow> nat) \<Rightarrow> (nat \<times> 'r) list \<Rightarrow> bool" where
  "blocks_ascending len bs \<longleftrightarrow> sorted_wrt (\<lambda>(p, r) (q, _). p + len r \<le> q) bs"

locale bump_allocator =
  fixes alloc :: "'r \<Rightarrow> 's \<Rightarrow> (nat \<times> 's) option"
    and len :: "'r \<Rightarrow> nat"
    and frontier :: "'s \<Rightarrow> nat"
    and limit :: "'s \<Rightarrow> nat"
    and inv :: "'s \<Rightarrow> bool"
  assumes alloc_inv: "inv s \<Longrightarrow> alloc r s = Some (p, s') \<Longrightarrow> inv s'"
    and alloc_block: "inv s \<Longrightarrow> alloc r s = Some (p, s') \<Longrightarrow>
      frontier s \<le> p \<and> p + len r \<le> frontier s'"
    and alloc_limit: "inv s \<Longrightarrow> alloc r s = Some (p, s') \<Longrightarrow>
      frontier s' \<le> limit s' \<and> limit s' = limit s"
begin

lemma alloc_seq_inv:
  "inv s \<Longrightarrow> alloc_seq alloc rs s = Some (ps, s') \<Longrightarrow>
     inv s' \<and> limit s' = limit s \<and> frontier s \<le> frontier s' \<and> length ps = length rs"
proof (induction rs arbitrary: s ps)
  case Nil
  then show ?case by simp
next
  case (Cons r rs)
  from Cons.prems(2) obtain p s1 qs where
    1: "alloc r s = Some (p, s1)" "alloc_seq alloc rs s1 = Some (qs, s')" "ps = p # qs"
    by (auto split: option.splits)
  with Cons.IH [OF alloc_inv [OF Cons.prems(1) 1(1)] 1(2)] Cons.prems(1)
  show ?case using alloc_block [OF Cons.prems(1) 1(1)] alloc_limit [OF Cons.prems(1) 1(1)] by auto
qed

lemma alloc_seq_in_range:
  "inv s \<Longrightarrow> alloc_seq alloc rs s = Some (ps, s') \<Longrightarrow> (p, r) \<in> set (zip ps rs) \<Longrightarrow>
     frontier s \<le> p \<and> p + len r \<le> limit s"
proof (induction rs arbitrary: s ps)
  case Nil
  then show ?case by simp
next
  case (Cons r' rs)
  from Cons.prems(2) obtain q s1 qs where
    1: "alloc r' s = Some (q, s1)" "alloc_seq alloc rs s1 = Some (qs, s')" "ps = q # qs"
    by (auto split: option.splits)
  note facts = alloc_block [OF Cons.prems(1) 1(1)] alloc_limit [OF Cons.prems(1) 1(1)]
  show ?case
  proof (cases "(p, r) = (q, r')")
    case True
    with facts show ?thesis by auto
  next
    case False
    with Cons.prems(3) 1(3) have "(p, r) \<in> set (zip qs rs)" by auto
    with Cons.IH [OF alloc_inv [OF Cons.prems(1) 1(1)] 1(2)] facts show ?thesis by auto
  qed
qed

lemma alloc_seq_ascending:
  "inv s \<Longrightarrow> alloc_seq alloc rs s = Some (ps, s') \<Longrightarrow> blocks_ascending len (zip ps rs)"
proof (induction rs arbitrary: s ps)
  case Nil
  then show ?case by (simp add: blocks_ascending_def)
next
  case (Cons r rs)
  from Cons.prems(2) obtain p s1 qs where
    1: "alloc r s = Some (p, s1)" "alloc_seq alloc rs s1 = Some (qs, s')" "ps = p # qs"
    by (auto split: option.splits)
  have i1: "inv s1" by (rule alloc_inv [OF Cons.prems(1) 1(1)])
  have "p + len r \<le> q" if "(q, r') \<in> set (zip qs rs)" for q r'
    using alloc_seq_in_range [OF i1 1(2) that] alloc_block [OF Cons.prems(1) 1(1)] by simp
  with Cons.IH [OF i1 1(2)] show ?case
    by (auto simp: blocks_ascending_def 1(3))
qed

end

section \<open>The allocators of the runtime as bump allocators\<close>

text \<open>
  A request is a size and an alignment. The adapters forget the trap and refuse a request whose
  alignment is zero or would carry the 32-bit address past \<open>2 ^ 32\<close> (\<open>no_wrap\<close>); the shared
  allocators, which check nothing, in addition refuse a block past \<open>2 ^ 32\<close>.
\<close>

definition no_wrap :: "u32 \<Rightarrow> snrt_allocator_t \<Rightarrow> bool" where
  "no_wrap al a \<longleftrightarrow> al \<noteq> 0 \<and> unat (a_next a) + unat al \<le> 2 ^ 32"

definition l1_local_req :: "u32 \<times> u32 \<Rightarrow> snrt_allocator_t \<Rightarrow> (nat \<times> snrt_allocator_t) option" where
  "l1_local_req = (\<lambda>(sz, al) a.
     if no_wrap al a then
       (case snrt_l1_alloc_cluster_local sz al a of
          Inl _ \<Rightarrow> None
        | Inr (p, a') \<Rightarrow> Some (unat p, a'))
     else None)"

definition l3_v2_req :: "u32 \<times> u32 \<Rightarrow> snrt_allocator_t \<Rightarrow> (nat \<times> snrt_allocator_t) option" where
  "l3_v2_req = (\<lambda>(sz, al) a.
     if no_wrap al a then
       (case snrt_l3_alloc_v2 sz al a of
          Inl _ \<Rightarrow> None
        | Inr (p, a') \<Rightarrow> Some (unat p, a'))
     else None)"

definition l1_core_req ::
  "snrt_cfg \<Rightarrow> hart \<Rightarrow> u32 \<times> u32 \<Rightarrow> snrt_allocator_t \<Rightarrow> (nat \<times> snrt_allocator_t) option" where
  "l1_core_req c h = (\<lambda>(sz, al) a.
     if no_wrap al a \<and> unat sz * unat (snrt_cluster_compute_core_num c) < 2 ^ 32 then
       (case snrt_l1_alloc_compute_core_local c h sz al a of
          Inl _ \<Rightarrow> None
        | Inr (p, a') \<Rightarrow> Some (unat (p - sz * snrt_cluster_core_idx c h), a'))
     else None)"

definition shared_req ::
  "(u32 \<Rightarrow> snrt_allocator_t \<Rightarrow> u32 \<times> snrt_allocator_t) \<Rightarrow> u32 \<Rightarrow> snrt_allocator_t \<Rightarrow>
     (nat \<times> snrt_allocator_t) option" where
  "shared_req alloc sz a =
     (if unat sz + 8 \<le> 2 ^ 32 \<and> unat (a_next a) + unat sz + 8 \<le> 2 ^ 32
      then (case alloc sz a of (p, a') \<Rightarrow> Some (unat p, a')) else None)"

lemma unat_u64_to_u32:
  "unat (x :: u64) < 4294967296 \<Longrightarrow> unat (ucast x :: u32) = unat x"
  by (simp add: unsigned_ucast_eq take_bit_nat_eq_self)

lemma unat_next_plus:
  "unat ((ucast (x :: u32) :: u64) + ucast (y :: u32)) = unat x + unat y"
proof -
  have "unat x + unat y < 18446744073709551616"
    using unat_u32_bound [of x] unat_u32_bound [of y] by linarith
  then show ?thesis by (subst unat_add_exact) simp_all
qed

text \<open>The next pointer after alignment, and the block behind it.\<close>

lemma aligned_next:
  assumes "no_wrap al a"
  defines "p \<equiv> snrt_align_up (ucast (a_next a)) al 0"
  shows "unat (a_next a) \<le> unat p" "unat p < unat (a_next a) + unat al" "unat p mod unat al = 0"
proof -
  have al0: "al \<noteq> 0" and le: "unat (a_next a) + unat al \<le> 4294967296"
    using assms(1) by (simp_all add: no_wrap_def)
  have "0 < unat al" using al0 by (simp add: unat_gt_0)
  then have n: "unat (ucast (a_next a) :: u32) = unat (a_next a)"
    using le by (intro unat_u64_to_u32) linarith
  show "unat (a_next a) \<le> unat p" "unat p < unat (a_next a) + unat al" "unat p mod unat al = 0"
    using align_up_range [of al 0 "ucast (a_next a)"] al0 le by (simp_all add: n p_def)
qed

lemma l1_local_reqD:
  assumes "l1_local_req (sz, al) a = Some (p, a')"
  shows "unat (a_next a) \<le> p" "p + unat sz = unat (a_next a')" "p mod unat al = 0"
    "unat (a_next a') \<le> unat (a_end a')" "a_end a' = a_end a"
proof -
  let ?q = "snrt_align_up (ucast (a_next a)) al 0"
  have nw: "no_wrap al a" and p: "p = unat ?q"
    and a': "a' = a\<lparr>a_next := ucast ?q + ucast sz\<rparr>" and le: "a_next a' \<le> a_end a'"
    using assms
    by (auto simp: l1_local_req_def snrt_l1_alloc_cluster_local_def snrt_l1_alloc_check_bounds_def
        snrt_l1_next_v2_def Let_def ucast_id split: if_splits)
  show "unat (a_next a) \<le> p" "p mod unat al = 0"
    using aligned_next [OF nw] by (simp_all add: p)
  show "p + unat sz = unat (a_next a')" by (simp add: a' p unat_next_plus)
  show "unat (a_next a') \<le> unat (a_end a')" using le by (simp add: word_le_nat_alt)
  show "a_end a' = a_end a" by (simp add: a')
qed

interpretation l1_local: bump_allocator l1_local_req "\<lambda>r. unat (fst r)"
  "\<lambda>a. unat (a_next a)" "\<lambda>a. unat (a_end a)" "\<lambda>_. True"
proof unfold_locales
  fix s s' r p
  assume r: "l1_local_req r s = Some (p, s')"
  obtain sz al where [simp]: "r = (sz, al)" by (cases r)
  note d = l1_local_reqD [OF r [simplified]]
  show "unat (a_next s) \<le> p \<and> p + unat (fst r) \<le> unat (a_next s')" using d by simp
  show "unat (a_next s') \<le> unat (a_end s') \<and> unat (a_end s') = unat (a_end s)" using d by simp
qed simp

lemma l3_v2_reqD:
  assumes "l3_v2_req (sz, al) a = Some (p, a')"
  shows "unat (a_next a) \<le> p" "p + unat sz = unat (a_next a')" "p mod unat al = 0"
    "unat (a_next a') < unat (a_end a')" "a_end a' = a_end a"
proof -
  let ?q = "snrt_align_up (ucast (a_next a)) al 0"
  have nw: "no_wrap al a" and p: "p = unat ?q"
    and a': "a' = a\<lparr>a_next := ucast ?q + ucast sz\<rparr>" and lt: "a_next a' < a_end a'"
    using assms
    by (auto simp: l3_v2_req_def snrt_l3_alloc_v2_def snrt_l3_alloc_check_bounds_def
        snrt_l3_next_v2_def Let_def split: if_splits)
  show "unat (a_next a) \<le> p" "p mod unat al = 0"
    using aligned_next [OF nw] by (simp_all add: p)
  show "p + unat sz = unat (a_next a')" by (simp add: a' p unat_next_plus)
  show "unat (a_next a') < unat (a_end a')" using lt by (simp add: word_less_nat_alt)
  show "a_end a' = a_end a" by (simp add: a')
qed

interpretation l3_v2: bump_allocator l3_v2_req "\<lambda>r. unat (fst r)"
  "\<lambda>a. unat (a_next a)" "\<lambda>a. unat (a_end a)" "\<lambda>_. True"
proof unfold_locales
  fix s s' r p
  assume r: "l3_v2_req r s = Some (p, s')"
  obtain sz al where [simp]: "r = (sz, al)" by (cases r)
  note d = l3_v2_reqD [OF r [simplified]]
  show "unat (a_next s) \<le> p \<and> p + unat (fst r) \<le> unat (a_next s')" using d by simp
  show "unat (a_next s') \<le> unat (a_end s') \<and> unat (a_end s') = unat (a_end s)" using d by simp
qed simp

lemma l1_core_reqD:
  assumes "l1_core_req c h (sz, al) a = Some (p, a')"
  shows "unat (a_next a) \<le> p"
    "p + unat sz * unat (snrt_cluster_compute_core_num c) = unat (a_next a')" "p mod unat al = 0"
    "unat (a_next a') \<le> unat (a_end a')" "a_end a' = a_end a"
proof -
  let ?q = "snrt_align_up (ucast (a_next a)) al 0"
  let ?n = "sz * snrt_cluster_compute_core_num c"
  have nw: "no_wrap al a" and p: "p = unat ?q"
    and m: "unat sz * unat (snrt_cluster_compute_core_num c) < 2 ^ 32"
    and a': "a' = a\<lparr>a_next := ucast ?q + ucast ?n\<rparr>" and le: "a_next a' \<le> a_end a'"
    using assms
    by (auto simp: l1_core_req_def snrt_l1_alloc_compute_core_local_def
        snrt_l1_alloc_check_bounds_def snrt_l1_next_v2_def Let_def split: if_splits)
  show "unat (a_next a) \<le> p" "p mod unat al = 0"
    using aligned_next [OF nw] by (simp_all add: p)
  show "p + unat sz * unat (snrt_cluster_compute_core_num c) = unat (a_next a')"
    using m by (simp add: a' p unat_next_plus unat_mult_exact)
  show "unat (a_next a') \<le> unat (a_end a')" using le by (simp add: word_le_nat_alt)
  show "a_end a' = a_end a" by (simp add: a')
qed

interpretation l1_core: bump_allocator "l1_core_req c h"
  "\<lambda>r. unat (fst r) * unat (snrt_cluster_compute_core_num c)"
  "\<lambda>a. unat (a_next a)" "\<lambda>a. unat (a_end a)" "\<lambda>_. True" for c h
proof unfold_locales
  fix s s' r p
  assume r: "l1_core_req c h r s = Some (p, s')"
  obtain sz al where [simp]: "r = (sz, al)" by (cases r)
  note d = l1_core_reqD [OF r [simplified]]
  show "unat (a_next s) \<le> p \<and>
      p + unat (fst r) * unat (snrt_cluster_compute_core_num c) \<le> unat (a_next s')" using d by simp
  show "unat (a_next s') \<le> unat (a_end s') \<and> unat (a_end s') = unat (a_end s)" using d by simp
qed simp

lemma shared_req_block:
  assumes "shared_req snrt_l1_alloc sz a = Some (p, a')"
  shows "p = unat (a_next a)" "p + unat sz \<le> unat (a_next a')" "unat (a_next a') \<le> 2 ^ 32"
proof -
  let ?s = "snrt_align_up sz MIN_CHUNK_SIZE 0"
  have g: "unat sz + 8 \<le> 4294967296" "unat (a_next a) + unat sz + 8 \<le> 4294967296"
    and p: "p = unat (ucast (a_next a) :: u32)" and a': "a_next a' = a_next a + ucast ?s"
    using assms by (auto simp: shared_req_def snrt_l1_alloc_def Let_def split: if_splits)
  have s: "unat sz \<le> unat ?s" "unat ?s < unat sz + 8"
    using align_up_range [of MIN_CHUNK_SIZE 0 sz] g by (simp_all add: MIN_CHUNK_SIZE_def)
  show p': "p = unat (a_next a)" using g by (simp add: p unat_u64_to_u32)
  have n: "unat (a_next a') = unat (a_next a) + unat ?s"
    using g s unfolding a' by (subst unat_add_exact) simp_all
  show "p + unat sz \<le> unat (a_next a')" using s n p' by simp
  show "unat (a_next a') \<le> 2 ^ 32" using s n g by simp
qed

interpretation l1_shared: bump_allocator "shared_req snrt_l1_alloc" unat
  "\<lambda>a. unat (a_next a)" "\<lambda>_. 2 ^ 32" "\<lambda>_. True"
proof unfold_locales
  fix s s' r p
  assume r: "shared_req snrt_l1_alloc r s = Some (p, s')"
  note d = shared_req_block [OF r]
  show "unat (a_next s) \<le> p \<and> p + unat r \<le> unat (a_next s')" using d by simp
  show "unat (a_next s') \<le> 2 ^ 32 \<and> (2 ^ 32 :: nat) = 2 ^ 32" using d by simp
qed simp

lemma l3_alloc_as_l1: "snrt_l3_alloc = snrt_l1_alloc"
  by (intro ext) (simp add: snrt_l3_alloc_def snrt_l1_alloc_def)

interpretation l3_shared: bump_allocator "shared_req snrt_l3_alloc" unat
  "\<lambda>a. unat (a_next a)" "\<lambda>_. 2 ^ 32" "\<lambda>_. True"
  unfolding l3_alloc_as_l1 by (rule l1_shared.bump_allocator_axioms)

section \<open>The layout of the top of the TCDM\<close>

text \<open>
  The memory above the heap fits: the end of the cluster's TCDM is a 32-bit address, and
  cluster-local storage, stacks and margins lie below it. Hart indices are below \<open>2 ^ 31\<close>.
\<close>

definition tcdm_top :: "snrt_cfg \<Rightarrow> hart \<Rightarrow> nat" where
  "tcdm_top c h = unat (SNRT_TCDM_START_ADDR c) +
     unat (snrt_cluster_idx c h) * unat (SNRT_CLUSTER_OFFSET c) + unat (SNRT_TCDM_SIZE c)"

definition cls_size :: "ld_syms \<Rightarrow> nat" where
  "cls_size ld = unat (cdata_end ld - cdata_start ld) + unat (cbss_end ld - cbss_start ld)"

definition stacks_fit :: "snrt_cfg \<Rightarrow> ld_syms \<Rightarrow> hart \<Rightarrow> bool" where
  "stacks_fit c ld h \<longleftrightarrow> tcdm_top c h < 2 ^ 32 \<and>
     cls_size ld + 136 + (2 ^ SNRT_LOG2_STACK_SIZE c + 8) * unat (SNRT_CLUSTER_CORE_NUM c)
       \<le> tcdm_top c h \<and>
     unat (SNRT_CLUSTER_NUM c) * unat (SNRT_CLUSTER_CORE_NUM c) < 2 ^ 31"

lemma signed_div_nat:
  "0 < n \<Longrightarrow> sgn (int m) * sgn (int n) * (\<bar>int m\<bar> div \<bar>int n\<bar>) = int (m div n)"
  by (cases "m = 0") (simp_all add: zdiv_int)

lemma rv_div_eq_div:
  assumes "unat a < 2147483648" "unat b < 2147483648" "b \<noteq> 0"
  shows "rv_div a b = a div b"
proof -
  have "0 < unat b" using assms(3) by (simp add: unat_gt_0)
  then show ?thesis
    using assms(3) unfolding rv_div_def sint_small [OF assms(1)] sint_small [OF assms(2)]
    by (simp only: signed_div_nat) (simp add: word_arith_nat_div)
qed

lemma unat_shift_stack:
  assumes "unat a * 2 ^ L < 4294967296" "L < 32"
  shows "unat (push_bit L (a :: u32)) = unat a * 2 ^ L"
proof -
  have "(2::nat) ^ L < 2 ^ 32" using assms(2) by (intro power_strict_increasing) simp_all
  then have "unat (of_nat (2 ^ L) :: u32) = 2 ^ L" by (intro unat_of_nat_exact) simp
  then have "unat (2 ^ L :: u32) = 2 ^ L" by simp
  then show ?thesis
    using assms(1) by (simp add: push_bit_eq_mult unat_mult_exact)
qed

lemma unat_cls_base:
  assumes "stacks_fit c ld h" "snrt_cluster_idx c h' = snrt_cluster_idx c h"
  shows "unat (SNRT_TCDM_START_ADDR c + snrt_cluster_idx c h' * SNRT_CLUSTER_OFFSET c
      + SNRT_TCDM_SIZE c - (cdata_end ld - cdata_start ld) - (cbss_end ld - cbss_start ld))
    = tcdm_top c h - cls_size ld"
proof -
  have top: "tcdm_top c h < 4294967296" and cls: "cls_size ld \<le> tcdm_top c h"
    using assms(1) by (simp_all add: stacks_fit_def)
  have "unat (snrt_cluster_idx c h * SNRT_CLUSTER_OFFSET c) =
      unat (snrt_cluster_idx c h) * unat (SNRT_CLUSTER_OFFSET c)"
    using top by (intro unat_mult_exact) (simp add: tcdm_top_def)
  then have "unat (SNRT_TCDM_START_ADDR c + snrt_cluster_idx c h * SNRT_CLUSTER_OFFSET c
      + SNRT_TCDM_SIZE c) = tcdm_top c h"
    using top by (subst unat_add_exact; (subst unat_add_exact)?; simp add: tcdm_top_def)
  then show ?thesis
    using cls assms(2) by (subst unat_sub_exact; (subst unat_sub_exact)?; simp add: cls_size_def)
qed

lemma unat_heap_end:
  assumes "stacks_fit c ld h" "SNRT_LOG2_STACK_SIZE c < 32"
  shows "unat (a_end (snrt_l1_init c ld h tcdm a)) + 128 + cls_size ld +
    2 ^ SNRT_LOG2_STACK_SIZE c * unat (SNRT_CLUSTER_CORE_NUM c) = tcdm_top c h"
proof -
  let ?N = "unat (SNRT_CLUSTER_CORE_NUM c)" and ?S = "2 ^ SNRT_LOG2_STACK_SIZE c :: nat"
  have f: "tcdm_top c h < 4294967296" "cls_size ld + 136 + (?S + 8) * ?N \<le> tcdm_top c h"
    using assms(1) by (simp_all add: stacks_fit_def)
  then have SN: "?S * ?N + 128 + cls_size ld \<le> tcdm_top c h" by (simp add: algebra_simps)
  have "?S < 2 ^ 32" using assms(2) by (intro power_strict_increasing) simp_all
  then have "unat (2 ^ SNRT_LOG2_STACK_SIZE c :: u32) = ?S"
    using assms(2) unat_shift_stack [of 1 "SNRT_LOG2_STACK_SIZE c"] by simp
  then have m: "unat (2 ^ SNRT_LOG2_STACK_SIZE c * SNRT_CLUSTER_CORE_NUM c) = ?S * ?N"
    using SN f(1) by (subst unat_mult_exact) simp_all
  have "unat (snrt_cls_base_addr c ld h) = tcdm_top c h - cls_size ld"
    using unat_cls_base [OF assms(1) refl] by (simp add: snrt_cls_base_addr_def Let_def)
  then show ?thesis
    using SN by (simp add: snrt_l1_init_def Let_def snrt_cluster_core_num_def unat_sub_exact m)
qed

lemma unat_stack_start:
  assumes "cfg_wf c" "h \<in> harts c" "h' \<in> harts c" "stacks_fit c ld h"
    "snrt_cluster_idx c h' = snrt_cluster_idx c h" "SNRT_LOG2_STACK_SIZE c < 32"
  shows "unat (stack_start c ld h') + 8 + cls_size ld +
    (2 ^ SNRT_LOG2_STACK_SIZE c + 8) * unat (snrt_cluster_core_idx c h') = tcdm_top c h"
proof -
  let ?N = "unat (SNRT_CLUSTER_CORE_NUM c)" and ?S = "2 ^ SNRT_LOG2_STACK_SIZE c :: nat"
  let ?i = "unat (snrt_cluster_core_idx c h')"
  have f: "tcdm_top c h < 4294967296" "cls_size ld + 136 + (?S + 8) * ?N \<le> tcdm_top c h"
    "unat (SNRT_CLUSTER_NUM c) * ?N < 2147483648"
    using assms(4) by (simp_all add: stacks_fit_def)
  have i: "?i < ?N" by (rule idx_bounds(2) [OF assms(1,3)])
  then have "(?S + 8) * ?i \<le> (?S + 8) * ?N" by (intro mult_left_mono) simp_all
  with f(2) have le: "cls_size ld + 136 + ?i * ?S + ?i * 8 \<le> tcdm_top c h"
    by (simp add: algebra_simps)
  have idx: "unat (h' - SNRT_BASE_HARTID c) < unat (SNRT_CLUSTER_NUM c) * ?N"
    using assms(3) by (auto simp: harts_def unat_sub_exact)
  have "?N \<le> unat (SNRT_CLUSTER_NUM c) * ?N" using assms(1) by (simp add: cfg_wf_def)
  then have "?N < 2147483648" using f(3) by linarith
  then have d: "rv_div (h' - SNRT_BASE_HARTID c) (SNRT_CLUSTER_CORE_NUM c) = snrt_cluster_idx c h'"
    using idx f(3) assms(1) by (subst rv_div_eq_div) (auto simp: team_defs cfg_wf_def)
  have s: "unat (push_bit (SNRT_LOG2_STACK_SIZE c) (snrt_cluster_core_idx c h')) = ?i * ?S"
    "unat (push_bit 3 (snrt_cluster_core_idx c h')) = ?i * 8"
    using le f(1) assms(6) by (subst unat_shift_stack; simp)+
  have m: "(h' - SNRT_BASE_HARTID c) mod SNRT_CLUSTER_CORE_NUM c = snrt_cluster_core_idx c h'"
    by (simp add: team_defs)
  have "unat (stack_start c ld h') = tcdm_top c h - cls_size ld - 8 - ?i * ?S - ?i * 8"
    unfolding stack_start_def Let_def d m
    using le unat_cls_base [OF assms(4,5)]
    by (simp add: unat_sub_exact s mult.commute [of "SNRT_CLUSTER_OFFSET c"])
  then show ?thesis using le by (simp add: algebra_simps)
qed

section \<open>Properties\<close>

text \<open>
  C2: away from the end of the address space, \<open>snrt_align_up\<close> returns the least address not
  below \<open>addr\<close> at a multiple of \<open>size\<close> from \<open>base\<close>.
\<close>

theorem align_up_least:
  assumes "sz \<noteq> 0" "unat base \<le> unat addr" "unat addr + unat sz \<le> 2 ^ 32"
  shows "unat addr \<le> unat (snrt_align_up addr sz base) \<and>
     unat sz dvd unat (snrt_align_up addr sz base) - unat base \<and>
     (\<forall>b. unat addr \<le> b \<and> unat sz dvd b - unat base \<longrightarrow> unat (snrt_align_up addr sz base) \<le> b)"
proof -
  note r = align_up_range [OF assms]
  have "unat (snrt_align_up addr sz base) \<le> b"
    if b: "unat addr \<le> b" "unat sz dvd b - unat base" for b
  proof (rule ccontr)
    assume lt: "\<not> unat (snrt_align_up addr sz base) \<le> b"
    have "unat sz dvd (unat (snrt_align_up addr sz base) - unat base) - (b - unat base)"
      by (rule dvd_diff_nat [OF _ b(2)]) (use r(3) in auto)
    moreover have "(unat (snrt_align_up addr sz base) - unat base) - (b - unat base) =
        unat (snrt_align_up addr sz base) - b"
      using b(1) assms(2) lt by simp
    ultimately have "unat sz \<le> unat (snrt_align_up addr sz base) - b"
      using lt by (auto intro: dvd_imp_le)
    with r(2) b(1) lt show False by linarith
  qed
  with r show ?thesis by auto
qed

theorem align_up_least_witness:
  "unat (snrt_align_up 0x1000000D 8 0x10000001) = 0x10000011 \<and>
   unat (0x1000000D :: u32) \<le> unat (snrt_align_up 0x1000000D 8 0x10000001)"
  using align_up_least [of 8 "0x10000001" "0x1000000D"] by (simp add: snrt_align_up_def)

text \<open>
  C27: a sequence of cluster-local L1 allocations that does not trap hands out blocks in
  increasing address order that do not overlap, every block aligned as requested, above the
  next pointer at the start and below the end of the heap.
\<close>

theorem l1_cluster_local_blocks:
  assumes "alloc_seq l1_local_req rs a = Some (ps, a')"
  shows "length ps = length rs \<and> blocks_ascending (\<lambda>r. unat (fst r)) (zip ps rs) \<and>
     (\<forall>(p, sz, al) \<in> set (zip ps rs).
        unat (a_next a) \<le> p \<and> p + unat sz \<le> unat (a_end a) \<and> unat al dvd p)"
proof -
  have al: "unat al dvd p" if "(p, sz, al) \<in> set (zip ps rs)" for p sz al
    using assms that
  proof (induction rs arbitrary: a ps)
    case (Cons r rs)
    obtain sz' al' where r: "r = (sz', al')" by (cases r)
    from Cons.prems(1) obtain q s1 qs where
      1: "l1_local_req (sz', al') a = Some (q, s1)" "alloc_seq l1_local_req rs s1 = Some (qs, a')"
         "ps = q # qs"
      by (auto simp: r split: option.splits)
    show ?case
      using Cons.IH [OF 1(2)] Cons.prems(2) l1_local_reqD(3) [OF 1(1)] by (auto simp: 1(3) r)
  qed simp
  show ?thesis
    using l1_local.alloc_seq_inv [OF TrueI assms] l1_local.alloc_seq_ascending [OF TrueI assms]
      l1_local.alloc_seq_in_range [OF TrueI assms] al
    by fastforce
qed

definition sample_heap :: snrt_allocator_t where
  "sample_heap = \<lparr>a_base = 0x10000000, a_end = 0x10000040, a_next = 0x10000000\<rparr>"

lemma sample_heap_seq:
  "alloc_seq l1_local_req [(5, 8), (16, 16)] sample_heap =
     Some ([0x10000000, 0x10000010], sample_heap\<lparr>a_next := 0x10000020\<rparr>)"
  by (simp add: sample_heap_def l1_local_req_def no_wrap_def snrt_l1_alloc_cluster_local_def
      snrt_align_up_def snrt_l1_next_v2_def snrt_l1_alloc_check_bounds_def Let_def)

theorem l1_cluster_local_blocks_witness:
  "blocks_ascending (\<lambda>r. unat (fst r)) (zip [0x10000000, 0x10000010] [(5 :: u32, 8 :: u32), (16, 16)])
   \<and> unat (a_end sample_heap) = 0x10000040"
  using l1_cluster_local_blocks [OF sample_heap_seq] by (simp add: sample_heap_def)


text \<open>
  two compute cores of a cluster that make the same core-local allocation from the same
  allocator state get the same new state, the pointer translation maps the pointer of the one
  to the pointer of the other, and their blocks do not overlap.
\<close>

theorem compute_core_local_blocks:
  assumes "cfg_wf c" "h \<in> harts c" "h' \<in> harts c" "snrt_is_compute_core c h" "snrt_is_compute_core c h'"
    "no_wrap al a" "unat (a_end a) < 2 ^ 32"
    "unat sz * unat (snrt_cluster_compute_core_num c) < 2 ^ 32"
    "snrt_l1_alloc_compute_core_local c h sz al a = Inr (p, a1)"
  shows "\<exists>p'. snrt_l1_alloc_compute_core_local c h' sz al a = Inr (p', a1) \<and>
     snrt_compute_core_local_ptr c h p (snrt_cluster_core_idx c h') sz = p' \<and>
     unat p + unat sz \<le> unat (a_next a1) \<and>
     (snrt_cluster_core_idx c h < snrt_cluster_core_idx c h' \<longrightarrow> unat p + unat sz \<le> unat p')"
proof -
  let ?q = "snrt_align_up (ucast (a_next a)) al 0"
  let ?M = "snrt_cluster_compute_core_num c"
  let ?p' = "?q + sz * snrt_cluster_core_idx c h'"
  have p: "p = ?q + sz * snrt_cluster_core_idx c h"
    and a1: "a1 = a\<lparr>a_next := ucast ?q + ucast (sz * ?M)\<rparr>" and le: "a_next a1 \<le> a_end a1"
    using assms(9) by (auto simp: snrt_l1_alloc_compute_core_local_def snrt_l1_next_v2_def
        snrt_l1_alloc_check_bounds_def Let_def split: if_splits)
  have h': "snrt_l1_alloc_compute_core_local c h' sz al a = Inr (?p', a1)"
    using le by (simp add: snrt_l1_alloc_compute_core_local_def snrt_l1_next_v2_def
        snrt_l1_alloc_check_bounds_def a1 Let_def not_less)
  have next1: "unat (a_next a1) = unat ?q + unat sz * unat ?M"
    using assms(8) by (simp add: a1 unat_next_plus unat_mult_exact)
  have fits: "unat ?q + unat sz * unat ?M < 4294967296"
    using le assms(7) next1 by (simp add: a1 word_le_nat_alt)
  have blk: "unat (?q + sz * i) = unat ?q + unat sz * unat i \<and>
      unat ?q + unat sz * (unat i + 1) \<le> unat ?q + unat sz * unat ?M" if "i < ?M" for i
  proof -
    have "unat sz * (unat i + 1) \<le> unat sz * unat ?M"
      using that by (intro mult_left_mono) (simp_all add: word_less_nat_alt)
    moreover from this fits have "unat (sz * i) = unat sz * unat i"
      by (intro unat_mult_exact) simp
    ultimately show ?thesis
      using fits by (subst unat_add_exact) simp_all
  qed
  have i: "snrt_cluster_core_idx c h < ?M" "snrt_cluster_core_idx c h' < ?M"
    using assms(4,5) by (simp_all add: snrt_is_compute_core_def)
  have "unat p + unat sz \<le> unat ?p'"
    if "snrt_cluster_core_idx c h < snrt_cluster_core_idx c h'"
  proof -
    have "unat sz * (unat (snrt_cluster_core_idx c h) + 1) \<le> unat sz * unat (snrt_cluster_core_idx c h')"
      using that by (intro mult_left_mono) (simp_all add: word_less_nat_alt)
    then show ?thesis using blk [OF i(1)] blk [OF i(2)] by (simp add: p)
  qed
  then show ?thesis
    using h' blk [OF i(1)] by (simp add: p next1 snrt_compute_core_local_ptr_def Let_def algebra_simps)
qed

theorem compute_core_local_blocks_witness:
  "snrt_l1_alloc_compute_core_local sample_cfg 3 8 8 (sample_heap\<lparr>a_end := 0x10000080\<rparr>) =
     Inr (0x10000018, sample_heap\<lparr>a_end := 0x10000080, a_next := 0x10000040\<rparr>) \<and>
   snrt_compute_core_local_ptr sample_cfg 3 0x10000018 (snrt_cluster_core_idx sample_cfg 5) 8 = 0x10000028 \<and>
   (\<exists>p'. snrt_l1_alloc_compute_core_local sample_cfg 5 8 8 (sample_heap\<lparr>a_end := 0x10000080\<rparr>) =
      Inr (p', sample_heap\<lparr>a_end := 0x10000080, a_next := 0x10000040\<rparr>))"
proof -
  have 3: "snrt_l1_alloc_compute_core_local sample_cfg 3 8 8 (sample_heap\<lparr>a_end := 0x10000080\<rparr>) =
     Inr (0x10000018, sample_heap\<lparr>a_end := 0x10000080, a_next := 0x10000040\<rparr>)"
    by (simp add: snrt_l1_alloc_compute_core_local_def snrt_align_up_def snrt_l1_next_v2_def
        snrt_l1_alloc_check_bounds_def Let_def sample_heap_def sample_cfg_def team_defs)
  show ?thesis
    using compute_core_local_blocks [OF cfg_wf_sample _ _ _ _ _ _ _ 3, of 5] 3
    by (simp add: harts_def team_defs sample_cfg_def no_wrap_def sample_heap_def
        snrt_compute_core_local_ptr_def)
qed

text \<open>
  C29: the end of the L1 heap lies below the stacks of all cores of the cluster exactly when the
  cluster has at most sixteen cores: the margin of 128 bytes that \<open>snrt_l1_init\<close> leaves is what
  the 8-byte shift of one stack against the next uses up.
\<close>


theorem heap_below_stacks_iff:
  assumes "cfg_wf c" "h \<in> harts c" "stacks_fit c ld h" "SNRT_LOG2_STACK_SIZE c < 32"
  shows "(\<forall>h' \<in> harts c. snrt_cluster_idx c h' = snrt_cluster_idx c h \<longrightarrow>
            unat (a_end (snrt_l1_init c ld h tcdm a)) + 2 ^ SNRT_LOG2_STACK_SIZE c
              \<le> unat (stack_start c ld h'))
     \<longleftrightarrow> unat (snrt_cluster_core_num c) \<le> 16"
proof -
  let ?N = "unat (SNRT_CLUSTER_CORE_NUM c)" and ?S = "2 ^ SNRT_LOG2_STACK_SIZE c :: nat"
  let ?e = "unat (a_end (snrt_l1_init c ld h tcdm a))"
  have ss: "?e + ?S \<le> unat (stack_start c ld h') \<longleftrightarrow>
      ?S + 8 * Suc (unat (snrt_cluster_core_idx c h')) + ?S * unat (snrt_cluster_core_idx c h') \<le> 128 + ?S * ?N"
    if "h' \<in> harts c" "snrt_cluster_idx c h' = snrt_cluster_idx c h" for h'
    using unat_stack_start [OF assms(1,2) that(1) assms(3) that(2) assms(4)]
      unat_heap_end [OF assms(3,4), of tcdm a]
    by (auto simp: algebra_simps)
  have cl: "unat (snrt_cluster_idx c h) < unat (SNRT_CLUSTER_NUM c)" and N0: "0 < ?N"
    using idx_bounds [OF assms(1,2)] by simp_all
  let ?l = "hart_of c (unat (snrt_cluster_idx c h)) (?N - 1)"
  have l: "?l \<in> harts c" "snrt_cluster_idx c ?l = snrt_cluster_idx c h"
    "unat (snrt_cluster_core_idx c ?l) = ?N - 1"
    using unat_hart_of(2) [OF assms(1) cl] hart_of_idx [OF assms(1) cl, of "?N - 1"] N0
    by (simp_all add: word_unat_eq_iff)
  have "S + 8 * Suc (N - 1) + S * (N - 1) \<le> 128 + S * N \<longleftrightarrow> N \<le> 16" if "0 < N" for S N :: nat
    using that by (cases N) auto
  then have "?e + ?S \<le> unat (stack_start c ld ?l) \<longleftrightarrow> ?N \<le> 16"
    using N0 unfolding ss [OF l(1,2)] l(3) by blast
  moreover have "?e + ?S \<le> unat (stack_start c ld h')"
    if "h' \<in> harts c" "snrt_cluster_idx c h' = snrt_cluster_idx c h" "?N \<le> 16" for h'
  proof -
    let ?i = "unat (snrt_cluster_core_idx c h')"
    have i: "?i < ?N" by (rule idx_bounds(2) [OF assms(1) that(1)])
    then have "?S * Suc ?i \<le> ?S * ?N" by (intro mult_left_mono) simp_all
    then show ?thesis unfolding ss [OF that(1,2)] using i that(3) by simp
  qed
  ultimately show ?thesis using l by (auto simp: snrt_cluster_core_num_def)
qed

definition sample_ld :: ld_syms where
  "sample_ld = \<lparr>cdata_start = 0x80010000, cdata_end = 0x80010040, cbss_start = 0x80010040,
     cbss_end = 0x80010100, tdata_start = 0x80010200, tdata_end = 0x80010210,
     tbss_start = 0x80010210, tbss_end = 0x80010240, bss_start = 0x80010300,
     bss_end = 0x80010400, edram = 0x80020000\<rparr>"

theorem heap_below_stacks_iff_witness:
  "unat (a_end (snrt_l1_init sample_cfg sample_ld 4 0x10000000 sample_heap)) + 1024
     \<le> unat (stack_start sample_cfg sample_ld 8)"
proof -
  have f: "stacks_fit sample_cfg sample_ld 4" "(4 :: u32) \<in> harts sample_cfg"
    "SNRT_LOG2_STACK_SIZE sample_cfg < 32"
    by (simp_all add: stacks_fit_def tcdm_top_def cls_size_def sample_cfg_def sample_ld_def
        team_defs harts_def)
  have "(8 :: u32) \<in> harts sample_cfg" "snrt_cluster_idx sample_cfg 8 = snrt_cluster_idx sample_cfg 4"
    "unat (snrt_cluster_core_num sample_cfg) \<le> 16" "SNRT_LOG2_STACK_SIZE sample_cfg = 10"
    by (simp_all add: sample_cfg_def team_defs harts_def)
  then show ?thesis
    using heap_below_stacks_iff [OF cfg_wf_sample f(2,1,3), of "0x10000000" sample_heap] by auto
qed

end
