(* ===== verification/Dma.thy ===== *)
theory Dma
  imports Team "HOL-Library.Sublist"
begin

text \<open>
  The DMA: the Xdma instructions as \<open>docs/rm/hw/custom_instructions.md\<close> documents them and the
  functions of \<open>sw/runtime/src/dma.h\<close>. The state holds the address, stride, repetition and user
  registers of the data mover core, per channel the next transfer id, the last completed id
  and the queue of transfers in flight, and the memory. A transfer takes effect when the engine
  completes it; a channel completes its transfers in the order they were issued. What the
  interconnect does with the user field (multicast) and the depth of the transfer queue are
  system dependent, the parameters of \<open>dma_sys\<close>. A wait loop polls; between two polls the
  engine makes one step, and the sequence of these steps is an argument: running out of it is
  the result None.
\<close>

section \<open>State\<close>

record dma_xfer =
  x_src :: u64
  x_dst :: u64
  x_size :: u32
  x_sstr :: u64
  x_dstr :: u64
  x_rows :: nat
  x_user :: u64

record dma_state =
  dm_src :: u64
  dm_dst :: u64
  dm_sstr :: u64
  dm_dstr :: u64
  dm_reps :: u32
  dm_user :: u64
  dm_next_id :: "u32 \<Rightarrow> u32"
  dm_completed_id :: "u32 \<Rightarrow> u32"
  dm_pending :: "u32 \<Rightarrow> dma_xfer list"
  dm_mem :: mem

text \<open>
  \<open>mcast_hits u a b\<close>: a write to address \<open>a\<close> with user field \<open>u\<close> reaches address \<open>b\<close>;
  \<open>queue_depth\<close>: the number of transfers a channel holds before the next one blocks.
\<close>

record dma_sys =
  mcast_hits :: "u64 \<Rightarrow> u64 \<Rightarrow> u64 \<Rightarrow> bool"
  queue_depth :: nat

section \<open>Instructions\<close>

definition cat64 :: "u32 \<Rightarrow> u32 \<Rightarrow> u64" where
  "cat64 lo hi = push_bit 32 (ucast hi) OR ucast lo"

definition dmsrc :: "u32 \<Rightarrow> u32 \<Rightarrow> dma_state \<Rightarrow> dma_state" where
  "dmsrc lo hi s = s\<lparr>dm_src := cat64 lo hi\<rparr>"

definition dmdst :: "u32 \<Rightarrow> u32 \<Rightarrow> dma_state \<Rightarrow> dma_state" where
  "dmdst lo hi s = s\<lparr>dm_dst := cat64 lo hi\<rparr>"

definition dmstr :: "u32 \<Rightarrow> u32 \<Rightarrow> dma_state \<Rightarrow> dma_state" where
  "dmstr srcstrd dststrd s = s\<lparr>dm_sstr := scast srcstrd, dm_dstr := scast dststrd\<rparr>"

definition dmrep :: "u32 \<Rightarrow> dma_state \<Rightarrow> dma_state" where
  "dmrep reps s = s\<lparr>dm_reps := reps\<rparr>"

definition dmuser :: "u32 \<Rightarrow> u32 \<Rightarrow> dma_state \<Rightarrow> dma_state" where
  "dmuser lo hi s = s\<lparr>dm_user := cat64 lo hi\<rparr>"

text \<open>The \<open>config\<close> and \<open>status\<close> immediates: bit 1 enables 2D, bits 4 to 2 select the channel.\<close>

definition channel_sel :: "u32 \<Rightarrow> u32" where
  "channel_sel cfg = drop_bit 2 cfg AND 7"

definition dmcpyi :: "u32 \<Rightarrow> u32 \<Rightarrow> dma_state \<Rightarrow> u32 \<times> dma_state" where
  "dmcpyi sz cfg s =
     (let ch = channel_sel cfg;
          x = \<lparr>x_src = dm_src s, x_dst = dm_dst s, x_size = sz, x_sstr = dm_sstr s,
               x_dstr = dm_dstr s, x_rows = (if bit cfg 1 then unat (dm_reps s) else 1),
               x_user = dm_user s\<rparr>;
          txid = dm_next_id s ch
      in (txid, s\<lparr>dm_next_id := (dm_next_id s)(ch := txid + 1),
                  dm_pending := (dm_pending s)(ch := dm_pending s ch @ [x])\<rparr>))"

definition dmstati :: "dma_sys \<Rightarrow> u32 \<Rightarrow> dma_state \<Rightarrow> u32" where
  "dmstati sys st s =
     (let ch = channel_sel st; sel = st AND 3 in
      if sel = 0 then dm_completed_id s ch
      else if sel = 1 then dm_next_id s ch
      else if sel = 2 then (if dm_pending s ch = [] then 0 else 1)
      else (if queue_depth sys \<le> length (dm_pending s ch) then 1 else 0))"

section \<open>The engine\<close>

text \<open>
  One inner transfer of \<open>n\<close> consecutive bytes: address \<open>b\<close> receives byte \<open>i\<close> of the source when
  the write to byte \<open>i\<close> of the destination reaches \<open>b\<close>, the last such byte. Rows follow each other, the strides
  added to the pointers after each.
\<close>

definition dma_row :: "dma_sys \<Rightarrow> u64 \<Rightarrow> u64 \<Rightarrow> u64 \<Rightarrow> nat \<Rightarrow> mem \<Rightarrow> mem" where
  "dma_row sys u dst src n m =
     (\<lambda>b. case find (\<lambda>i. mcast_hits sys u (dst + of_nat i) b) (rev [0..<n]) of
            None \<Rightarrow> m b
          | Some i \<Rightarrow> m (src + of_nat i))"

definition dma_exec :: "dma_sys \<Rightarrow> dma_xfer \<Rightarrow> mem \<Rightarrow> mem" where
  "dma_exec sys x m =
     fold (\<lambda>r. dma_row sys (x_user x) (x_dst x + of_nat r * x_dstr x)
                 (x_src x + of_nat r * x_sstr x) (unat (x_size x))) [0..<x_rows x] m"

text \<open>The engine completes the oldest transfer of a channel, or does nothing on an idle one.\<close>

definition dma_event :: "dma_sys \<Rightarrow> u32 \<Rightarrow> dma_state \<Rightarrow> dma_state" where
  "dma_event sys ch s =
     (case dm_pending s ch of
        [] \<Rightarrow> s
      | x # xs \<Rightarrow> s\<lparr>dm_mem := dma_exec sys x (dm_mem s),
                    dm_completed_id := (dm_completed_id s)(ch := dm_completed_id s ch + 1),
                    dm_pending := (dm_pending s)(ch := xs)\<rparr>)"

section \<open>Starting transfers (dma.h)\<close>

definition lo32 :: "u64 \<Rightarrow> u32" where
  "lo32 a = ucast (a AND 0xFFFFFFFF)"

definition hi32 :: "u64 \<Rightarrow> u32" where
  "hi32 a = ucast (drop_bit 32 a)"

definition snrt_dma_start_1d :: "u64 \<Rightarrow> u64 \<Rightarrow> u32 \<Rightarrow> u32 \<Rightarrow> dma_state \<Rightarrow> u32 \<times> dma_state" where
  "snrt_dma_start_1d dst src sz channel s =
     (let s = dmsrc (lo32 src) (hi32 src) s;
          s = dmdst (lo32 dst) (hi32 dst) s
      in dmcpyi sz (push_bit 2 channel OR 0) s)"

definition snrt_dma_start_1d_ptr :: "u32 \<Rightarrow> u32 \<Rightarrow> u32 \<Rightarrow> u32 \<Rightarrow> dma_state \<Rightarrow> u32 \<times> dma_state" where
  "snrt_dma_start_1d_ptr dst src sz channel = snrt_dma_start_1d (ucast dst) (ucast src) sz channel"

definition snrt_dma_enable_mcast :: "u32 \<Rightarrow> dma_state \<Rightarrow> dma_state" where
  "snrt_dma_enable_mcast msk = dmuser msk 0"

definition snrt_dma_disable_mcast :: "dma_state \<Rightarrow> dma_state" where
  "snrt_dma_disable_mcast = dmuser 0 0"

definition snrt_dma_start_1d_mcast ::
  "u64 \<Rightarrow> u64 \<Rightarrow> u32 \<Rightarrow> u32 \<Rightarrow> u32 \<Rightarrow> dma_state \<Rightarrow> u32 \<times> dma_state" where
  "snrt_dma_start_1d_mcast dst src sz msk channel s =
     (let s = snrt_dma_enable_mcast msk s;
          (txid, s) = snrt_dma_start_1d dst src sz channel s
      in (txid, snrt_dma_disable_mcast s))"

definition snrt_dma_start_1d_mcast_ptr ::
  "u32 \<Rightarrow> u32 \<Rightarrow> u32 \<Rightarrow> u32 \<Rightarrow> u32 \<Rightarrow> dma_state \<Rightarrow> u32 \<times> dma_state" where
  "snrt_dma_start_1d_mcast_ptr dst src sz msk channel =
     snrt_dma_start_1d_mcast (ucast dst) (ucast src) sz msk channel"

definition snrt_dma_start_2d ::
  "u64 \<Rightarrow> u64 \<Rightarrow> u32 \<Rightarrow> u32 \<Rightarrow> u32 \<Rightarrow> u32 \<Rightarrow> u32 \<Rightarrow> dma_state \<Rightarrow> u32 \<times> dma_state" where
  "snrt_dma_start_2d dst src sz dst_stride src_stride repeat channel s =
     (let s = dmsrc (lo32 src) (hi32 src) s;
          s = dmdst (lo32 dst) (hi32 dst) s;
          s = dmstr src_stride dst_stride s;
          s = dmrep repeat s
      in dmcpyi sz (push_bit 2 channel OR 2) s)"

definition snrt_dma_start_2d_ptr ::
  "u32 \<Rightarrow> u32 \<Rightarrow> u32 \<Rightarrow> u32 \<Rightarrow> u32 \<Rightarrow> u32 \<Rightarrow> u32 \<Rightarrow> dma_state \<Rightarrow> u32 \<times> dma_state" where
  "snrt_dma_start_2d_ptr dst src sz dst_stride src_stride repeat channel =
     snrt_dma_start_2d (ucast dst) (ucast src) sz dst_stride src_stride repeat channel"

definition snrt_dma_start_2d_mcast ::
  "u64 \<Rightarrow> u64 \<Rightarrow> u32 \<Rightarrow> u32 \<Rightarrow> u32 \<Rightarrow> u32 \<Rightarrow> u32 \<Rightarrow> u32 \<Rightarrow> dma_state \<Rightarrow> u32 \<times> dma_state" where
  "snrt_dma_start_2d_mcast dst src sz dst_stride src_stride repeat msk channel s =
     (let s = snrt_dma_enable_mcast msk s;
          (txid, s) = snrt_dma_start_2d dst src sz dst_stride src_stride repeat channel s
      in (txid, snrt_dma_disable_mcast s))"

definition snrt_dma_start_2d_mcast_ptr ::
  "u32 \<Rightarrow> u32 \<Rightarrow> u32 \<Rightarrow> u32 \<Rightarrow> u32 \<Rightarrow> u32 \<Rightarrow> u32 \<Rightarrow> u32 \<Rightarrow> dma_state \<Rightarrow> u32 \<times> dma_state" where
  "snrt_dma_start_2d_mcast_ptr dst src sz dst_stride src_stride repeat msk channel =
     snrt_dma_start_2d_mcast (ucast dst) (ucast src) sz dst_stride src_stride repeat msk channel"

section \<open>Waiting\<close>


fun snrt_dma_wait_all ::
  "dma_sys \<Rightarrow> u32 \<Rightarrow> u32 list \<Rightarrow> dma_state \<Rightarrow> (u32 list \<times> dma_state) option" where
  "snrt_dma_wait_all sys channel evs s =
     (let busy = dmstati sys (push_bit 2 channel OR 2) s in
      if busy \<noteq> 0 then
        (case evs of
           [] \<Rightarrow> None
         | e # evs' \<Rightarrow> snrt_dma_wait_all sys channel evs' (dma_event sys e s))
      else Some (evs, s))"


text \<open>The loop over the channels, with \<open>n\<close> iterations left.\<close>

fun wait_channels ::
  "dma_sys \<Rightarrow> nat \<Rightarrow> u32 \<Rightarrow> u32 list \<Rightarrow> dma_state \<Rightarrow> (u32 list \<times> dma_state) option" where
  "wait_channels sys 0 c evs s = Some (evs, s)"
| "wait_channels sys (Suc n) c evs s =
     (case snrt_dma_wait_all sys c evs s of
        None \<Rightarrow> None
      | Some (evs', s') \<Rightarrow> wait_channels sys n (c + 1) evs' s')"

definition snrt_dma_wait_all_channels ::
  "dma_sys \<Rightarrow> u32 \<Rightarrow> u32 list \<Rightarrow> dma_state \<Rightarrow> (u32 list \<times> dma_state) option" where
  "snrt_dma_wait_all_channels sys num_channels = wait_channels sys (unat num_channels) 0"

text \<open>The tracking markers read the status and drop it.\<close>

definition snrt_dma_start_tracking :: "dma_state \<Rightarrow> dma_state" where
  "snrt_dma_start_tracking s = s"

definition snrt_dma_stop_tracking :: "dma_state \<Rightarrow> dma_state" where
  "snrt_dma_stop_tracking s = s"

section \<open>Memset\<close>

fun set_bytes :: "u32 \<Rightarrow> u8 \<Rightarrow> nat \<Rightarrow> mem \<Rightarrow> mem" where
  "set_bytes p v 0 m = m"
| "set_bytes p v (Suc n) m = set_bytes (p + 1) v n (m(ucast p := v))"

definition snrt_dma_memset ::
  "dma_sys \<Rightarrow> u32 \<Rightarrow> u8 \<Rightarrow> u32 \<Rightarrow> u32 list \<Rightarrow> dma_state \<Rightarrow> (u32 list \<times> dma_state) option" where
  "snrt_dma_memset sys ptr v len evs s =
     (let n_1d_transfers = len div 64;
          use_dma = (len mod 64 = 0 \<and> len > 64);
          nbytes = (if len < 64 \<or> \<not> use_dma then len else 64);
          s = s\<lparr>dm_mem := set_bytes ptr v (unat nbytes) (dm_mem s)\<rparr>
      in if use_dma then
           (let (txid, s) = snrt_dma_start_2d_ptr ptr ptr 64 64 0 n_1d_transfers 0 s
            in snrt_dma_wait_all sys 0 evs s)
         else Some (evs, s))"

section \<open>Tiles\<close>

definition snrt_dma_load_1d_tile ::
  "u32 \<Rightarrow> u32 \<Rightarrow> u32 \<Rightarrow> u32 \<Rightarrow> u32 \<Rightarrow> dma_state \<Rightarrow> u32 \<times> dma_state" where
  "snrt_dma_load_1d_tile dst src tile_idx tile_size prec =
     (let tile_nbytes = tile_size * prec
      in snrt_dma_start_1d (ucast dst) (ucast src + ucast (tile_idx * tile_nbytes)) tile_nbytes 0)"

definition snrt_dma_load_1d_tile_mcast ::
  "u32 \<Rightarrow> u32 \<Rightarrow> u32 \<Rightarrow> u32 \<Rightarrow> u32 \<Rightarrow> u32 \<Rightarrow> dma_state \<Rightarrow> u32 \<times> dma_state" where
  "snrt_dma_load_1d_tile_mcast dst src tile_idx tile_size prec mcast =
     (let tile_nbytes = tile_size * prec
      in snrt_dma_start_1d_mcast (ucast dst) (ucast (src + tile_idx * tile_nbytes)) tile_nbytes
           mcast 0)"

definition snrt_dma_1d_to_2d ::
  "u32 \<Rightarrow> u32 \<Rightarrow> u32 \<Rightarrow> u32 \<Rightarrow> u32 \<Rightarrow> dma_state \<Rightarrow> u32 \<times> dma_state" where
  "snrt_dma_1d_to_2d dst src sz row_size stride =
     snrt_dma_start_2d_ptr dst src row_size stride row_size (sz div row_size) 0"

definition snrt_dma_2d_to_1d ::
  "u32 \<Rightarrow> u32 \<Rightarrow> u32 \<Rightarrow> u32 \<Rightarrow> u32 \<Rightarrow> dma_state \<Rightarrow> u32 \<times> dma_state" where
  "snrt_dma_2d_to_1d dst src sz row_size stride =
     snrt_dma_start_2d_ptr dst src row_size row_size stride (sz div row_size) 0"

definition snrt_dma_store_1d_tile ::
  "u32 \<Rightarrow> u32 \<Rightarrow> u32 \<Rightarrow> u32 \<Rightarrow> u32 \<Rightarrow> dma_state \<Rightarrow> u32 \<times> dma_state" where
  "snrt_dma_store_1d_tile dst src tile_idx tile_size prec =
     (let tile_nbytes = tile_size * prec
      in snrt_dma_start_1d (ucast dst + ucast (tile_idx * tile_nbytes)) (ucast src) tile_nbytes 0)"

definition snrt_dma_load_2d_tile ::
  "u32 \<Rightarrow> u32 \<Rightarrow> u32 \<Rightarrow> u32 \<Rightarrow> u32 \<Rightarrow> u32 \<Rightarrow> u32 \<Rightarrow> u32 \<Rightarrow> u32 \<Rightarrow> dma_state \<Rightarrow> u32 \<times> dma_state" where
  "snrt_dma_load_2d_tile dst src tile_x1_idx tile_x0_idx tile_x1_size tile_x0_size full_x0_size
       prec tile_ld =
     (let src_offset = 0;
          src_offset = src_offset + tile_x0_idx * tile_x0_size;
          src_offset = src_offset + tile_x1_idx * tile_x1_size * full_x0_size;
          src_offset = src_offset * prec
      in snrt_dma_start_2d (ucast dst) (ucast src + ucast (src_offset :: u32))
           (tile_x0_size * prec) tile_ld (full_x0_size * prec) tile_x1_size 0)"

definition snrt_dma_load_2d_tile_packed ::
  "u32 \<Rightarrow> u32 \<Rightarrow> u32 \<Rightarrow> u32 \<Rightarrow> u32 \<Rightarrow> u32 \<Rightarrow> u32 \<Rightarrow> u32 \<Rightarrow> dma_state \<Rightarrow> u32 \<times> dma_state" where
  "snrt_dma_load_2d_tile_packed dst src tile_x1_idx tile_x0_idx tile_x1_size tile_x0_size
       full_x0_size prec =
     snrt_dma_load_2d_tile dst src tile_x1_idx tile_x0_idx tile_x1_size tile_x0_size full_x0_size
       prec (tile_x0_size * prec)"

definition snrt_dma_load_2d_tile_mcast ::
  "u32 \<Rightarrow> u32 \<Rightarrow> u32 \<Rightarrow> u32 \<Rightarrow> u32 \<Rightarrow> u32 \<Rightarrow> u32 \<Rightarrow> u32 \<Rightarrow> u32 \<Rightarrow> u32 \<Rightarrow> dma_state \<Rightarrow>
     u32 \<times> dma_state" where
  "snrt_dma_load_2d_tile_mcast dst src tile_x1_idx tile_x0_idx tile_x1_size tile_x0_size
       full_x0_size prec tile_ld msk =
     (let src_offset = 0;
          src_offset = src_offset + tile_x0_idx * tile_x0_size;
          src_offset = src_offset + tile_x1_idx * tile_x1_size * full_x0_size;
          src_offset = src_offset * prec
      in snrt_dma_start_2d_mcast (ucast dst) (ucast src + ucast (src_offset :: u32))
           (tile_x0_size * prec) tile_ld (full_x0_size * prec) tile_x1_size msk 0)"

definition snrt_dma_load_2d_tile_mcast_packed ::
  "u32 \<Rightarrow> u32 \<Rightarrow> u32 \<Rightarrow> u32 \<Rightarrow> u32 \<Rightarrow> u32 \<Rightarrow> u32 \<Rightarrow> u32 \<Rightarrow> u32 \<Rightarrow> dma_state \<Rightarrow> u32 \<times> dma_state" where
  "snrt_dma_load_2d_tile_mcast_packed dst src tile_x1_idx tile_x0_idx tile_x1_size tile_x0_size
       full_x0_size prec msk =
     snrt_dma_load_2d_tile_mcast dst src tile_x1_idx tile_x0_idx tile_x1_size tile_x0_size
       full_x0_size prec (tile_x0_size * prec) msk"

text \<open>
  \<open>ceil\<close> of the quotient of two 32-bit numbers in double precision: a quotient that is no
  integer is farther from every integer than the rounding error, so the result is the exact
  ceiling. The divisor is not zero.
\<close>

definition ceil_div :: "u32 \<Rightarrow> u32 \<Rightarrow> u32" where
  "ceil_div a b = of_nat ((unat a + unat b - 1) div unat b)"

definition snrt_dma_load_2d_tile_in_banks ::
  "snrt_cfg \<Rightarrow> u32 \<Rightarrow> u32 \<Rightarrow> u32 \<Rightarrow> u32 \<Rightarrow> u32 \<Rightarrow> u32 \<Rightarrow> u32 \<Rightarrow> u32 \<Rightarrow> u32 \<Rightarrow> dma_state \<Rightarrow>
     u32 \<times> dma_state" where
  "snrt_dma_load_2d_tile_in_banks c dst src tile_x1_idx tile_x0_idx tile_x1_size tile_x0_size
       full_x0_size prec num_banks =
     (let tile_x0_size_in_banks = (num_banks * SNRT_TCDM_BANK_WIDTH c) div prec;
          tile_x1_size_in_banks = ceil_div (tile_x1_size * tile_x0_size) tile_x0_size_in_banks;
          tile_ld = SNRT_TCDM_HYPERBANK_WIDTH c
      in snrt_dma_load_2d_tile dst src tile_x1_idx tile_x0_idx tile_x1_size_in_banks
           tile_x0_size_in_banks full_x0_size prec tile_ld)"

definition snrt_dma_store_2d_tile ::
  "u32 \<Rightarrow> u32 \<Rightarrow> u32 \<Rightarrow> u32 \<Rightarrow> u32 \<Rightarrow> u32 \<Rightarrow> u32 \<Rightarrow> u32 \<Rightarrow> u32 \<Rightarrow> dma_state \<Rightarrow> u32 \<times> dma_state" where
  "snrt_dma_store_2d_tile dst src tile_x1_idx tile_x0_idx tile_x1_size tile_x0_size full_x0_size
       prec tile_ld =
     (let dst_offset = 0;
          dst_offset = dst_offset + tile_x0_idx * tile_x0_size;
          dst_offset = dst_offset + tile_x1_idx * tile_x1_size * full_x0_size;
          dst_offset = dst_offset * prec
      in snrt_dma_start_2d (ucast dst + ucast (dst_offset :: u32)) (ucast src)
           (tile_x0_size * prec) (full_x0_size * prec) tile_ld tile_x1_size 0)"

definition snrt_dma_store_2d_tile_packed ::
  "u32 \<Rightarrow> u32 \<Rightarrow> u32 \<Rightarrow> u32 \<Rightarrow> u32 \<Rightarrow> u32 \<Rightarrow> u32 \<Rightarrow> u32 \<Rightarrow> dma_state \<Rightarrow> u32 \<times> dma_state" where
  "snrt_dma_store_2d_tile_packed dst src tile_x1_idx tile_x0_idx tile_x1_size tile_x0_size
       full_x0_size prec =
     snrt_dma_store_2d_tile dst src tile_x1_idx tile_x0_idx tile_x1_size tile_x0_size full_x0_size
       prec (tile_x0_size * prec)"

definition snrt_dma_store_2d_tile_from_banks ::
  "snrt_cfg \<Rightarrow> u32 \<Rightarrow> u32 \<Rightarrow> u32 \<Rightarrow> u32 \<Rightarrow> u32 \<Rightarrow> u32 \<Rightarrow> u32 \<Rightarrow> u32 \<Rightarrow> u32 \<Rightarrow> dma_state \<Rightarrow>
     u32 \<times> dma_state" where
  "snrt_dma_store_2d_tile_from_banks c dst src tile_x1_idx tile_x0_idx tile_x1_size tile_x0_size
       full_x0_size prec num_banks =
     (let tile_x0_size_in_banks = (num_banks * SNRT_TCDM_BANK_WIDTH c) div prec;
          tile_x1_size_in_banks = ceil_div (tile_x1_size * tile_x0_size) tile_x0_size_in_banks;
          tile_ld = SNRT_TCDM_HYPERBANK_WIDTH c
      in snrt_dma_store_2d_tile dst src tile_x1_idx tile_x0_idx tile_x1_size_in_banks
           tile_x0_size_in_banks full_x0_size prec tile_ld)"

section \<open>Lemmas on the instructions\<close>

named_theorems dma_simps \<open>unfolding of the DMA instructions and start routines\<close>

lemma lo32_eq: "lo32 a = ucast a"
proof -
  have "(0xFFFFFFFF :: u64) = mask 32" by (simp add: mask_eq_exp_minus_1)
  then show ?thesis
    unfolding lo32_def by (simp only: take_bit_eq_mask [symmetric])
      (rule bit_word_eqI, simp add: bit_simps)
qed

lemma cat64_lo_hi [simp]: "cat64 (lo32 a) (hi32 a) = a"
  by (rule bit_word_eqI) (auto simp: cat64_def lo32_eq hi32_def bit_simps)

lemma cat64_0 [simp]: "cat64 m 0 = ucast m" by (simp add: cat64_def)

lemma channel_sel_or:
  assumes "unat ch < 8" "k = 0 \<or> k = 1 \<or> k = 2 \<or> k = 3"
  shows "channel_sel (push_bit 2 ch OR k) = ch" "(push_bit 2 ch OR k) AND 3 = k"
proof -
  have "ch < 8" using assms(1) by (simp add: word_less_nat_alt)
  then have "ch \<in> {0, 1, 2, 3, 4, 5, 6, 7}"
    using word_less_nat_alt [of ch 8] assms(1)
    by (auto simp: word_unat_eq_iff)
  then show "channel_sel (push_bit 2 ch OR k) = ch" "(push_bit 2 ch OR k) AND 3 = k"
    using assms(2) by (auto simp: channel_sel_def)
qed

lemma cfg_1d_2d:
  "\<not> bit (push_bit 2 (ch :: u32) OR 0) 1" "bit (push_bit 2 (ch :: u32) OR 2) 1"
  by (simp_all add: bit_simps)

text \<open>A start routine queues one transfer behind those of its channel.\<close>

definition queue_xfer :: "u32 \<Rightarrow> dma_xfer \<Rightarrow> dma_state \<Rightarrow> dma_state" where
  "queue_xfer ch x s =
     s\<lparr>dm_next_id := (dm_next_id s)(ch := dm_next_id s ch + 1),
       dm_pending := (dm_pending s)(ch := dm_pending s ch @ [x])\<rparr>"

lemma start_1d_queues [dma_simps]:
  assumes "unat ch < 8"
  shows "snrt_dma_start_1d dst src sz ch s =
    (dm_next_id s ch,
     queue_xfer ch \<lparr>x_src = src, x_dst = dst, x_size = sz, x_sstr = dm_sstr s, x_dstr = dm_dstr s,
                    x_rows = 1, x_user = dm_user s\<rparr> (s\<lparr>dm_src := src, dm_dst := dst\<rparr>))"
  using channel_sel_or(1) [OF assms, of 0] cfg_1d_2d(1) [of ch]
  by (simp add: snrt_dma_start_1d_def dmsrc_def dmdst_def dmcpyi_def queue_xfer_def Let_def)

lemma start_2d_queues [dma_simps]:
  assumes "unat ch < 8"
  shows "snrt_dma_start_2d dst src sz ds ss reps ch s =
    (dm_next_id s ch,
     queue_xfer ch \<lparr>x_src = src, x_dst = dst, x_size = sz, x_sstr = scast ss, x_dstr = scast ds,
                    x_rows = unat reps, x_user = dm_user s\<rparr>
       (s\<lparr>dm_src := src, dm_dst := dst, dm_sstr := scast ss, dm_dstr := scast ds, dm_reps := reps\<rparr>))"
  using channel_sel_or(1) [OF assms, of 2] cfg_1d_2d(2) [of ch]
  by (simp add: snrt_dma_start_2d_def dmsrc_def dmdst_def dmstr_def dmrep_def dmcpyi_def
      queue_xfer_def Let_def)

lemma queue_xfer_simps [simp]:
  "dm_mem (queue_xfer ch x s) = dm_mem s"
  "dm_pending (queue_xfer ch x s) = (dm_pending s)(ch := dm_pending s ch @ [x])"
  "dm_next_id (queue_xfer ch x s) = (dm_next_id s)(ch := dm_next_id s ch + 1)"
  "dm_completed_id (queue_xfer ch x s) = dm_completed_id s"
  "dm_user (queue_xfer ch x s) = dm_user s"
  by (simp_all add: queue_xfer_def)

lemma dmstati_simps [dma_simps]:
  assumes "unat ch < 8"
  shows "dmstati sys (push_bit 2 ch OR 0) s = dm_completed_id s ch"
    "dmstati sys (push_bit 2 ch) s = dm_completed_id s ch"
    "dmstati sys (push_bit 2 ch OR 2) s = (if dm_pending s ch = [] then 0 else 1)"
  using channel_sel_or [OF assms, of 0] channel_sel_or [OF assms, of 2]
  by (simp_all add: dmstati_def Let_def)

section \<open>Lemmas on the engine\<close>

text \<open>Without a user field a write reaches the address it is made to, and no other.\<close>

definition unicast :: "dma_sys \<Rightarrow> bool" where
  "unicast sys \<longleftrightarrow> (\<forall>a b. mcast_hits sys 0 a b \<longleftrightarrow> a = b)"

lemma find_offset:
  assumes "n \<le> 2 ^ 64"
  shows "find (\<lambda>i. (dst :: u64) + of_nat i = b) (rev [0..<n]) =
    (if unat (b - dst) < n then Some (unat (b - dst)) else None)"
proof -
  have eq: "dst + of_nat i = b \<longleftrightarrow> i = unat (b - dst)" if "i < n" for i
  proof
    assume "dst + of_nat i = b"
    then have "b - dst = of_nat i" by auto
    then show "i = unat (b - dst)" using that assms by (simp add: unat_of_nat_exact)
  qed simp
  show ?thesis
  proof (cases "unat (b - dst) < n")
    case True
    have "find (\<lambda>i. dst + of_nat i = b) (rev [0..<n]) \<noteq> None"
      using True eq by (auto simp: find_None_iff)
    then obtain i where i: "find (\<lambda>i. dst + of_nat i = b) (rev [0..<n]) = Some i" by auto
    then have "i < n" "dst + of_nat i = b"
      by (auto simp: find_Some_iff rev_nth)
    with eq i True show ?thesis by simp
  next
    case False
    then show ?thesis using eq by (auto simp: find_None_iff)
  qed
qed

lemma dma_row_unicast:
  assumes "unicast sys" "n \<le> 2 ^ 64"
  shows "dma_row sys 0 dst src n = copy_bytes dst src n"
  using assms(1) find_offset [OF assms(2), of dst]
  by (intro ext) (simp add: dma_row_def copy_bytes_def unicast_def)

text \<open>The bytes of rows \<open>a\<close> to \<open>R - 1\<close> of \<open>n\<close> bytes, \<open>D\<close> bytes apart.\<close>

definition in_rows :: "nat \<Rightarrow> nat \<Rightarrow> nat \<Rightarrow> nat \<Rightarrow> nat \<Rightarrow> bool" where
  "in_rows D n a R off \<longleftrightarrow> a \<le> off div D \<and> off div D < R \<and> off mod D < n"

lemma row_offset:
  assumes "n \<le> D" "0 < D" "R * D + n \<le> 2 ^ 64"
  shows "unat (b - (dst + of_nat (R * D)) :: u64) < n \<longleftrightarrow>
           unat (b - dst) div D = R \<and> unat (b - dst) mod D < n"
    and "unat (b - dst) div D = R \<Longrightarrow> unat (b - dst) mod D < n \<Longrightarrow>
           b - (dst + of_nat (R * D)) = of_nat (unat (b - dst) mod D)"
proof -
  let ?o = "unat (b - dst)"
  have d: "b - (dst + of_nat (R * D)) = (b - dst) - of_nat (R * D)" by (simp add: algebra_simps)
  have od: "?o = ?o div D * D + ?o mod D" by simp
  have ol: "?o < 18446744073709551616" by simp
  have RD: "R * D \<le> 18446744073709551616" using assms(3) by simp
  show eq: "b - (dst + of_nat (R * D)) = of_nat (?o mod D)"
    if "?o div D = R" "?o mod D < n"
  proof -
    have "?o = R * D + ?o mod D" using od that(1) by simp
    then have "of_nat ?o = (of_nat (R * D) + of_nat (?o mod D) :: u64)"
      by (metis of_nat_add)
    moreover have "of_nat ?o = b - dst" by simp
    ultimately have "b - dst = of_nat (R * D) + of_nat (?o mod D)" by simp
    then show ?thesis unfolding d by (metis add_diff_cancel_left')
  qed
  show "unat (b - (dst + of_nat (R * D))) < n \<longleftrightarrow> ?o div D = R \<and> ?o mod D < n"
  proof
    assume "?o div D = R \<and> ?o mod D < n"
    moreover from this have "?o mod D < 2 ^ 64" using assms(3) by linarith
    ultimately show "unat (b - (dst + of_nat (R * D))) < n"
      by (subst eq) (simp_all add: unat_of_nat_exact)
  next
    assume lt: "unat (b - (dst + of_nat (R * D))) < n"
    let ?i = "unat (b - (dst + of_nat (R * D)))"
    have "b - dst = of_nat (R * D) + of_nat ?i" unfolding d by simp
    then have "b - dst = of_nat (R * D + ?i)" by simp
    moreover have "R * D + ?i < 18446744073709551616" using lt assms(3) by simp
    ultimately have "?o = R * D + ?i" by (metis unat_of_nat_u64)
    then show "?o div D = R \<and> ?o mod D < n" using lt assms(1,2) by simp
  qed
qed

lemma copy_rows:
  assumes "n \<le> D" "0 < D" "R * D \<le> 2 ^ 64" "a \<le> R"
    and src: "\<And>r i. a \<le> r \<Longrightarrow> r < R \<Longrightarrow> i < n \<Longrightarrow>
      \<not> in_rows D n a R (unat (src + of_nat r * S + of_nat i - dst))"
  shows "fold (\<lambda>r. copy_bytes (dst + of_nat r * of_nat D) (src + of_nat r * S) n) [a..<R] m b =
    (if in_rows D n a R (unat (b - dst))
     then m (src + of_nat (unat (b - dst) div D) * S + of_nat (unat (b - dst) mod D)) else m b)"
  using assms(4) assms(3) src
proof (induction R arbitrary: b rule: dec_induct)
  case base
  have "\<not> in_rows D n a a x" for x by (auto simp: in_rows_def)
  then show ?case by simp
next
  case (step k)
  let ?f = "\<lambda>r. copy_bytes (dst + of_nat r * of_nat D) (src + of_nat r * S) n"
  let ?o = "unat (b - dst)"
  have kD: "k * D + n \<le> 2 ^ 64" "k * D \<le> 2 ^ 64" using step.prems(1) assms(1) by auto
  have mono: "in_rows D n a k x \<Longrightarrow> in_rows D n a (Suc k) x" for x by (simp add: in_rows_def)
  have IH: "fold ?f [a..<k] m x =
      (if in_rows D n a k (unat (x - dst))
       then m (src + of_nat (unat (x - dst) div D) * S + of_nat (unat (x - dst) mod D)) else m x)" for x
    using step.prems(2) mono by (intro step.IH [OF kD(2)]) (meson less_SucI)
  have "fold ?f [a..<Suc k] m b = ?f k (fold ?f [a..<k] m) b"
    using step.hyps by simp
  also have "\<dots> = (if ?o div D = k \<and> ?o mod D < n
      then fold ?f [a..<k] m (src + of_nat k * S + of_nat (?o mod D)) else fold ?f [a..<k] m b)"
    using row_offset [OF assms(1,2) kD(1), of b dst] by (auto simp: copy_bytes_def)
  also have "\<dots> = (if in_rows D n a (Suc k) ?o
      then m (src + of_nat (?o div D) * S + of_nat (?o mod D)) else m b)"
    using step.prems(2) [of k] step.hyps mono unfolding IH by (auto simp: in_rows_def)
  finally show ?case .
qed

lemma dma_exec_copy:
  assumes "unicast sys" "x_user x = 0"
  shows "dma_exec sys x m =
    fold (\<lambda>r. copy_bytes (x_dst x + of_nat r * x_dstr x) (x_src x + of_nat r * x_sstr x)
                (unat (x_size x))) [0..<x_rows x] m"
proof -
  have "unat (x_size x) < 4294967296" by simp
  then have "unat (x_size x) \<le> 2 ^ 64" by (simp del: unat_u32_bound)
  then show ?thesis
    unfolding dma_exec_def by (simp only: assms(2) dma_row_unicast [OF assms(1)])
qed

section \<open>Lemmas on waiting\<close>

text \<open>All channels but one are idle.\<close>

definition only_channel :: "u32 \<Rightarrow> dma_state \<Rightarrow> bool" where
  "only_channel ch s \<longleftrightarrow> (\<forall>c. c \<noteq> ch \<longrightarrow> dm_pending s c = [])"

lemma dma_event_idle: "dm_pending s e = [] \<Longrightarrow> dma_event sys e s = s"
  by (simp add: dma_event_def)

lemma dma_event_busy:
  assumes "dm_pending s ch = x # xs"
  shows "dm_mem (dma_event sys ch s) = dma_exec sys x (dm_mem s)"
    "dm_pending (dma_event sys ch s) = (dm_pending s)(ch := xs)"
    "dm_completed_id (dma_event sys ch s) = (dm_completed_id s)(ch := dm_completed_id s ch + 1)"
    "dm_next_id (dma_event sys ch s) = dm_next_id s" "dm_user (dma_event sys ch s) = dm_user s"
  using assms by (simp_all add: dma_event_def)

lemma only_channel_event: "only_channel ch s \<Longrightarrow> only_channel ch (dma_event sys e s)"
  by (cases "dm_pending s e") (auto simp: only_channel_def dma_event_idle dma_event_busy)

lemma wait_all_returns:
  assumes "unat ch < 8" "only_channel ch s" "length (dm_pending s ch) \<le> count_list evs ch"
  shows "\<exists>post s'. snrt_dma_wait_all sys ch evs s = Some (post, s') \<and> suffix post evs \<and>
    dm_mem s' = fold (dma_exec sys) (dm_pending s ch) (dm_mem s) \<and> (\<forall>c. dm_pending s' c = []) \<and>
    dm_next_id s' = dm_next_id s \<and> dm_user s' = dm_user s"
  using assms(2,3)
proof (induction evs arbitrary: s)
  case Nil
  then show ?case
    by (auto simp: snrt_dma_wait_all.simps [of sys ch "[]"] dmstati_simps [OF assms(1)] only_channel_def)
next
  case (Cons e evs)
  show ?case
  proof (cases "dm_pending s ch")
    case Nil
    with Cons.prems show ?thesis
      by (auto simp: snrt_dma_wait_all.simps [of sys ch "e # evs"] dmstati_simps [OF assms(1)]
          only_channel_def)
  next
    case (Cons x xs)
    let ?s = "dma_event sys e s"
    have step: "snrt_dma_wait_all sys ch (e # evs) s = snrt_dma_wait_all sys ch evs ?s"
      using Cons by (simp add: snrt_dma_wait_all.simps [of sys ch "e # evs"] dmstati_simps [OF assms(1)])
    have "length (dm_pending ?s ch) \<le> count_list evs ch \<and>
        fold (dma_exec sys) (dm_pending ?s ch) (dm_mem ?s) =
        fold (dma_exec sys) (dm_pending s ch) (dm_mem s) \<and> dm_next_id ?s = dm_next_id s \<and>
        dm_user ?s = dm_user s"
    proof (cases "e = ch")
      case True
      then show ?thesis using Cons Cons.prems by (simp add: dma_event_busy)
    next
      case False
      then have "?s = s" using Cons.prems(1) by (simp add: only_channel_def dma_event_idle)
      then show ?thesis using False Cons.prems by simp
    qed
    with Cons.IH [OF only_channel_event [OF Cons.prems(1)]] show ?thesis
      unfolding step by (metis suffix_ConsI)
  qed
qed


section \<open>Memory effect of memset and of the tile routines\<close>

lemma set_bytes_at:
  "unat p + n \<le> 2 ^ 32 \<Longrightarrow>
     set_bytes p v n m b = (if unat (b - ucast p) < n then v else m b)"
proof (induction n arbitrary: p m)
  case (Suc n)
  show ?case
  proof (cases "n = 0")
    case True
    have "b = ucast p \<longleftrightarrow> unat (b - ucast p) = 0" by (simp add: unat_eq_zero)
    then show ?thesis using True by simp
  next
    case False
    then have p1: "unat (p + 1) = unat p + 1"
      using Suc.prems by (subst unat_add_exact) simp_all
    have u1: "(ucast (p + 1) :: u64) = ucast p + 1"
      using False Suc.prems ucast_u32_u64_of_nat [of p 1] by simp
    have "set_bytes p v (Suc n) m b = (if unat (b - (ucast p + 1)) < n then v else (m(ucast p := v)) b)"
      using Suc.IH [of "p + 1"] Suc.prems by (simp add: p1 u1)
    also have "\<dots> = (if unat (b - ucast p) < Suc n then v else m b)"
    proof (cases "b = ucast p")
      case False
      then have "1 \<le> b - ucast p" by (simp add: word_le_nat_alt unat_gt_0 Suc_le_eq)
      moreover have "b - (ucast p + 1) = (b - ucast p) - 1" by (simp only: diff_diff_add)
      ultimately have "unat (b - (ucast p + 1)) = unat (b - ucast p) - 1"
        by (simp only: unat_sub) simp
      moreover have "0 < unat (b - ucast p)" using False by (simp add: unat_gt_0)
      ultimately show ?thesis using False by auto
    qed simp
    finally show ?thesis .
  qed
qed simp

lemma scast_small:
  assumes "unat (a :: u32) < 2147483648"
  shows "(scast a :: u64) = of_nat (unat a)"
proof -
  have "(scast a :: u64) = word_of_int (sint a)" by simp
  then show ?thesis by (simp only: sint_small [OF assms] of_int_of_nat_eq)
qed

text \<open>
  A 2D transfer whose rows do not overlap and whose source lies outside its destination: byte
  \<open>off\<close> of the destination region belongs to row \<open>off div D\<close>.
\<close>

lemma dma_exec_2d:
  assumes "unicast sys" "x_user x = 0" "x_dstr x = of_nat D"
    "unat (x_size x) \<le> D" "0 < D" "x_rows x * D \<le> 2 ^ 64"
    and "\<And>r i. r < x_rows x \<Longrightarrow> i < unat (x_size x) \<Longrightarrow>
      \<not> in_rows D (unat (x_size x)) 0 (x_rows x) (unat (x_src x + of_nat r * x_sstr x + of_nat i - x_dst x))"
  shows "dma_exec sys x m b =
    (if in_rows D (unat (x_size x)) 0 (x_rows x) (unat (b - x_dst x))
     then m (x_src x + of_nat (unat (b - x_dst x) div D) * x_sstr x + of_nat (unat (b - x_dst x) mod D))
     else m b)"
  unfolding dma_exec_copy [OF assms(1,2)] assms(3)
  by (rule copy_rows) (use assms in auto)

lemma memset_dma:
  assumes "unicast sys" "unat p + n * 64 \<le> 2 ^ 32" "1 < n"
  defines "x \<equiv> \<lparr>x_src = ucast p, x_dst = ucast p, x_size = 64, x_sstr = 0, x_dstr = of_nat 64,
                x_rows = n, x_user = 0\<rparr>"
  shows "dma_exec sys x (set_bytes p v 64 m) b = (if unat (b - ucast p) < n * 64 then v else m b)"
proof -
  let ?m = "set_bytes p v 64 m"
  let ?f = "\<lambda>r. copy_bytes (ucast p + of_nat r * of_nat 64) (ucast p + of_nat r * 0) 64"
  have m64: "?m y = (if unat (y - ucast p) < 64 then v else m y)" for y
    using assms(2,3) by (intro set_bytes_at) simp
  have u: "[0..<n] = 0 # [1..<n]" using assms(3) by (simp add: upt_conv_Cons)
  have "dma_exec sys x ?m b = fold ?f [1..<n] (?f 0 ?m) b"
    unfolding dma_exec_copy [OF assms(1), of x, unfolded x_def, simplified] x_def
    by (simp add: dma_exec_copy [OF assms(1)] u)
  also have "?f 0 ?m = ?m" by simp
  also have "fold ?f [1..<n] ?m b = (if in_rows 64 64 1 n (unat (b - ucast p))
     then ?m (ucast p + of_nat (unat (b - ucast p) div 64) * 0 + of_nat (unat (b - ucast p) mod 64)) else ?m b)"
    by (rule copy_rows) (use assms(2,3) in \<open>auto simp: in_rows_def unat_of_nat_u64\<close>)
  also have "\<dots> = (if unat (b - ucast p) < n * 64 then v else m b)"
  proof -
    have "unat (b - ucast p) mod 64 < 18446744073709551616"
      by (rule less_trans [of _ 64]) simp_all
    then show ?thesis using assms(3)
      by (auto simp: m64 in_rows_def unat_of_nat_u64 div_less_iff_less_mult)
  qed
  finally show ?thesis .
qed

text \<open>Rows of a source region that lies apart from the destination region.\<close>

lemma in_rows_bound:
  assumes "in_rows D n a R off"
  shows "off < (R - 1) * D + n"
proof -
  have "off div D \<le> R - 1" "off mod D < n" using assms by (auto simp: in_rows_def)
  moreover have "off = off div D * D + off mod D" by simp
  moreover have "off div D * D \<le> (R - 1) * D" using calculation(1) by (rule mult_right_mono) simp
  ultimately show ?thesis by linarith
qed

lemma apart_rows:
  assumes "n \<le> S" "unat (dst :: u64) + R * D \<le> 18446744073709551616" "n \<le> D"
    "unat src + R * S \<le> 18446744073709551616"
    "unat src + ((R - 1) * S + n) \<le> unat dst \<or> unat dst + ((R - 1) * D + n) \<le> unat src"
    "r < R" "i < n"
  shows "\<not> in_rows D n 0 R (unat (src + of_nat r * of_nat S + of_nat i - dst))"
proof -
  let ?a = "src + of_nat (r * S + i)"
  have "r * S \<le> (R - 1) * S" using assms(6) by (intro mult_right_mono) simp_all
  then have X: "r * S + i < (R - 1) * S + n" using assms(7) by linarith
  have RS: "(R - 1) * S + n \<le> R * S" "(R - 1) * D + n \<le> R * D"
    using assms(1,3,6) by (cases R; simp)+
  have "unat (of_nat (r * S + i) :: u64) = r * S + i"
    using X RS assms(4) by (intro unat_of_nat_u64) linarith
  then have a: "unat ?a = unat src + (r * S + i)"
    using X RS assms(4) by (subst unat_add_exact) simp_all
  have "(R - 1) * D + n \<le> unat (?a - dst)"
  proof (cases "dst \<le> ?a")
    case True
    then have "unat (?a - dst) = unat ?a - unat dst" by (rule unat_sub)
    then show ?thesis using a X assms(5) True by (auto simp: word_le_nat_alt)
  next
    case False
    then have "unat (?a - dst) = unat ?a + 2 ^ 64 - unat dst"
      using unat_sub_if' [of ?a dst] by (simp add: word_le_nat_alt)
    then show ?thesis using assms(2) RS(2) by simp
  qed
  then have "\<not> in_rows D n 0 R (unat (?a - dst))"
    using in_rows_bound [of D n 0 R "unat (?a - dst)"] by linarith
  then show ?thesis by (simp add: add.assoc)
qed

lemma dma_2d_wait:
  assumes "unicast sys" "dm_user s = 0" "\<forall>c. dm_pending s c = []" "0 \<in> set evs"
    "unat n \<le> unat D" "unat n \<le> unat S" "0 < unat D" "unat D < 2147483648" "unat S < 2147483648"
    "unat dst + unat R * unat D \<le> 18446744073709551616"
    "unat src + unat R * unat S \<le> 18446744073709551616"
    "unat src + ((unat R - 1) * unat S + unat n) \<le> unat dst \<or>
     unat dst + ((unat R - 1) * unat D + unat n) \<le> unat src"
  shows "\<exists>post s'. snrt_dma_wait_all sys 0 evs (snd (snrt_dma_start_2d dst src n D S R 0 s)) = Some (post, s') \<and>
    suffix post evs \<and> (\<forall>c. dm_pending s' c = []) \<and> dm_user s' = 0 \<and>
    (\<forall>r < unat R. \<forall>k < unat n. dm_mem s' (dst + of_nat (r * unat D + k)) = dm_mem s (src + of_nat (r * unat S + k))) \<and>
    (\<forall>b. \<not> in_rows (unat D) (unat n) 0 (unat R) (unat (b - dst)) \<longrightarrow> dm_mem s' b = dm_mem s b)"
proof -
  let ?x = "\<lparr>x_src = src, x_dst = dst, x_size = n, x_sstr = of_nat (unat S), x_dstr = of_nat (unat D),
      x_rows = unat R, x_user = 0\<rparr>"
  let ?s = "snd (snrt_dma_start_2d dst src n D S R 0 s)"
  have st: "dm_pending ?s = (dm_pending s)(0 := [?x])" "dm_mem ?s = dm_mem s" "dm_user ?s = 0"
    using assms(2,3) by (simp_all add: start_2d_queues scast_small [OF assms(8)] scast_small [OF assms(9)])
  have "count_list evs 0 \<noteq> 0" using assms(4) by (simp add: count_list_0_iff)
  then have "length (dm_pending ?s 0) \<le> count_list evs 0" by (simp add: st)
  then obtain post s' where w: "snrt_dma_wait_all sys 0 evs ?s = Some (post, s')" "suffix post evs"
      "dm_mem s' = fold (dma_exec sys) (dm_pending ?s 0) (dm_mem ?s)" "\<forall>c. dm_pending s' c = []" "dm_user s' = 0"
    using wait_all_returns [of 0 ?s evs sys] assms(3) by (auto simp: only_channel_def st)
  have ex: "dm_mem s' b = (if in_rows (unat D) (unat n) 0 (unat R) (unat (b - dst))
      then dm_mem s (src + of_nat (unat (b - dst) div unat D) * of_nat (unat S) + of_nat (unat (b - dst) mod unat D))
      else dm_mem s b)" for b
  proof -
    have nr: "\<not> in_rows (unat D) (unat n) 0 (unat R) (unat (src + of_nat r * of_nat (unat S) + of_nat i - dst))"
      if "r < unat R" "i < unat n" for r i
      using apart_rows [OF assms(6,10,5,11,12) that] .
    have "dm_mem s' = dma_exec sys ?x (dm_mem s)" by (simp add: w(3) st)
    then show ?thesis
      using dma_exec_2d [OF assms(1), of ?x "unat D" "dm_mem s" b] assms(5,7,10) nr by simp
  qed
  have "dm_mem s' (dst + of_nat (r * unat D + k)) = dm_mem s (src + of_nat (r * unat S + k))"
    if "r < unat R" "k < unat n" for r k
  proof -
    have "Suc r * unat D \<le> unat R * unat D" using that by (intro mult_right_mono) simp_all
    then have "r * unat D + k < 18446744073709551616" using that assms(5,10) by simp
    then have "unat (dst + of_nat (r * unat D + k) - dst) = r * unat D + k"
      by (simp only: add_diff_cancel_left' unat_of_nat_u64)
    then show ?thesis
      using that assms(5) by (simp add: ex in_rows_def add.assoc)
  qed
  then show ?thesis using w ex by auto
qed

text \<open>Byte offset of a tile in a row-major 2D array.\<close>

definition tile_offset :: "nat \<Rightarrow> nat \<Rightarrow> nat \<Rightarrow> nat \<Rightarrow> nat \<Rightarrow> nat \<Rightarrow> nat" where
  "tile_offset x1_idx x0_idx x1_size x0_size full prec =
     (x1_idx * x1_size * full + x0_idx * x0_size) * prec"

lemma unat_tile_offset:
  assumes "tile_offset (unat i1) (unat i0) (unat n1) (unat n0) (unat full) (unat prec) < 4294967296"
    "0 < unat prec" "0 < unat full"
  shows "unat ((0 + i0 * n0 + i1 * n1 * full) * prec :: u32) =
    tile_offset (unat i1) (unat i0) (unat n1) (unat n0) (unat full) (unat prec)"
proof -
  let ?a = "unat i1 * unat n1" and ?b = "unat i0 * unat n0"
  have le: "x \<le> x * y" if "0 < y" for x y :: nat using that by simp
  have b: "(?a * unat full + ?b) * unat prec < 4294967296" using assms(1) by (simp add: tile_offset_def)
  have "?a * unat full + ?b \<le> (?a * unat full + ?b) * unat prec" by (rule le [OF assms(2)])
  with b have ab: "?a * unat full + ?b < 4294967296" by linarith
  moreover have "?a \<le> ?a * unat full" by (rule le [OF assms(3)])
  ultimately have "?a < 4294967296" "?b < 4294967296" "?a * unat full < 4294967296" by linarith+
  then have "unat (i1 * n1 * full) = ?a * unat full" "unat (i0 * n0) = ?b"
    by (simp_all add: unat_mult_exact)
  then have u: "unat (0 + i0 * n0 + i1 * n1 * full) = ?a * unat full + ?b"
    using ab by (subst unat_add_exact) simp_all
  have "unat ((0 + i0 * n0 + i1 * n1 * full) * prec) = (?a * unat full + ?b) * unat prec"
    unfolding u [symmetric] by (rule unat_mult_exact) (unfold u, use b in simp)
  then show ?thesis by (simp only: tile_offset_def)
qed

text \<open>
  A tile of a row-major array fits: it lies in the array, the leading dimension of the tile
  buffer holds a row, strides are below \<open>2 ^ 31\<close> (they are sign extended), array and buffer
  are in the 32-bit address space, and they do not overlap.
\<close>

definition tile_fits ::
  "u32 \<Rightarrow> u32 \<Rightarrow> u32 \<Rightarrow> u32 \<Rightarrow> u32 \<Rightarrow> u32 \<Rightarrow> u32 \<Rightarrow> u32 \<Rightarrow> u32 \<Rightarrow> bool" where
  "tile_fits arr buf i1 i0 n1 n0 full prec ld \<longleftrightarrow>
     0 < unat prec \<and> 0 < unat n0 \<and> 0 < unat n1 \<and> (unat i0 + 1) * unat n0 \<le> unat full \<and>
     unat full * unat prec < 2147483648 \<and> unat n0 * unat prec \<le> unat ld \<and> unat ld < 2147483648 \<and>
     unat arr + (unat i1 + 1) * unat n1 * unat full * unat prec < 4294967296 \<and>
     unat buf + unat n1 * unat ld < 4294967296 \<and>
     (unat arr + (unat i1 + 1) * unat n1 * unat full * unat prec \<le> unat buf \<or>
      unat buf + unat n1 * unat ld \<le> unat arr)"

lemma tile_arith:
  assumes "0 < prec" "0 < n0" "(i0 + 1) * n0 \<le> (full :: nat)" "0 < n1"
  shows "tile_offset i1 i0 n1 n0 full prec + ((n1 - 1) * (full * prec) + n0 * prec)
    \<le> (i1 + 1) * n1 * full * prec" "n0 * prec \<le> full * prec" "0 < full"
proof -
  have f: "i0 * n0 + n0 \<le> full" using assms(3) by simp
  then show "n0 * prec \<le> full * prec" by simp
  show "0 < full" using f assms(2) by linarith
  have "(n1 - 1) * full + full = n1 * full" using assms(4) by (cases n1) simp_all
  then have "i1 * n1 * full + i0 * n0 + ((n1 - 1) * full + n0) \<le> (i1 + 1) * n1 * full"
    using f by (simp add: algebra_simps)
  then have "(i1 * n1 * full + i0 * n0 + ((n1 - 1) * full + n0)) * prec \<le> ((i1 + 1) * n1 * full) * prec"
    by (rule mult_right_mono) simp
  then show "tile_offset i1 i0 n1 n0 full prec + ((n1 - 1) * (full * prec) + n0 * prec)
    \<le> (i1 + 1) * n1 * full * prec"
    by (simp add: tile_offset_def algebra_simps)
qed

lemma tile_words:
  assumes "tile_fits arr buf i1 i0 n1 n0 full prec ld"
  shows "unat (n0 * prec) = unat n0 * unat prec" "unat (full * prec) = unat full * unat prec"
    "(ucast arr + ucast ((0 + i0 * n0 + i1 * n1 * full) * prec) :: u64) =
       ucast arr + of_nat (tile_offset (unat i1) (unat i0) (unat n1) (unat n0) (unat full) (unat prec))"
    "unat (ucast arr + ucast ((0 + i0 * n0 + i1 * n1 * full) * prec) :: u64) =
       unat arr + tile_offset (unat i1) (unat i0) (unat n1) (unat n0) (unat full) (unat prec)"
proof -
  note f = assms [unfolded tile_fits_def]
  let ?o = "tile_offset (unat i1) (unat i0) (unat n1) (unat n0) (unat full) (unat prec)"
  have h: "0 < unat prec" "0 < unat n0" "(unat i0 + 1) * unat n0 \<le> unat full" "0 < unat n1"
    using f by blast+
  note a = tile_arith [OF h]
  have p: "unat full * unat prec < 4294967296" using f by linarith
  then show "unat (full * prec) = unat full * unat prec" by (intro unat_mult_exact) simp
  have "unat n0 * unat prec < 4294967296" using p a(2) by linarith
  then show "unat (n0 * prec) = unat n0 * unat prec" by (intro unat_mult_exact) simp
  have o: "unat arr + ?o < 4294967296" using f a(1) [of "unat i1"] by linarith
  then have "?o < 4294967296" by linarith
  then have w: "unat ((0 + i0 * n0 + i1 * n1 * full) * prec) = ?o"
    using h(1) a(3) by (intro unat_tile_offset)
  have "(ucast ((0 + i0 * n0 + i1 * n1 * full) * prec) :: u64) =
      of_nat (unat ((0 + i0 * n0 + i1 * n1 * full) * prec))"
    by (simp only: of_nat_unat)
  then show e: "(ucast arr + ucast ((0 + i0 * n0 + i1 * n1 * full) * prec) :: u64) = ucast arr + of_nat ?o"
    by (simp only: w)
  have "unat (of_nat ?o :: u64) = ?o" using o by (intro unat_of_nat_u64) linarith
  then show "unat (ucast arr + ucast ((0 + i0 * n0 + i1 * n1 * full) * prec) :: u64) = unat arr + ?o"
    unfolding e using o by (subst unat_add_exact) simp_all
qed

text \<open>Both directions between array and buffer meet the conditions of a 2D transfer.\<close>

lemma tile_extents:
  fixes arr buf :: u32
  assumes "tile_fits arr buf i1 i0 n1 n0 full prec ld"
  defines "a \<equiv> ucast arr + ucast ((0 + i0 * n0 + i1 * n1 * full) * prec) :: u64"
  shows "unat (n0 * prec) \<le> unat ld" "unat (n0 * prec) \<le> unat (full * prec)"
    "0 < unat ld" "0 < unat (full * prec)" "unat ld < 2147483648" "unat (full * prec) < 2147483648"
    "unat (ucast buf :: u64) + unat n1 * unat ld \<le> 18446744073709551616"
    "unat a + unat n1 * unat (full * prec) \<le> 18446744073709551616"
    "unat a + ((unat n1 - 1) * unat (full * prec) + unat (n0 * prec)) \<le> unat (ucast buf :: u64) \<or>
     unat (ucast buf :: u64) + ((unat n1 - 1) * unat ld + unat (n0 * prec)) \<le> unat a"
proof -
  note f = assms(1) [unfolded tile_fits_def]
  note w = tile_words [OF assms(1)]
  have h: "0 < unat prec" "0 < unat n0" "(unat i0 + 1) * unat n0 \<le> unat full" "0 < unat n1"
    using f by blast+
  note ar = tile_arith [OF h]
  let ?o = "tile_offset (unat i1) (unat i0) (unat n1) (unat n0) (unat full) (unat prec)"
  have a: "unat a = unat arr + ?o" unfolding a_def by (rule w(4))
  have n: "0 < unat n0 * unat prec" using h by simp
  show "unat (n0 * prec) \<le> unat ld" "unat (n0 * prec) \<le> unat (full * prec)"
    "unat ld < 2147483648" "unat (full * prec) < 2147483648"
    using f ar(2) unfolding w by blast+
  then show "0 < unat ld" "0 < unat (full * prec)" using n w(1) by linarith+
  show "unat (ucast buf :: u64) + unat n1 * unat ld \<le> 18446744073709551616"
    unfolding unat_ucast_u32_u64 using f by linarith
  have S: "unat n1 * (unat full * unat prec) = (unat n1 - 1) * (unat full * unat prec) + unat full * unat prec"
    "unat n1 * unat ld = (unat n1 - 1) * unat ld + unat ld"
    using h(4) by (cases "unat n1"; simp)+
  have ext: "?o + ((unat n1 - 1) * (unat full * unat prec) + unat n0 * unat prec)
      \<le> (unat i1 + 1) * unat n1 * unat full * unat prec" by (rule ar(1))
  show "unat a + unat n1 * unat (full * prec) \<le> 18446744073709551616"
    unfolding a w S(1) using ext f by linarith
  show "unat a + ((unat n1 - 1) * unat (full * prec) + unat (n0 * prec)) \<le> unat (ucast buf :: u64) \<or>
     unat (ucast buf :: u64) + ((unat n1 - 1) * unat ld + unat (n0 * prec)) \<le> unat a"
    unfolding a w unat_ucast_u32_u64 using ext f S(2) by linarith
qed

lemma load_2d_tile_wait:
  assumes "unicast sys" "dm_user s = 0" "\<forall>c. dm_pending s c = []" "0 \<in> set evs"
    "tile_fits src dst i1 i0 n1 n0 full prec ld"
  shows "\<exists>post s'. snrt_dma_wait_all sys 0 evs
       (snd (snrt_dma_load_2d_tile dst src i1 i0 n1 n0 full prec ld s)) = Some (post, s') \<and>
     suffix post evs \<and> (\<forall>c. dm_pending s' c = []) \<and> dm_user s' = 0 \<and>
     (\<forall>i < unat n1. \<forall>k < unat n0 * unat prec.
        dm_mem s' (ucast dst + of_nat (i * unat ld + k)) =
        dm_mem s (ucast src + of_nat (tile_offset (unat i1) (unat i0) (unat n1) (unat n0) (unat full)
                    (unat prec) + (i * (unat full * unat prec) + k)))) \<and>
     (\<forall>b. \<not> in_rows (unat ld) (unat n0 * unat prec) 0 (unat n1) (unat (b - ucast dst)) \<longrightarrow>
        dm_mem s' b = dm_mem s b)"
proof -
  note e = tile_extents [OF assms(5)] and w = tile_words [OF assms(5)]
  have "snrt_dma_load_2d_tile dst src i1 i0 n1 n0 full prec ld =
      snrt_dma_start_2d (ucast dst) (ucast src + ucast ((0 + i0 * n0 + i1 * n1 * full) * prec))
        (n0 * prec) ld (full * prec) n1 0"
    by (simp add: snrt_dma_load_2d_tile_def Let_def)
  with dma_2d_wait [OF assms(1-4) e(1,2,3,5,6,7,8,9)] show ?thesis
    unfolding w(1-3) by (simp add: add.assoc)
qed

lemma store_2d_tile_wait:
  assumes "unicast sys" "dm_user s = 0" "\<forall>c. dm_pending s c = []" "0 \<in> set evs"
    "tile_fits dst src i1 i0 n1 n0 full prec ld"
  shows "\<exists>post s'. snrt_dma_wait_all sys 0 evs
       (snd (snrt_dma_store_2d_tile dst src i1 i0 n1 n0 full prec ld s)) = Some (post, s') \<and>
     suffix post evs \<and> (\<forall>c. dm_pending s' c = []) \<and> dm_user s' = 0 \<and>
     (\<forall>i < unat n1. \<forall>k < unat n0 * unat prec.
        dm_mem s' (ucast dst + of_nat (tile_offset (unat i1) (unat i0) (unat n1) (unat n0) (unat full)
                    (unat prec) + (i * (unat full * unat prec) + k))) =
        dm_mem s (ucast src + of_nat (i * unat ld + k))) \<and>
     (\<forall>b. \<not> in_rows (unat full * unat prec) (unat n0 * unat prec) 0 (unat n1)
            (unat (b - (ucast dst + of_nat (tile_offset (unat i1) (unat i0) (unat n1) (unat n0)
               (unat full) (unat prec))))) \<longrightarrow> dm_mem s' b = dm_mem s b)"
proof -
  note e = tile_extents [OF assms(5)] and w = tile_words [OF assms(5)]
  have "snrt_dma_store_2d_tile dst src i1 i0 n1 n0 full prec ld =
      snrt_dma_start_2d (ucast dst + ucast ((0 + i0 * n0 + i1 * n1 * full) * prec)) (ucast src)
        (n0 * prec) (full * prec) ld n1 0"
    by (simp add: snrt_dma_store_2d_tile_def Let_def)
  with dma_2d_wait [OF assms(1-4) e(2,1,4,6,5,8,7) e(9) [unfolded disj_commute [of "_ + _ \<le> unat (ucast src)"]]]
  show ?thesis
    unfolding w(1-3) by (simp add: add.assoc)
qed

text \<open>
  Transfer ids are given out in sequence: the next id is one more than the last completed one
  and the number of transfers in flight.
\<close>

definition ids_ok :: "u32 \<Rightarrow> dma_state \<Rightarrow> bool" where
  "ids_ok ch s \<longleftrightarrow> dm_next_id s ch = dm_completed_id s ch + of_nat (length (dm_pending s ch) + 1)"

lemma ids_ok_queue: "ids_ok ch s \<Longrightarrow> ids_ok ch (queue_xfer c x s)"
  by (auto simp: ids_ok_def algebra_simps)

lemma ids_ok_event: "ids_ok ch s \<Longrightarrow> ids_ok ch (dma_event sys c s)"
  by (cases "dm_pending s c") (auto simp: ids_ok_def dma_event_idle dma_event_busy algebra_simps)

section \<open>A concrete DMA\<close>

text \<open>
  A system whose multicast ignores the address bits of the user field, as the cluster's
  crossbars do, and an idle DMA over a memory that holds the low byte of each address.
\<close>

definition sample_sys :: dma_sys where
  "sample_sys = \<lparr>mcast_hits = (\<lambda>u a b. a AND NOT u = b AND NOT u), queue_depth = 3\<rparr>"

definition sample_dma :: dma_state where
  "sample_dma = \<lparr>dm_src = 0, dm_dst = 0, dm_sstr = 0, dm_dstr = 0, dm_reps = 0, dm_user = 0,
     dm_next_id = (\<lambda>_. 1), dm_completed_id = (\<lambda>_. 0), dm_pending = (\<lambda>_. []), dm_mem = ucast\<rparr>"

lemma sample_dma_ok:
  "unicast sample_sys" "dm_user sample_dma = 0" "\<forall>c. dm_pending sample_dma c = []"
  "only_channel ch sample_dma" "ids_ok ch sample_dma"
  by (simp_all add: unicast_def sample_sys_def sample_dma_def only_channel_def ids_ok_def)

lemma sample_tile_fits:
  "tile_fits 0x80000000 0x10000000 1 2 2 3 16 8 32" "tile_fits 0x80000000 0x10001000 1 2 2 3 16 8 24"
  by (simp_all add: tile_fits_def)

section \<open>Properties\<close>


text \<open>
  C16: \<open>snrt_dma_memset\<close> on an idle DMA returns, and sets exactly the \<open>len\<close> bytes from \<open>ptr\<close> to
  the value, on the path that copies with the DMA as on the one that does not; every other
  byte keeps its value.
\<close>

theorem dma_memset_exact:
  assumes "unicast sys" "dm_user s = 0" "\<forall>c. dm_pending s c = []" "0 \<in> set evs"
    "unat ptr + unat len \<le> 2 ^ 32"
  shows "\<exists>post s'. snrt_dma_memset sys ptr v len evs s = Some (post, s') \<and>
     dm_mem s' = (\<lambda>b. if unat (b - ucast ptr) < unat len then v else dm_mem s b) \<and>
     (\<forall>c. dm_pending s' c = [])"
proof (cases "len mod 64 = 0 \<and> len > 64")
  case False
  then show ?thesis
    using assms(3,5) by (auto simp: snrt_dma_memset_def Let_def set_bytes_at)
next
  case True
  let ?n = "unat len div 64"
  let ?x = "\<lparr>x_src = ucast ptr, x_dst = ucast ptr, x_size = 64, x_sstr = 0, x_dstr = of_nat 64,
      x_rows = ?n, x_user = 0\<rparr>"
  let ?s = "snd (snrt_dma_start_2d_ptr ptr ptr 64 64 0 (len div 64) 0
      (s\<lparr>dm_mem := set_bytes ptr v 64 (dm_mem s)\<rparr>))"
  have "unat (len mod 64) = 0" using True by simp
  then have "unat len mod 64 = 0" by (simp only: unat_mod) simp
  moreover have "64 < unat len" using True by (simp add: word_less_nat_alt)
  ultimately have l: "?n * 64 = unat len" "1 < ?n" by auto
  have st: "dm_pending ?s = (dm_pending s)(0 := [?x])" "dm_mem ?s = set_bytes ptr v 64 (dm_mem s)"
    using assms(2,3) by (simp_all add: snrt_dma_start_2d_ptr_def start_2d_queues unat_div)
  have "count_list evs 0 \<noteq> 0" using assms(4) by (simp add: count_list_0_iff)
  then have "length (dm_pending ?s 0) \<le> count_list evs 0" by (simp add: st)
  then obtain post s' where w: "snrt_dma_wait_all sys 0 evs ?s = Some (post, s')"
      "dm_mem s' = dma_exec sys ?x (set_bytes ptr v 64 (dm_mem s))" "\<forall>c. dm_pending s' c = []"
    using wait_all_returns [of 0 ?s evs sys] assms(3) by (auto simp: only_channel_def st)
  moreover have "\<not> len < 64" using True by auto
  then have "snrt_dma_memset sys ptr v len evs s = snrt_dma_wait_all sys 0 evs ?s"
    using True by (simp add: snrt_dma_memset_def Let_def case_prod_unfold)
  moreover have "dm_mem s' = (\<lambda>b. if unat (b - ucast ptr) < unat len then v else dm_mem s b)"
    unfolding w(2) using memset_dma [OF assms(1), of ptr ?n v "dm_mem s"] l assms(5)
    by (intro ext) (simp add: l)
  ultimately show ?thesis by auto
qed

text \<open>
  C13: after loading a tile of a 2D array and waiting, row \<open>i\<close> of the buffer holds the bytes of
  row \<open>tile_x1_idx * tile_x1_size + i\<close> of the array from column \<open>tile_x0_idx * tile_x0_size\<close> on, and
  no byte outside the rows of the tile in the buffer has changed.
\<close>

theorem dma_load_2d_tile_correct:
  assumes "unicast sys" "dm_user s = 0" "\<forall>c. dm_pending s c = []" "0 \<in> set evs"
    "tile_fits src dst i1 i0 n1 n0 full prec ld"
  shows "\<exists>post s'. snrt_dma_wait_all sys 0 evs
       (snd (snrt_dma_load_2d_tile dst src i1 i0 n1 n0 full prec ld s)) = Some (post, s') \<and>
     (\<forall>i < unat n1. \<forall>k < unat n0 * unat prec.
        dm_mem s' (ucast dst + of_nat (i * unat ld + k)) =
        dm_mem s (ucast src + of_nat
          (((unat i1 * unat n1 + i) * unat full + unat i0 * unat n0) * unat prec + k))) \<and>
     (\<forall>b. \<not> in_rows (unat ld) (unat n0 * unat prec) 0 (unat n1) (unat (b - ucast dst)) \<longrightarrow>
        dm_mem s' b = dm_mem s b)"
proof -
  have "tile_offset (unat i1) (unat i0) (unat n1) (unat n0) (unat full) (unat prec)
      + (i * (unat full * unat prec) + k) =
      ((unat i1 * unat n1 + i) * unat full + unat i0 * unat n0) * unat prec + k" for i k
    by (simp add: tile_offset_def algebra_simps)
  then show ?thesis using load_2d_tile_wait [OF assms] by metis
qed

text \<open>
  C14: a tile that is stored to an array and loaded again from the same place, into a buffer
  of any leading dimension, comes back byte for byte.
\<close>

theorem dma_tile_roundtrip:
  assumes "unicast sys" "dm_user s = 0" "\<forall>c. dm_pending s c = []" "0 \<in> set evs" "0 \<in> set evs'"
    "tile_fits arr buf i1 i0 n1 n0 full prec ld" "tile_fits arr buf' i1 i0 n1 n0 full prec ld'"
  shows "\<exists>post s1 post' s2.
     snrt_dma_wait_all sys 0 evs
       (snd (snrt_dma_store_2d_tile arr buf i1 i0 n1 n0 full prec ld s)) = Some (post, s1) \<and>
     snrt_dma_wait_all sys 0 evs'
       (snd (snrt_dma_load_2d_tile buf' arr i1 i0 n1 n0 full prec ld' s1)) = Some (post', s2) \<and>
     (\<forall>i < unat n1. \<forall>k < unat n0 * unat prec.
        dm_mem s2 (ucast buf' + of_nat (i * unat ld' + k)) = dm_mem s (ucast buf + of_nat (i * unat ld + k)))"
proof -
  obtain post s1 where 1: "snrt_dma_wait_all sys 0 evs
       (snd (snrt_dma_store_2d_tile arr buf i1 i0 n1 n0 full prec ld s)) = Some (post, s1)"
      "\<forall>c. dm_pending s1 c = []" "dm_user s1 = 0"
     "\<forall>i < unat n1. \<forall>k < unat n0 * unat prec.
        dm_mem s1 (ucast arr + of_nat (tile_offset (unat i1) (unat i0) (unat n1) (unat n0) (unat full)
                    (unat prec) + (i * (unat full * unat prec) + k))) =
        dm_mem s (ucast buf + of_nat (i * unat ld + k))"
    using store_2d_tile_wait [OF assms(1-4,6)] by blast
  then show ?thesis using load_2d_tile_wait [OF assms(1) 1(3,2) assms(5,7)] by metis
qed


theorem dma_memset_exact_witness:
  "\<exists>post s'. snrt_dma_memset sample_sys 0x10000000 0xAB 128 [0] sample_dma = Some (post, s') \<and>
     dm_mem s' 0x1000007F = 0xAB \<and> dm_mem s' 0x10000080 = 0x80"
proof -
  have "unat (0x10000000 :: u32) + unat (128 :: u32) \<le> 2 ^ 32" by simp
  from dma_memset_exact [OF sample_dma_ok(1-3) _ this, of "[0]" "0xAB"]
  obtain post s' where *: "snrt_dma_memset sample_sys 0x10000000 0xAB 128 [0] sample_dma = Some (post, s')"
      "dm_mem s' = (\<lambda>b. if unat (b - ucast (0x10000000 :: u32)) < unat (128 :: u32) then 0xAB
                     else dm_mem sample_dma b)"
    by auto
  then have "dm_mem s' 0x1000007F = 0xAB" "dm_mem s' 0x10000080 = 0x80"
    by (simp_all add: sample_dma_def)
  with * show ?thesis by auto
qed

theorem dma_load_2d_tile_correct_witness:
  "\<exists>post s'. snrt_dma_wait_all sample_sys 0 [0]
       (snd (snrt_dma_load_2d_tile 0x10000000 0x80000000 1 2 2 3 16 8 32 sample_dma)) = Some (post, s') \<and>
     dm_mem s' 0x10000021 = 0xB1 \<and> dm_mem s' 0x10000018 = 0x18"
proof -
  from dma_load_2d_tile_correct [OF sample_dma_ok(1-3) _ sample_tile_fits(1), of "[0]"]
  obtain post s' where *: "snrt_dma_wait_all sample_sys 0 [0]
       (snd (snrt_dma_load_2d_tile 0x10000000 0x80000000 1 2 2 3 16 8 32 sample_dma)) = Some (post, s')"
      "\<forall>i < 2. \<forall>k < 24. dm_mem s' (0x10000000 + of_nat (i * 32 + k)) =
         dm_mem sample_dma (0x80000000 + of_nat (((2 + i) * 16 + 6) * 8 + k))"
      "\<forall>b. \<not> in_rows 32 24 0 2 (unat (b - 0x10000000)) \<longrightarrow> dm_mem s' b = dm_mem sample_dma b"
    by auto
  from *(2) [rule_format, of 1 1] *(3) [rule_format, of "0x10000018"]
  have "dm_mem s' 0x10000021 = 0xB1" "dm_mem s' 0x10000018 = 0x18"
    by (simp_all add: in_rows_def sample_dma_def)
  with *(1) show ?thesis by auto
qed

theorem dma_tile_roundtrip_witness:
  "\<exists>post s1 post' s2.
     snrt_dma_wait_all sample_sys 0 [0]
       (snd (snrt_dma_store_2d_tile 0x80000000 0x10000000 1 2 2 3 16 8 32 sample_dma)) = Some (post, s1) \<and>
     snrt_dma_wait_all sample_sys 0 [0]
       (snd (snrt_dma_load_2d_tile 0x10001000 0x80000000 1 2 2 3 16 8 24 s1)) = Some (post', s2) \<and>
     dm_mem s2 0x10001019 = 0x21"
proof -
  from dma_tile_roundtrip [OF sample_dma_ok(1-3) _ _ sample_tile_fits, of "[0]" "[0]"]
  obtain post s1 post' s2 where *: "snrt_dma_wait_all sample_sys 0 [0]
       (snd (snrt_dma_store_2d_tile 0x80000000 0x10000000 1 2 2 3 16 8 32 sample_dma)) = Some (post, s1)"
     "snrt_dma_wait_all sample_sys 0 [0]
       (snd (snrt_dma_load_2d_tile 0x10001000 0x80000000 1 2 2 3 16 8 24 s1)) = Some (post', s2)"
     "\<forall>i < 2. \<forall>k < 24. dm_mem s2 (0x10001000 + of_nat (i * 24 + k)) =
        dm_mem sample_dma (0x10000000 + of_nat (i * 32 + k))"
    by auto
  from *(3) [rule_format, of 1 1] have "dm_mem s2 0x10001019 = 0x21" by (simp add: sample_dma_def)
  with *(1,2) show ?thesis by auto
qed

text \<open>
  Loading into a subset of the banks: with a tile as wide as the banks it is the tile load with
  the leading dimension of a hyperbank row; a narrower tile is read from the wrong place, since
  the reshaped sizes also enter the offset into the source array.
\<close>

lemma load_in_banks_full_rows:
  assumes "(num_banks * SNRT_TCDM_BANK_WIDTH c) div prec = n0" "0 < unat n0"
    "unat n1 * unat n0 < 4294967296"
  shows "snrt_dma_load_2d_tile_in_banks c dst src i1 i0 n1 n0 full prec num_banks =
     snrt_dma_load_2d_tile dst src i1 i0 n1 n0 full prec (SNRT_TCDM_HYPERBANK_WIDTH c)"
proof -
  have "unat (n1 * n0) = unat n1 * unat n0" using assms(3) by (intro unat_mult_exact) simp
  moreover have "unat n1 * unat n0 + unat n0 - 1 = unat n1 * unat n0 + (unat n0 - 1)"
    using assms(2) by simp
  moreover have "(unat n1 * unat n0 + (unat n0 - 1)) div unat n0 = unat n1"
    using assms(2) by (subst div_mult_self3) simp_all
  ultimately have "ceil_div (n1 * n0) n0 = n1" by (simp add: ceil_div_def)
  then show ?thesis
    by (intro ext) (simp add: snrt_dma_load_2d_tile_in_banks_def assms(1) Let_def)
qed

lemma load_in_banks_narrow_tile:
  "x_src (hd (dm_pending (snd (snrt_dma_load_2d_tile_in_banks sample_cfg 0x10000000 0x80000000
       0 1 4 4 16 8 8 sample_dma)) 0)) = 0x80000040 \<and>
   x_src (hd (dm_pending (snd (snrt_dma_load_2d_tile 0x10000000 0x80000000
       0 1 4 4 16 8 64 sample_dma)) 0)) = 0x80000020"
  by (simp add: snrt_dma_load_2d_tile_in_banks_def snrt_dma_load_2d_tile_def start_2d_queues
      sample_dma_def sample_cfg_def ceil_div_def Let_def)

end
