(* ===== verification/Ssr.thy ===== *)
theory Ssr
  imports Snrt_Prelude "HOL-Library.Monad_Syntax"
begin

text \<open>
  Stream semantic registers: the configuration interface and the affine address generator of
  \<open>hw/snitch_ssr/src/snitch_ssr_addr_gen.sv\<close> (pointer and index width 32, four loops, 64-bit
  data), and the functions of \<open>sw/runtime/src/ssr.h\<close> that program them. A generator has the
  registers of the running job, the shadow registers a new job is written to, and the loop
  counters. A configuration write while a shadowed job is pending stalls the core: the result
  None. The theorems show that a generator programmed by \<open>snrt_ssr_loop_*\<close> walks exactly the
  addresses of the affine loop nest, in order, and then stops.
\<close>

section \<open>Registers of a data mover\<close>

record ssr_job =
  j_stride :: "nat \<Rightarrow> u32"
  j_bound :: "nat \<Rightarrow> u32"
  j_rep :: u32
  j_ptr :: u32
  j_idx_cfg :: u32
  j_idx_base :: u32
  j_done :: bool
  j_write :: bool
  j_dims :: nat
  j_indir :: bool

record ssr =
  active :: ssr_job
  shadow :: ssr_job
  index_q :: "nat \<Rightarrow> u32"
  rep_q :: u32

text \<open>The mask that clears the byte offset in a 64-bit word.\<close>

definition WordAddrMask :: u32 where
  "WordAddrMask = 0xFFFFFFF8"

text \<open>The configuration word written next: the combinational \<open>_sd\<close> values of the shadow registers.\<close>

definition cfg_word_sd :: "u32 \<Rightarrow> u32 \<Rightarrow> ssr_job \<Rightarrow> ssr_job" where
  "cfg_word_sd w v j =
     (if w = 0 then
        j\<lparr>j_ptr := v, j_done := bit v 31, j_write := bit v 30,
          j_dims := unat (drop_bit 28 v AND 3), j_indir := bit v 27\<rparr>
      else if w = 1 then j\<lparr>j_rep := v\<rparr>
      else if 2 \<le> w \<and> w \<le> 5 then j\<lparr>j_bound := (j_bound j)(unat (w - 2) := v)\<rparr>
      else if 6 \<le> w \<and> w \<le> 9 then j\<lparr>j_stride := (j_stride j)(unat (w - 6) := v AND WordAddrMask)\<rparr>
      else if w = 10 then j\<lparr>j_idx_cfg := v\<rparr>
      else if w = 11 then j\<lparr>j_idx_base := v AND WordAddrMask\<rparr>
      else if bit w 4 then
        j\<lparr>j_ptr := v, j_done := False, j_write := bit w 2, j_dims := unat (w AND 3),
          j_indir := \<not> bit w 3\<rparr>
      else j)"

text \<open>A job in the shadow registers moves to the active ones when these are done.\<close>

definition load_job :: "ssr \<Rightarrow> ssr" where
  "load_job s =
     (if j_done (active s) then s\<lparr>active := shadow s, shadow := (shadow s)\<lparr>j_done := True\<rparr>\<rparr> else s)"

definition ssr_cfg_write :: "u32 \<Rightarrow> u32 \<Rightarrow> ssr \<Rightarrow> ssr option" where
  "ssr_cfg_write w v s =
     (if j_done (shadow s) then Some (load_job (s\<lparr>shadow := cfg_word_sd w v (shadow s)\<rparr>)) else None)"

definition ssr_cfg_read :: "u32 \<Rightarrow> ssr \<Rightarrow> u32" where
  "ssr_cfg_read w s =
     (let j = active s in
      if w = 0 then
        (j_ptr j AND 0x07FFFFFF) OR push_bit 31 (of_bool (j_done j)) OR
        push_bit 30 (of_bool (j_write j)) OR push_bit 28 (of_nat (j_dims j)) OR
        push_bit 27 (of_bool (j_indir j))
      else if w = 1 then j_rep j
      else if 2 \<le> w \<and> w \<le> 5 then j_bound j (unat (w - 2))
      else if 6 \<le> w \<and> w \<le> 9 then j_stride j (unat (w - 6))
      else if w = 10 then j_idx_cfg j
      else if w = 11 then j_idx_base j
      else 0)"

section \<open>The affine address generator\<close>

definition NumLoops :: nat where
  "NumLoops = 4"

definition loop_last :: "ssr \<Rightarrow> nat \<Rightarrow> bool" where
  "loop_last s i =
     (let j = active s in
      if i = 0 then index_q s 0 = j_bound j 0
      else j_indir j \<or> index_q s i = j_bound j i \<or> j_dims j < i)"

text \<open>Loop \<open>i\<close> is enabled when all inner loops are at their last iteration.\<close>

fun loop_enabled :: "ssr \<Rightarrow> nat \<Rightarrow> bool" where
  "loop_enabled s 0 = True"
| "loop_enabled s (Suc i) = (loop_enabled s i \<and> loop_last s i)"

definition ssr_done :: "ssr \<Rightarrow> bool" where
  "ssr_done s = loop_enabled s NumLoops"

text \<open>The stride of the outermost enabled loop.\<close>

definition selected_stride :: "ssr \<Rightarrow> u32" where
  "selected_stride s =
     foldr (\<lambda>i acc. (if loop_enabled s i \<and> \<not> (Suc i < NumLoops \<and> loop_enabled s (Suc i))
                     then j_stride (active s) i else 0) OR acc) [0..<NumLoops] 0"

text \<open>One handshake with the memory: the pointer is consumed and the counters advance.\<close>

definition agen_step :: "ssr \<Rightarrow> ssr" where
  "agen_step s =
     load_job (s\<lparr>active := (active s)\<lparr>j_ptr := j_ptr (active s) + selected_stride s, j_done := ssr_done s\<rparr>,
        index_q := (\<lambda>i. if i < NumLoops \<and> loop_enabled s i
                        then (if loop_last s i then 0 else index_q s i + 1) else index_q s i)\<rparr>)"

text \<open>The addresses of the next \<open>n\<close> handshakes at most, ending with the job.\<close>

fun agen_stream :: "nat \<Rightarrow> ssr \<Rightarrow> u32 list \<times> ssr" where
  "agen_stream 0 s = ([], s)"
| "agen_stream (Suc n) s =
     (if j_done (active s) then ([], s)
      else case agen_stream n (agen_step s) of (as, s') \<Rightarrow> (j_ptr (active s) # as, s'))"

section \<open>The streams of a core\<close>

record ssr_core =
  ssrs :: "nat \<Rightarrow> ssr"
  ssr_en :: bool
  sc_mask :: u32

text \<open>
  \<open>scfgwi\<close> and \<open>scfgri\<close>: the immediate holds the data mover in bits 4 to 0 and the register
  above; data mover 31 addresses all three.
\<close>

definition NumSsrs :: nat where
  "NumSsrs = 3"

definition write_one :: "u32 \<Rightarrow> u32 \<Rightarrow> nat \<Rightarrow> ssr_core \<Rightarrow> ssr_core option" where
  "write_one w v i s =
     (case ssr_cfg_write w v (ssrs s i) of
        None \<Rightarrow> None
      | Some x \<Rightarrow> Some (s\<lparr>ssrs := (ssrs s)(i := x)\<rparr>))"

definition scfgwi :: "u32 \<Rightarrow> u32 \<Rightarrow> ssr_core \<Rightarrow> ssr_core option" where
  "scfgwi v imm s =
     (let dm = imm AND 31; w = drop_bit 5 imm in
      if dm = 31 then do { s \<leftarrow> write_one w v 0 s; s \<leftarrow> write_one w v 1 s; write_one w v 2 s }
      else if unat dm < NumSsrs then write_one w v (unat dm) s
      else Some s)"

definition scfgri :: "u32 \<Rightarrow> ssr_core \<Rightarrow> u32" where
  "scfgri imm s = ssr_cfg_read (drop_bit 5 imm) (ssrs s (unat (imm AND 31)))"

section \<open>Configuration functions (ssr.h)\<close>

type_synonym snrt_ssr_dm_t = u32
type_synonym snrt_ssr_dim_t = u32
type_synonym snrt_ssr_reg_t = u32
type_synonym snrt_ssr_idxsize_t = u32

definition SNRT_SSR_DM0 :: snrt_ssr_dm_t where "SNRT_SSR_DM0 = 0"
definition SNRT_SSR_DM1 :: snrt_ssr_dm_t where "SNRT_SSR_DM1 = 1"
definition SNRT_SSR_DM2 :: snrt_ssr_dm_t where "SNRT_SSR_DM2 = 2"
definition SNRT_SSR_DM_ALL :: snrt_ssr_dm_t where "SNRT_SSR_DM_ALL = 31"

definition SNRT_SSR_1D :: snrt_ssr_dim_t where "SNRT_SSR_1D = 0"
definition SNRT_SSR_2D :: snrt_ssr_dim_t where "SNRT_SSR_2D = 1"
definition SNRT_SSR_3D :: snrt_ssr_dim_t where "SNRT_SSR_3D = 2"
definition SNRT_SSR_4D :: snrt_ssr_dim_t where "SNRT_SSR_4D = 3"

definition SNRT_SSR_REG_STATUS :: snrt_ssr_reg_t where "SNRT_SSR_REG_STATUS = 0"
definition SNRT_SSR_REG_REPEAT :: snrt_ssr_reg_t where "SNRT_SSR_REG_REPEAT = 1"
definition SNRT_SSR_REG_BOUNDS :: snrt_ssr_reg_t where "SNRT_SSR_REG_BOUNDS = 2"
definition SNRT_SSR_REG_STRIDES :: snrt_ssr_reg_t where "SNRT_SSR_REG_STRIDES = 6"
definition SNRT_SSR_REG_IDX_CFG :: snrt_ssr_reg_t where "SNRT_SSR_REG_IDX_CFG = 10"
definition SNRT_SSR_REG_IDX_BASE :: snrt_ssr_reg_t where "SNRT_SSR_REG_IDX_BASE = 11"
definition SNRT_SSR_REG_RPTR_INDIR :: snrt_ssr_reg_t where "SNRT_SSR_REG_RPTR_INDIR = 16"
definition SNRT_SSR_REG_RPTR :: snrt_ssr_reg_t where "SNRT_SSR_REG_RPTR = 24"
definition SNRT_SSR_REG_WPTR :: snrt_ssr_reg_t where "SNRT_SSR_REG_WPTR = 28"

lemmas ssr_reg_defs =
  SNRT_SSR_DM0_def SNRT_SSR_DM1_def SNRT_SSR_DM2_def SNRT_SSR_DM_ALL_def
  SNRT_SSR_1D_def SNRT_SSR_2D_def SNRT_SSR_3D_def SNRT_SSR_4D_def
  SNRT_SSR_REG_STATUS_def SNRT_SSR_REG_REPEAT_def SNRT_SSR_REG_BOUNDS_def
  SNRT_SSR_REG_STRIDES_def SNRT_SSR_REG_IDX_CFG_def SNRT_SSR_REG_IDX_BASE_def
  SNRT_SSR_REG_RPTR_INDIR_def SNRT_SSR_REG_RPTR_def SNRT_SSR_REG_WPTR_def

definition snrt_ssr_enable :: "ssr_core \<Rightarrow> ssr_core" where
  "snrt_ssr_enable s = s\<lparr>ssr_en := True\<rparr>"

definition snrt_ssr_disable :: "ssr_core \<Rightarrow> ssr_core" where
  "snrt_ssr_disable s = s\<lparr>ssr_en := False\<rparr>"

definition snrt_sc_enable :: "u32 \<Rightarrow> ssr_core \<Rightarrow> ssr_core" where
  "snrt_sc_enable msk s = s\<lparr>sc_mask := sc_mask s OR msk\<rparr>"

definition snrt_sc_disable :: "u32 \<Rightarrow> ssr_core \<Rightarrow> ssr_core" where
  "snrt_sc_disable msk s = s\<lparr>sc_mask := sc_mask s AND NOT msk\<rparr>"

definition read_ssr_cfg :: "snrt_ssr_reg_t \<Rightarrow> snrt_ssr_dm_t \<Rightarrow> ssr_core \<Rightarrow> u32" where
  "read_ssr_cfg reg dm s = scfgri (dm OR push_bit 5 reg) s"

definition write_ssr_cfg ::
  "snrt_ssr_reg_t \<Rightarrow> snrt_ssr_dm_t \<Rightarrow> u32 \<Rightarrow> ssr_core \<Rightarrow> ssr_core option" where
  "write_ssr_cfg reg dm v s = scfgwi v (dm OR push_bit 5 reg) s"

definition snrt_ssr_loop_1d :: "snrt_ssr_dm_t \<Rightarrow> u32 \<Rightarrow> u32 \<Rightarrow> ssr_core \<Rightarrow> ssr_core option" where
  "snrt_ssr_loop_1d dm b0 s0 st =
     (let b0 = b0 - 1; a = 0 in do {
        st \<leftarrow> write_ssr_cfg (SNRT_SSR_REG_BOUNDS + 0) dm b0 st;
        write_ssr_cfg (SNRT_SSR_REG_STRIDES + 0) dm (s0 - a) st })"

definition snrt_ssr_loop_2d ::
  "snrt_ssr_dm_t \<Rightarrow> u32 \<Rightarrow> u32 \<Rightarrow> u32 \<Rightarrow> u32 \<Rightarrow> ssr_core \<Rightarrow> ssr_core option" where
  "snrt_ssr_loop_2d dm b0 b1 s0 s1 st =
     (let b0 = b0 - 1; b1 = b1 - 1; a0 = 0; a1 = a0 + s0 * b0 in do {
        st \<leftarrow> write_ssr_cfg (SNRT_SSR_REG_BOUNDS + 0) dm b0 st;
        st \<leftarrow> write_ssr_cfg (SNRT_SSR_REG_BOUNDS + 1) dm b1 st;
        st \<leftarrow> write_ssr_cfg (SNRT_SSR_REG_STRIDES + 0) dm (s0 - a0) st;
        write_ssr_cfg (SNRT_SSR_REG_STRIDES + 1) dm (s1 - a1) st })"

definition snrt_ssr_loop_3d ::
  "snrt_ssr_dm_t \<Rightarrow> u32 \<Rightarrow> u32 \<Rightarrow> u32 \<Rightarrow> u32 \<Rightarrow> u32 \<Rightarrow> u32 \<Rightarrow> ssr_core \<Rightarrow> ssr_core option" where
  "snrt_ssr_loop_3d dm b0 b1 b2 s0 s1 s2 st =
     (let b0 = b0 - 1; b1 = b1 - 1; b2 = b2 - 1;
          a0 = 0; a1 = a0 + s0 * b0; a2 = a1 + s1 * b1 in do {
        st \<leftarrow> write_ssr_cfg (SNRT_SSR_REG_BOUNDS + 0) dm b0 st;
        st \<leftarrow> write_ssr_cfg (SNRT_SSR_REG_BOUNDS + 1) dm b1 st;
        st \<leftarrow> write_ssr_cfg (SNRT_SSR_REG_BOUNDS + 2) dm b2 st;
        st \<leftarrow> write_ssr_cfg (SNRT_SSR_REG_STRIDES + 0) dm (s0 - a0) st;
        st \<leftarrow> write_ssr_cfg (SNRT_SSR_REG_STRIDES + 1) dm (s1 - a1) st;
        write_ssr_cfg (SNRT_SSR_REG_STRIDES + 2) dm (s2 - a2) st })"

definition snrt_ssr_loop_4d ::
  "snrt_ssr_dm_t \<Rightarrow> u32 \<Rightarrow> u32 \<Rightarrow> u32 \<Rightarrow> u32 \<Rightarrow> u32 \<Rightarrow> u32 \<Rightarrow> u32 \<Rightarrow> u32 \<Rightarrow> ssr_core \<Rightarrow>
     ssr_core option" where
  "snrt_ssr_loop_4d dm b0 b1 b2 b3 s0 s1 s2 s3 st =
     (let b0 = b0 - 1; b1 = b1 - 1; b2 = b2 - 1; b3 = b3 - 1;
          a0 = 0; a1 = a0 + s0 * b0; a2 = a1 + s1 * b1; a3 = a2 + s2 * b2 in do {
        st \<leftarrow> write_ssr_cfg (SNRT_SSR_REG_BOUNDS + 0) dm b0 st;
        st \<leftarrow> write_ssr_cfg (SNRT_SSR_REG_BOUNDS + 1) dm b1 st;
        st \<leftarrow> write_ssr_cfg (SNRT_SSR_REG_BOUNDS + 2) dm b2 st;
        st \<leftarrow> write_ssr_cfg (SNRT_SSR_REG_BOUNDS + 3) dm b3 st;
        st \<leftarrow> write_ssr_cfg (SNRT_SSR_REG_STRIDES + 0) dm (s0 - a0) st;
        st \<leftarrow> write_ssr_cfg (SNRT_SSR_REG_STRIDES + 1) dm (s1 - a1) st;
        st \<leftarrow> write_ssr_cfg (SNRT_SSR_REG_STRIDES + 2) dm (s2 - a2) st;
        write_ssr_cfg (SNRT_SSR_REG_STRIDES + 3) dm (s3 - a3) st })"

definition snrt_ssr_repeat :: "snrt_ssr_dm_t \<Rightarrow> u32 \<Rightarrow> ssr_core \<Rightarrow> ssr_core option" where
  "snrt_ssr_repeat dm count = write_ssr_cfg SNRT_SSR_REG_REPEAT dm (count - 1)"

definition snrt_ssr_read ::
  "snrt_ssr_dm_t \<Rightarrow> snrt_ssr_dim_t \<Rightarrow> u32 \<Rightarrow> ssr_core \<Rightarrow> ssr_core option" where
  "snrt_ssr_read dm dim ptr = write_ssr_cfg (SNRT_SSR_REG_RPTR + dim) dm ptr"

definition snrt_ssr_write ::
  "snrt_ssr_dm_t \<Rightarrow> snrt_ssr_dim_t \<Rightarrow> u32 \<Rightarrow> ssr_core \<Rightarrow> ssr_core option" where
  "snrt_ssr_write dm dim ptr = write_ssr_cfg (SNRT_SSR_REG_WPTR + dim) dm ptr"

definition snrt_issr_set_idx_cfg ::
  "snrt_ssr_dm_t \<Rightarrow> snrt_ssr_idxsize_t \<Rightarrow> ssr_core \<Rightarrow> ssr_core option" where
  "snrt_issr_set_idx_cfg dm idxsize = write_ssr_cfg SNRT_SSR_REG_IDX_CFG dm (idxsize AND 0xFF)"

definition snrt_issr_set_bound :: "snrt_ssr_dm_t \<Rightarrow> u32 \<Rightarrow> ssr_core \<Rightarrow> ssr_core option" where
  "snrt_issr_set_bound dm bnd = write_ssr_cfg SNRT_SSR_REG_BOUNDS dm (bnd - 1)"

definition snrt_issr_set_ptrs :: "snrt_ssr_dm_t \<Rightarrow> u32 \<Rightarrow> u32 \<Rightarrow> ssr_core \<Rightarrow> ssr_core option" where
  "snrt_issr_set_ptrs dm base idcs st = do {
     st \<leftarrow> write_ssr_cfg SNRT_SSR_REG_IDX_BASE dm base st;
     write_ssr_cfg SNRT_SSR_REG_RPTR_INDIR dm idcs st }"

definition snrt_issr_read ::
  "snrt_ssr_dm_t \<Rightarrow> u32 \<Rightarrow> u32 \<Rightarrow> u32 \<Rightarrow> snrt_ssr_idxsize_t \<Rightarrow> ssr_core \<Rightarrow> ssr_core option" where
  "snrt_issr_read dm base idcs bnd idxsize st = do {
     st \<leftarrow> snrt_issr_set_idx_cfg dm idxsize st;
     st \<leftarrow> snrt_issr_set_bound dm bnd st;
     snrt_issr_set_ptrs dm base idcs st }"

section \<open>Lemmas on the address generator\<close>

text \<open>
  The position in the loop nest as one number \<open>t\<close>: \<open>digit B t i\<close> is the value of counter \<open>i\<close> when
  the loops have \<open>B 0\<close>, \<open>B 1\<close>, \<open>B 2\<close> and \<open>B 3\<close> iterations, \<open>nest_addr\<close> the address there.
\<close>

fun digit :: "(nat \<Rightarrow> nat) \<Rightarrow> nat \<Rightarrow> nat \<Rightarrow> nat" where
  "digit B t 0 = t mod B 0"
| "digit B t (Suc i) = digit (\<lambda>k. B (Suc k)) (t div B 0) i"

definition nest_addr :: "u32 \<Rightarrow> (nat \<Rightarrow> nat) \<Rightarrow> (nat \<Rightarrow> u32) \<Rightarrow> nat \<Rightarrow> u32" where
  "nest_addr p B st t = p + (\<Sum>i<4. of_nat (digit B t i) * st i)"

text \<open>Iterations of loop \<open>i\<close> of a job: one when the loop is above its dimensions.\<close>

definition iters :: "ssr_job \<Rightarrow> nat \<Rightarrow> nat" where
  "iters j i = (if i \<le> j_dims j then unat (j_bound j i) + 1 else 1)"

text \<open>The stride registers of a job that walks the nest with strides \<open>st\<close>.\<close>

definition job_strides :: "ssr_job \<Rightarrow> (nat \<Rightarrow> u32) \<Rightarrow> bool" where
  "job_strides j st \<longleftrightarrow>
     (\<forall>i \<le> j_dims j. j_stride j i = st i - (\<Sum>k<i. st k * of_nat (iters j k - 1)))"

text \<open>The generator at position \<open>t\<close> of a job \<open>j\<close> started at \<open>p\<close>.\<close>

definition at_pos :: "ssr_job \<Rightarrow> (nat \<Rightarrow> u32) \<Rightarrow> nat \<Rightarrow> ssr \<Rightarrow> bool" where
  "at_pos j st t s \<longleftrightarrow>
     active s = j\<lparr>j_ptr := nest_addr (j_ptr j) (iters j) st t\<rparr> \<and> j_done (shadow s) \<and>
     (\<forall>i<4. index_q s i = of_nat (digit (iters j) t i))"

lemma digit_less: "0 < B i \<Longrightarrow> digit B t i < B i"
  by (induction i arbitrary: B t) auto

lemma digit_Suc:
  "digit B (Suc t) i =
     (if \<forall>k<i. Suc (digit B t k) = B k
      then (if Suc (digit B t i) = B i then 0 else Suc (digit B t i)) else digit B t i)"
proof (induction i arbitrary: B t)
  case 0
  then show ?case by (simp add: mod_Suc)
next
  case (Suc i)
  show ?case
  proof (cases "Suc (t mod B 0) = B 0")
    case True
    then have "Suc t mod B 0 = 0" by (simp add: mod_Suc)
    then have "Suc t div B 0 = Suc (t div B 0)" by (simp add: div_Suc)
    then show ?thesis
      using Suc.IH [of "\<lambda>k. B (Suc k)" "t div B 0"] True by (auto simp: less_Suc_eq_0_disj)
  next
    case False
    then have "Suc t mod B 0 \<noteq> 0" by (simp add: mod_Suc)
    then have "Suc t div B 0 = t div B 0" by (simp add: div_Suc)
    with False show ?thesis by auto
  qed
qed

lemma last_position:
  assumes "t < (\<Prod>k<n. B k)"
  shows "(\<forall>k<n. Suc (digit B t k) = B k) \<longleftrightarrow> Suc t = (\<Prod>k<n. B k)"
  using assms
proof (induction n arbitrary: B t)
  case 0
  then show ?case by simp
next
  case (Suc n)
  let ?P = "\<Prod>k<n. B (Suc k)"
  have P: "(\<Prod>k<Suc n. B k) = B 0 * ?P" by (rule prod.lessThan_Suc_shift)
  have tP: "t < B 0 * ?P" using Suc.prems unfolding P .
  then have B0: "0 < B 0" by (cases "B 0") simp_all
  have lt: "t div B 0 < ?P" using tP by (simp add: less_mult_imp_div_less mult.commute)
  have "(\<forall>k<Suc n. Suc (digit B t k) = B k) \<longleftrightarrow>
      Suc (t mod B 0) = B 0 \<and> (\<forall>k<n. Suc (digit (\<lambda>k. B (Suc k)) (t div B 0) k) = B (Suc k))"
    by (auto simp: less_Suc_eq_0_disj)
  also have "\<dots> \<longleftrightarrow> Suc (t mod B 0) = B 0 \<and> Suc (t div B 0) = ?P"
    using Suc.IH [OF lt] by simp
  also have "\<dots> \<longleftrightarrow> Suc t = B 0 * ?P"
  proof
    assume h: "Suc (t mod B 0) = B 0 \<and> Suc (t div B 0) = ?P"
    have "Suc t = B 0 * (t div B 0) + Suc (t mod B 0)" by simp
    then show "Suc t = B 0 * ?P" using h by (metis mult_Suc_right add.commute)
  next
    assume h: "Suc t = B 0 * ?P"
    then have m: "Suc t mod B 0 = 0" by simp
    then have "Suc (t mod B 0) = B 0" by (auto simp: mod_Suc split: if_splits)
    moreover have "Suc t div B 0 = Suc (t div B 0)" using m by (simp add: div_Suc)
    then have "Suc (t div B 0) = ?P" using h B0 by simp
    ultimately show "Suc (t mod B 0) = B 0 \<and> Suc (t div B 0) = ?P" by simp
  qed
  finally show ?case by (simp only: P)
qed

text \<open>The step of the address at the innermost loop that is not at its last iteration.\<close>

lemma nest_addr_Suc:
  assumes "k < 4" "Suc (digit B t k) \<noteq> B k" "\<And>m. m < k \<Longrightarrow> Suc (digit B t m) = B m"
  shows "nest_addr p B st (Suc t) = nest_addr p B st t + (st k - (\<Sum>m<k. st m * of_nat (B m - 1)))"
proof -
  let ?d = "\<lambda>i. of_nat (digit B t i) * st i" and ?d' = "\<lambda>i. of_nat (digit B (Suc t) i) * st i"
  have split: "(\<Sum>i<4. f i) = (\<Sum>i<k. f i) + f k + (\<Sum>i\<in>{Suc k..<4}. f i)" for f :: "nat \<Rightarrow> u32"
  proof -
    have "{..<4} = {..<k} \<union> {k} \<union> {Suc k..<4}" using assms(1) by auto
    then have "(\<Sum>i<4. f i) = sum f ({..<k} \<union> {k} \<union> {Suc k..<4})" by simp
    also have "\<dots> = (\<Sum>i<k. f i) + f k + (\<Sum>i\<in>{Suc k..<4}. f i)"
      by (subst sum.union_disjoint; (subst sum.union_disjoint)?; auto)
    finally show ?thesis .
  qed
  have lo: "(\<Sum>i<k. ?d' i) = 0" by (intro sum.neutral) (use assms(3) in \<open>auto simp: digit_Suc\<close>)
  have lo': "(\<Sum>i<k. ?d i) = (\<Sum>m<k. st m * of_nat (B m - 1))"
  proof (rule sum.cong)
    fix m assume "m \<in> {..<k}"
    then have "digit B t m = B m - 1" using assms(3) [of m] by (metis diff_Suc_1 lessThan_iff)
    then show "?d m = st m * of_nat (B m - 1)" by simp
  qed simp
  have mid: "?d' k = ?d k + st k" using assms(2,3) by (simp add: digit_Suc algebra_simps)
  have hi: "(\<Sum>i\<in>{Suc k..<4}. ?d' i) = (\<Sum>i\<in>{Suc k..<4}. ?d i)"
  proof (rule sum.cong)
    fix i assume "i \<in> {Suc k..<4}"
    then have "\<not> (\<forall>m<i. Suc (digit B t m) = B m)" using assms(2) by force
    then show "?d' i = ?d i" by (simp only: digit_Suc if_False)
  qed simp
  show ?thesis
    unfolding nest_addr_def split [of ?d'] split [of ?d] lo lo' mid hi by (simp add: algebra_simps)
qed

lemma iters_bounds: "0 < iters j i" "iters j i \<le> 4294967296"
proof -
  have "unat (j_bound j i) < 4294967296" by simp
  then show "0 < iters j i" "iters j i \<le> 4294967296" by (simp_all add: iters_def del: unat_u32_bound)
qed

lemma at_pos_last:
  assumes "at_pos j st t s" "\<not> j_indir j" "i < 4"
  shows "loop_last s i \<longleftrightarrow> Suc (digit (iters j) t i) = iters j i"
proof -
  have d: "digit (iters j) t i < iters j i" by (rule digit_less) (rule iters_bounds)
  have ix: "index_q s i = of_nat (digit (iters j) t i)" using assms(1,3) by (simp add: at_pos_def)
  have l: "loop_last s i \<longleftrightarrow> index_q s i = j_bound j i \<or> j_dims j < i"
    using assms(1,2) by (cases i) (auto simp: loop_last_def at_pos_def Let_def)
  show ?thesis
  proof (cases "i \<le> j_dims j")
    case True
    have "digit (iters j) t i < 4294967296" using d iters_bounds(2) [of j i] by linarith
    then have "unat (index_q s i) = digit (iters j) t i" by (simp add: ix unat_of_nat_u32)
    then show ?thesis using True by (auto simp: l iters_def word_unat_eq_iff)
  next
    case False
    then show ?thesis using d by (simp add: l iters_def)
  qed
qed

lemma loop_enabled_iff: "loop_enabled s i \<longleftrightarrow> (\<forall>k<i. loop_last s k)"
  by (induction i) (auto simp: less_Suc_eq)

lemma selected_stride_at:
  assumes "k < 4" "\<not> loop_last s k" "\<And>m. m < k \<Longrightarrow> loop_last s m"
  shows "selected_stride s = j_stride (active s) k"
proof -
  have e: "loop_enabled s i \<longleftrightarrow> i \<le> k" for i
    using assms(2,3) by (auto simp: loop_enabled_iff) (meson not_le)
  have "k = 0 \<or> k = 1 \<or> k = 2 \<or> k = 3" using assms(1) by linarith
  then show ?thesis
    unfolding selected_stride_def e NumLoops_def by (auto simp: upt_rec eval_nat_numeral)
qed

lemma at_pos_step:
  assumes p: "at_pos j st t s" and j: "\<not> j_indir j" "job_strides j st" "\<not> j_done j"
    and t: "Suc t < (\<Prod>k<4. iters j k)"
  shows "at_pos j st (Suc t) (agen_step s)"
proof -
  let ?B = "iters j"
  have "\<not> (\<forall>k<4. Suc (digit ?B t k) = ?B k)" using last_position [of t ?B 4] t by simp
  then obtain k where k: "k < 4" "Suc (digit ?B t k) \<noteq> ?B k" by auto
  define m where "m = (LEAST k. Suc (digit ?B t k) \<noteq> ?B k)"
  have m: "Suc (digit ?B t m) \<noteq> ?B m" unfolding m_def using k(2) by (rule LeastI)
  have lo: "Suc (digit ?B t i) = ?B i" if "i < m" for i using that unfolding m_def by (meson not_less_Least)
  have m4: "m < 4" using Least_le [of "\<lambda>k. Suc (digit ?B t k) \<noteq> ?B k", OF k(2)] k(1) by (simp add: m_def)
  note last = at_pos_last [OF p j(1)]
  have en: "loop_enabled s i \<longleftrightarrow> (\<forall>k<i. Suc (digit ?B t k) = ?B k)" if "i \<le> 4" for i
    using that last by (auto simp: loop_enabled_iff)
  have act: "active s = j\<lparr>j_ptr := nest_addr (j_ptr j) ?B st t\<rparr>" using p by (simp add: at_pos_def)
  have dims: "m \<le> j_dims j"
    using m digit_less [of "iters j" m t, OF iters_bounds(1)] by (auto simp: iters_def split: if_splits)
  have sel: "selected_stride s = st m - (\<Sum>k<m. st k * of_nat (?B k - 1))"
    using selected_stride_at [OF m4, of s] last m m4 lo j(2) dims by (simp add: act job_strides_def)
  have nd: "\<not> ssr_done s" using en [of 4] k by (auto simp: ssr_done_def NumLoops_def)
  have na: "nest_addr (j_ptr j) ?B st (Suc t) = nest_addr (j_ptr j) ?B st t + selected_stride s"
    unfolding sel by (rule nest_addr_Suc [OF m4 m lo])
  have ix: "index_q s i = of_nat (digit ?B t i)" if "i < 4" for i using p that by (simp add: at_pos_def)
  have "(if i < NumLoops \<and> loop_enabled s i then (if loop_last s i then 0 else index_q s i + 1)
      else index_q s i) = of_nat (digit ?B (Suc t) i)" if "i < 4" for i
    using that en [of i] last [of i] ix [of i] by (auto simp: NumLoops_def digit_Suc)
  moreover have "j_done (shadow s)" using p by (simp add: at_pos_def)
  ultimately show ?thesis
    using nd j(3) by (simp add: at_pos_def agen_step_def load_job_def act na)
qed

lemma at_pos_end:
  assumes p: "at_pos j st t s" and j: "\<not> j_indir j" and t: "Suc t = (\<Prod>k<4. iters j k)"
  shows "j_done (active (agen_step s))"
proof -
  have "\<forall>k<4. Suc (digit (iters j) t k) = iters j k" using last_position [of t "iters j" 4] t by simp
  then have "ssr_done s"
    using at_pos_last [OF p j] by (simp add: ssr_done_def NumLoops_def loop_enabled_iff)
  moreover have "j_done (shadow s)" using p by (simp add: at_pos_def)
  ultimately show ?thesis by (simp add: agen_step_def load_job_def)
qed

lemma stream_from:
  assumes j: "\<not> j_indir j" "job_strides j st" "\<not> j_done j"
    and "at_pos j st t s" "t < (\<Prod>k<4. iters j k)"
    "(\<Prod>k<4. iters j k) - t \<le> n"
  shows "\<exists>s'. agen_stream n s =
      (map (nest_addr (j_ptr j) (iters j) st) [t..<(\<Prod>k<4. iters j k)], s') \<and> j_done (active s')"
  using assms(4-)
proof (induction n arbitrary: t s)
  case 0
  then show ?case by simp
next
  case (Suc n)
  let ?N = "\<Prod>k<4. iters j k"
  have act: "active s = j\<lparr>j_ptr := nest_addr (j_ptr j) (iters j) st t\<rparr>"
    using Suc.prems(1) by (simp add: at_pos_def)
  have upt: "[t..<?N] = t # [Suc t..<?N]" using Suc.prems(2) by (simp add: upt_conv_Cons)
  show ?case
  proof (cases "Suc t < ?N")
    case True
    have p: "at_pos j st (Suc t) (agen_step s)" by (rule at_pos_step [OF Suc.prems(1) j True])
    have "?N - Suc t \<le> n" using Suc.prems(3) by linarith
    from Suc.IH [OF p True this] obtain s' where
      "agen_stream n (agen_step s) = (map (nest_addr (j_ptr j) (iters j) st) [Suc t..<?N], s')"
      "j_done (active s')" by auto
    then show ?thesis using j(3) by (simp add: act upt)
  next
    case False
    then have e: "Suc t = ?N" using Suc.prems(2) by linarith
    then have d: "j_done (active (agen_step s))" by (rule at_pos_end [OF Suc.prems(1) j(1)])
    then have "agen_stream n (agen_step s) = ([], agen_step s)" by (cases n) simp_all
    then show ?thesis using j(3) d e upt by (auto simp: act)
  qed
qed

text \<open>A job that has just been started walks its whole nest.\<close>

definition just_started :: "ssr_job \<Rightarrow> ssr \<Rightarrow> bool" where
  "just_started j s \<longleftrightarrow> active s = j \<and> \<not> j_done j \<and> j_done (shadow s) \<and> (\<forall>i<4. index_q s i = 0)"

lemma digit_0 [simp]: "digit B 0 i = 0"
  by (induction i arbitrary: B) auto

lemma nest_addr_0 [simp]: "nest_addr p B st 0 = p"
  by (simp add: nest_addr_def)

lemma stream_started:
  assumes "just_started j s" "\<not> j_indir j" "job_strides j st" "(\<Prod>k<4. iters j k) \<le> n"
  shows "\<exists>s'. agen_stream n s =
      (map (nest_addr (j_ptr j) (iters j) st) [0..<(\<Prod>k<4. iters j k)], s') \<and> j_done (active s')"
proof -
  have "at_pos j st 0 s" using assms(1) by (simp add: at_pos_def just_started_def)
  moreover have "0 < (\<Prod>k<4. iters j k)" by (intro prod_pos) (simp add: iters_bounds)
  ultimately show ?thesis
    using assms by (intro stream_from) (simp_all add: just_started_def)
qed

text \<open>A nest of two lists as one list.\<close>

lemma nested_list:
  "0 < b \<Longrightarrow> concat (map (\<lambda>i. map (f i) [0..<b]) [0..<a]) =
     map (\<lambda>t. f (t div b) (t mod b)) [0..<a * b]"
proof (induction a)
  case (Suc a)
  have "[0..<Suc a * b] = [0..<a * b] @ [a * b..<a * b + b]"
    by (metis add.commute le_add1 mult_Suc upt_add_eq_append zero_le)
  moreover have "map (\<lambda>t. f (t div b) (t mod b)) [a * b..<a * b + b] = map (f a) [0..<b]"
  proof -
    have "[a * b..<a * b + b] = map (\<lambda>i. i + a * b) [0..<b]" by (simp add: map_add_upt add.commute)
    then show ?thesis using Suc.prems by simp
  qed
  ultimately show ?case using Suc by simp
qed simp

text \<open>
  The reference: the addresses of an affine loop nest, given by bound and stride of each loop
  from the outermost to the innermost.
\<close>

fun affine_nest :: "u32 \<Rightarrow> (nat \<times> u32) list \<Rightarrow> u32 list" where
  "affine_nest p [] = [p]"
| "affine_nest p ((b, s) # ls) = concat (map (\<lambda>i. affine_nest (p + of_nat i * s) ls) [0..<b])"

lemma affine_nest_1 [simp]: "affine_nest p ((Suc 0, s) # ls) = affine_nest p ls"
  by simp

lemma concat_map_concat: "concat (map f (concat xss)) = concat (map (\<lambda>xs. concat (map f xs)) xss)"
  by (induction xss) auto

lemma affine_nest_snoc:
  "affine_nest p (ls @ [(b, s)]) =
     concat (map (\<lambda>q. map (\<lambda>i. q + of_nat i * s) [0..<b]) (affine_nest p ls))"
proof (induction ls arbitrary: p)
  case Nil
  then show ?case by simp
next
  case (Cons l ls)
  then show ?case by (cases l) (simp add: concat_map_concat comp_def)
qed

lemma affine_nest_digits:
  assumes "\<And>i. 0 < B i"
  shows "affine_nest p (rev (map (\<lambda>i. (B i, st i)) [0..<n])) =
    map (\<lambda>t. p + (\<Sum>i<n. of_nat (digit B t i) * st i)) [0..<(\<Prod>k<n. B k)]"
  using assms
proof (induction n arbitrary: B st)
  case 0
  then show ?case by simp
next
  case (Suc n)
  let ?B = "\<lambda>k. B (Suc k)" and ?st = "\<lambda>k. st (Suc k)"
  let ?A = "\<lambda>t. p + (\<Sum>i<n. of_nat (digit ?B t i) * ?st i)"
  have "rev (map (\<lambda>i. (B i, st i)) [0..<Suc n]) =
      rev (map (\<lambda>i. (?B i, ?st i)) [0..<n]) @ [(B 0, st 0)]"
    by (simp add: upt_conv_Cons map_Suc_upt [symmetric] comp_def del: upt_Suc)
  then have "affine_nest p (rev (map (\<lambda>i. (B i, st i)) [0..<Suc n])) =
      concat (map (\<lambda>t. map (\<lambda>i. ?A t + of_nat i * st 0) [0..<B 0]) [0..<(\<Prod>k<n. ?B k)])"
    using Suc.IH [of ?B ?st] Suc.prems by (simp add: affine_nest_snoc comp_def del: upt_Suc)
  also have "\<dots> = map (\<lambda>t. ?A (t div B 0) + of_nat (t mod B 0) * st 0) [0..<(\<Prod>k<n. ?B k) * B 0]"
    by (rule nested_list [OF Suc.prems])
  also have "(\<Prod>k<n. ?B k) * B 0 = (\<Prod>k<Suc n. B k)"
    by (simp only: prod.lessThan_Suc_shift mult.commute)
  also have "map (\<lambda>t. ?A (t div B 0) + of_nat (t mod B 0) * st 0) [0..<\<dots>] =
      map (\<lambda>t. p + (\<Sum>i<Suc n. of_nat (digit B t i) * st i)) [0..<(\<Prod>k<Suc n. B k)]"
    by (intro map_cong refl) (simp only: sum.lessThan_Suc_shift digit.simps, simp add: algebra_simps)
  finally show ?case .
qed

lemma stream_affine:
  assumes "just_started j s" "\<not> j_indir j" "job_strides j st" "(\<Prod>k<4. iters j k) \<le> n"
  shows "\<exists>s'. agen_stream n s = (affine_nest (j_ptr j)
      [(iters j 3, st 3), (iters j 2, st 2), (iters j 1, st 1), (iters j 0, st 0)], s') \<and>
    j_done (active s')"
proof -
  have u: "rev (map (\<lambda>i. (iters j i, st i)) [0..<4]) =
      [(iters j 3, st 3), (iters j 2, st 2), (iters j 1, st 1), (iters j 0, st 0)]"
    by (simp add: upt_rec eval_nat_numeral)
  have n: "nest_addr (j_ptr j) (iters j) st =
      (\<lambda>t. j_ptr j + (\<Sum>i<4. of_nat (digit (iters j) t i) * st i))"
    by (intro ext) (rule nest_addr_def)
  show ?thesis
    using stream_started [OF assms] affine_nest_digits [of "iters j" "j_ptr j" st 4]
    unfolding u n by (simp only: iters_bounds)
qed

section \<open>Lemmas on the configuration\<close>

lemma bit_low_dptr: "dptr v \<Longrightarrow> n < 3 \<Longrightarrow> \<not> bit v n"
proof -
  assume "dptr v" "n < 3"
  then have "unat (take_bit 3 v) = 0" 
    by (simp only: unsigned_take_bit_eq) (simp add: dptr_mod take_bit_eq_mod)
  then have "take_bit 3 v = 0" by (simp add: unat_eq_zero)
  then show ?thesis using \<open>n < 3\<close> by (metis bit_0_eq bit_take_bit_iff bot_apply bot_bool_def)
qed

lemma mask_dptr: "dptr v \<Longrightarrow> v AND WordAddrMask = v"
proof (rule bit_word_eqI)
  fix n :: nat
  assume "dptr v" "n < LENGTH(32)"
  have w: "WordAddrMask = NOT (mask 3)" by (simp add: WordAddrMask_def mask_eq_exp_minus_1)
  show "bit (v AND WordAddrMask) n = bit v n"
    unfolding w using bit_low_dptr [OF \<open>dptr v\<close>, of n] \<open>n < LENGTH(32)\<close>
    by (cases "n < 3") (auto simp: bit_simps)
qed

lemma dptr_dvd: "dptr v \<longleftrightarrow> (\<exists>k. v = 8 * k)"
proof
  assume "dptr v"
  then have "unat v = 8 * (unat v div 8)"
    using mult_div_mod_eq [of 8 "unat v"] by (simp add: dptr_mod)
  then have "of_nat (unat v) = (8 * of_nat (unat v div 8) :: u32)" by (metis of_nat_mult of_nat_numeral)
  then show "\<exists>k. v = 8 * k" by auto
next
  have "dptr (0 :: u32)" by (simp add: dptr_mod)
  then show "\<exists>k. v = 8 * k \<Longrightarrow> dptr v" using dptr_add [of 0] by auto
qed

lemma dptr_diff [simp]: "dptr a \<Longrightarrow> dptr b \<Longrightarrow> dptr (a - b)"
  by (auto simp: dptr_dvd) (metis right_diff_distrib)

lemma dptr_plus [simp]: "dptr a \<Longrightarrow> dptr b \<Longrightarrow> dptr (a + b)"
  by (auto simp: dptr_dvd) (metis distrib_left)

lemma dptr_mult [simp]: "dptr a \<Longrightarrow> dptr (a * b)"
  by (auto simp: dptr_dvd mult.assoc)

text \<open>An idle data mover takes a write into its shadow and active registers at once.\<close>

definition ssr_idle :: "ssr \<Rightarrow> bool" where
  "ssr_idle s \<longleftrightarrow> j_done (active s) \<and> shadow s = active s \<and> (\<forall>i<4. index_q s i = 0)"

definition prog :: "ssr_job \<Rightarrow> ssr \<Rightarrow> ssr" where
  "prog j s = s\<lparr>active := j, shadow := j\<lparr>j_done := True\<rparr>\<rparr>"

lemma prog_simps [simp]:
  "active (prog j s) = j" "prog j' (prog j s) = prog j' s" "index_q (prog j s) = index_q s"
  "rep_q (prog j s) = rep_q s"
  by (simp_all add: prog_def)

lemma idle_prog [simp]: "ssr_idle s \<Longrightarrow> j_done j \<Longrightarrow> ssr_idle (prog j s)"
  by (simp add: ssr_idle_def prog_def)

lemma started_prog: "ssr_idle s \<Longrightarrow> \<not> j_done j \<Longrightarrow> just_started j (prog j s)"
  by (simp add: ssr_idle_def prog_def just_started_def)

lemma cfg_write_idle: "ssr_idle s \<Longrightarrow> ssr_cfg_write w v s = Some (prog (cfg_word_sd w v (active s)) s)"
  by (auto simp: ssr_cfg_write_def load_job_def ssr_idle_def prog_def)

lemma idle_done [simp]: "ssr_idle s \<Longrightarrow> j_done (active s)"
  by (simp add: ssr_idle_def)

lemma dm_cases: "unat (dm :: u32) < 3 \<Longrightarrow> dm = 0 \<or> dm = 1 \<or> dm = 2"
  by (auto simp: word_unat_eq_iff)

definition ssr_regs :: "u32 set" where
  "ssr_regs = {1, 2, 3, 4, 5, 6, 7, 8, 9, 10, 11, 16, 24, 25, 26, 27, 28, 29, 30, 31}"

lemma imm_decode:
  assumes "unat dm < 3" "reg \<in> ssr_regs"
  shows "(dm OR push_bit 5 reg) AND 31 = dm" "drop_bit 5 (dm OR push_bit 5 reg) = reg" "dm \<noteq> 31"
  using dm_cases [OF assms(1)] assms(2) by (auto simp: ssr_regs_def)

lemma write_idle:
  assumes "unat dm < 3" "reg \<in> ssr_regs" "ssr_idle (ssrs s (unat dm))"
  shows "write_ssr_cfg reg dm v s =
    Some (s\<lparr>ssrs := (ssrs s)(unat dm := prog (cfg_word_sd reg v (active (ssrs s (unat dm)))) (ssrs s (unat dm)))\<rparr>)"
  unfolding write_ssr_cfg_def scfgwi_def Let_def imm_decode [OF assms(1,2)]
  using assms(1) imm_decode(3) [OF assms(1,2)]
  by (simp add: NumSsrs_def write_one_def cfg_write_idle [OF assms(3)])

text \<open>The effect of a write to each register.\<close>

lemma cfg_words:
  "cfg_word_sd 1 v j = j\<lparr>j_rep := v\<rparr>"
  "cfg_word_sd 2 v j = j\<lparr>j_bound := (j_bound j)(0 := v)\<rparr>"
  "cfg_word_sd 3 v j = j\<lparr>j_bound := (j_bound j)(1 := v)\<rparr>"
  "cfg_word_sd 4 v j = j\<lparr>j_bound := (j_bound j)(2 := v)\<rparr>"
  "cfg_word_sd 5 v j = j\<lparr>j_bound := (j_bound j)(3 := v)\<rparr>"
  "cfg_word_sd 6 v j = j\<lparr>j_stride := (j_stride j)(0 := v AND WordAddrMask)\<rparr>"
  "cfg_word_sd 7 v j = j\<lparr>j_stride := (j_stride j)(1 := v AND WordAddrMask)\<rparr>"
  "cfg_word_sd 8 v j = j\<lparr>j_stride := (j_stride j)(2 := v AND WordAddrMask)\<rparr>"
  "cfg_word_sd 9 v j = j\<lparr>j_stride := (j_stride j)(3 := v AND WordAddrMask)\<rparr>"
  by (simp_all add: cfg_word_sd_def)

lemma cfg_starts_rd:
  assumes "dim = 0 \<or> dim = 1 \<or> dim = 2 \<or> dim = 3"
  shows "cfg_word_sd (24 + dim) v j =
     j\<lparr>j_ptr := v, j_done := False, j_write := False, j_dims := unat dim, j_indir := False\<rparr>"
  using assms by (elim disjE) (simp_all add: cfg_word_sd_def)

lemma cfg_starts_wr:
  assumes "dim = 0 \<or> dim = 1 \<or> dim = 2 \<or> dim = 3"
  shows "cfg_word_sd (28 + dim) v j =
     j\<lparr>j_ptr := v, j_done := False, j_write := True, j_dims := unat dim, j_indir := False\<rparr>"
  using assms by (elim disjE) (simp_all add: cfg_word_sd_def)

text \<open>The jobs that the loop functions write, up to the start of the stream.\<close>

definition job_1d :: "u32 \<Rightarrow> u32 \<Rightarrow> ssr_job \<Rightarrow> ssr_job" where
  "job_1d b0 s0 j = j\<lparr>j_bound := (j_bound j)(0 := b0 - 1), j_stride := (j_stride j)(0 := s0)\<rparr>"

definition job_2d :: "u32 \<Rightarrow> u32 \<Rightarrow> u32 \<Rightarrow> u32 \<Rightarrow> ssr_job \<Rightarrow> ssr_job" where
  "job_2d b0 b1 s0 s1 j = j\<lparr>j_bound := (j_bound j)(0 := b0 - 1, 1 := b1 - 1),
     j_stride := (j_stride j)(0 := s0, 1 := s1 - s0 * (b0 - 1))\<rparr>"

definition job_3d :: "u32 \<Rightarrow> u32 \<Rightarrow> u32 \<Rightarrow> u32 \<Rightarrow> u32 \<Rightarrow> u32 \<Rightarrow> ssr_job \<Rightarrow> ssr_job" where
  "job_3d b0 b1 b2 s0 s1 s2 j = j\<lparr>j_bound := (j_bound j)(0 := b0 - 1, 1 := b1 - 1, 2 := b2 - 1),
     j_stride := (j_stride j)(0 := s0, 1 := s1 - s0 * (b0 - 1),
       2 := s2 - (s0 * (b0 - 1) + s1 * (b1 - 1)))\<rparr>"

definition job_4d ::
  "u32 \<Rightarrow> u32 \<Rightarrow> u32 \<Rightarrow> u32 \<Rightarrow> u32 \<Rightarrow> u32 \<Rightarrow> u32 \<Rightarrow> u32 \<Rightarrow> ssr_job \<Rightarrow> ssr_job" where
  "job_4d b0 b1 b2 b3 s0 s1 s2 s3 j =
     j\<lparr>j_bound := (j_bound j)(0 := b0 - 1, 1 := b1 - 1, 2 := b2 - 1, 3 := b3 - 1),
       j_stride := (j_stride j)(0 := s0, 1 := s1 - s0 * (b0 - 1),
         2 := s2 - (s0 * (b0 - 1) + s1 * (b1 - 1)),
         3 := s3 - (s0 * (b0 - 1) + s1 * (b1 - 1) + s2 * (b2 - 1)))\<rparr>"

lemmas job_defs = job_1d_def job_2d_def job_3d_def job_4d_def

text \<open>Programming data mover \<open>dm\<close> with job \<open>j\<close>.\<close>

definition set_job :: "u32 \<Rightarrow> ssr_job \<Rightarrow> ssr_core \<Rightarrow> ssr_core" where
  "set_job dm j s = s\<lparr>ssrs := (ssrs s)(unat dm := prog j (ssrs s (unat dm)))\<rparr>"

lemma set_job_simps [simp]:
  "ssrs (set_job dm j s) = (ssrs s)(unat dm := prog j (ssrs s (unat dm)))"
  "set_job dm j' (set_job dm j s) = set_job dm j' s"
  "ssr_en (set_job dm j s) = ssr_en s" "sc_mask (set_job dm j s) = sc_mask s"
  by (simp_all add: set_job_def)

lemma write_set_job:
  assumes "unat dm < 3" "reg \<in> ssr_regs" "ssr_idle (ssrs s (unat dm))"
  shows "write_ssr_cfg reg dm v s = Some (set_job dm (cfg_word_sd reg v (active (ssrs s (unat dm)))) s)"
  by (simp add: write_idle [OF assms] set_job_def)

lemma loop_jobs:
  assumes "unat dm < 3" "ssr_idle (ssrs s (unat dm))" "dptr s0"
  defines "j \<equiv> active (ssrs s (unat dm))"
  shows "snrt_ssr_loop_1d dm b0 s0 s = Some (set_job dm (job_1d b0 s0 j) s)"
    and "dptr s1 \<Longrightarrow> snrt_ssr_loop_2d dm b0 b1 s0 s1 s = Some (set_job dm (job_2d b0 b1 s0 s1 j) s)"
    and "dptr s1 \<Longrightarrow> dptr s2 \<Longrightarrow> snrt_ssr_loop_3d dm b0 b1 b2 s0 s1 s2 s =
      Some (set_job dm (job_3d b0 b1 b2 s0 s1 s2 j) s)"
    and "dptr s1 \<Longrightarrow> dptr s2 \<Longrightarrow> dptr s3 \<Longrightarrow> snrt_ssr_loop_4d dm b0 b1 b2 b3 s0 s1 s2 s3 s =
      Some (set_job dm (job_4d b0 b1 b2 b3 s0 s1 s2 s3 j) s)"
  using assms(1,2,3)
  by (simp_all add: snrt_ssr_loop_1d_def snrt_ssr_loop_2d_def snrt_ssr_loop_3d_def
      snrt_ssr_loop_4d_def Let_def write_set_job ssr_reg_defs ssr_regs_def cfg_words
      mask_dptr job_defs j_def)

lemma read_write_jobs:
  assumes "unat dm < 3" "ssr_idle (ssrs s (unat dm))" "dim = 0 \<or> dim = 1 \<or> dim = 2 \<or> dim = 3"
  defines "j \<equiv> active (ssrs s (unat dm))"
  shows "snrt_ssr_read dm dim ptr s = Some (set_job dm
      (j\<lparr>j_ptr := ptr, j_done := False, j_write := False, j_dims := unat dim, j_indir := False\<rparr>) s)"
    and "snrt_ssr_write dm dim ptr s = Some (set_job dm
      (j\<lparr>j_ptr := ptr, j_done := False, j_write := True, j_dims := unat dim, j_indir := False\<rparr>) s)"
proof -
  have "24 + dim \<in> ssr_regs" "28 + dim \<in> ssr_regs" using assms(3) by (auto simp: ssr_regs_def)
  then show "snrt_ssr_read dm dim ptr s = Some (set_job dm
      (j\<lparr>j_ptr := ptr, j_done := False, j_write := False, j_dims := unat dim, j_indir := False\<rparr>) s)"
    "snrt_ssr_write dm dim ptr s = Some (set_job dm
      (j\<lparr>j_ptr := ptr, j_done := False, j_write := True, j_dims := unat dim, j_indir := False\<rparr>) s)"
    by (simp_all only: snrt_ssr_read_def snrt_ssr_write_def SNRT_SSR_REG_RPTR_def
        SNRT_SSR_REG_WPTR_def write_set_job [OF assms(1) _ assms(2)] cfg_starts_rd [OF assms(3)]
        cfg_starts_wr [OF assms(3)] j_def)
qed

lemma repeat_job:
  assumes "unat dm < 3" "ssr_idle (ssrs s (unat dm))"
  shows "snrt_ssr_repeat dm count s =
    Some (set_job dm ((active (ssrs s (unat dm)))\<lparr>j_rep := count - 1\<rparr>) s)"
  using assms by (simp add: snrt_ssr_repeat_def write_set_job ssr_reg_defs ssr_regs_def cfg_words)

section \<open>Streams of the programmed jobs\<close>

definition start_job :: "bool \<Rightarrow> nat \<Rightarrow> u32 \<Rightarrow> ssr_job \<Rightarrow> ssr_job" where
  "start_job wr d ptr j =
     j\<lparr>j_ptr := ptr, j_done := False, j_write := wr, j_dims := d, j_indir := False\<rparr>"

definition st4 :: "u32 \<Rightarrow> u32 \<Rightarrow> u32 \<Rightarrow> u32 \<Rightarrow> nat \<Rightarrow> u32" where
  "st4 s0 s1 s2 s3 = (\<lambda>_. s3)(0 := s0, 1 := s1, 2 := s2)"

lemma unat_dec: "b \<noteq> 0 \<Longrightarrow> unat (b - 1 :: u32) + 1 = unat b"
proof -
  assume "b \<noteq> 0"
  then have "1 \<le> b" by (simp add: word_le_nat_alt unat_gt_0 Suc_le_eq)
  then show ?thesis using \<open>b \<noteq> 0\<close> by (simp add: unat_sub unat_gt_0)
qed

lemma iters_jobs:
  assumes "b0 \<noteq> 0"
  shows "iters (start_job w 0 p (job_1d b0 s0 j)) = (\<lambda>_. 1)(0 := unat b0)"
    and "b1 \<noteq> 0 \<Longrightarrow> iters (start_job w 1 p (job_2d b0 b1 s0 s1 j)) = (\<lambda>_. 1)(0 := unat b0, 1 := unat b1)"
    and "b1 \<noteq> 0 \<Longrightarrow> b2 \<noteq> 0 \<Longrightarrow> iters (start_job w 2 p (job_3d b0 b1 b2 s0 s1 s2 j)) =
      (\<lambda>_. 1)(0 := unat b0, 1 := unat b1, 2 := unat b2)"
    and "b1 \<noteq> 0 \<Longrightarrow> b2 \<noteq> 0 \<Longrightarrow> b3 \<noteq> 0 \<Longrightarrow> iters (start_job w 3 p (job_4d b0 b1 b2 b3 s0 s1 s2 s3 j)) =
      (\<lambda>_. 1)(0 := unat b0, 1 := unat b1, 2 := unat b2, 3 := unat b3)"
  using assms unat_dec
  by (auto intro!: ext simp: iters_def start_job_def job_defs)

lemma le_cases: "(i::nat) \<le> Suc 0 \<longleftrightarrow> i = 0 \<or> i = 1" "i \<le> 2 \<longleftrightarrow> i = 0 \<or> i = 1 \<or> i = 2"
  "i \<le> 3 \<longleftrightarrow> i = 0 \<or> i = 1 \<or> i = 2 \<or> i = 3"
  by auto

lemma sums_below: "(\<Sum>k<0. f k) = 0" "(\<Sum>k<Suc 0. f k) = f 0" "(\<Sum>k<2. f k) = f 0 + f 1"
  "(\<Sum>k<3. f k) = f 0 + f 1 + (f 2 :: u32)" for f :: "nat \<Rightarrow> u32"
  by (simp_all add: eval_nat_numeral)

lemma strides_jobs:
  assumes "b0 \<noteq> 0"
  shows "job_strides (start_job w 0 p (job_1d b0 s0 j)) (st4 s0 s1 s2 s3)"
    and "b1 \<noteq> 0 \<Longrightarrow> job_strides (start_job w 1 p (job_2d b0 b1 s0 s1 j)) (st4 s0 s1 s2 s3)"
    and "b1 \<noteq> 0 \<Longrightarrow> b2 \<noteq> 0 \<Longrightarrow>
      job_strides (start_job w 2 p (job_3d b0 b1 b2 s0 s1 s2 j)) (st4 s0 s1 s2 s3)"
    and "b1 \<noteq> 0 \<Longrightarrow> b2 \<noteq> 0 \<Longrightarrow> b3 \<noteq> 0 \<Longrightarrow>
      job_strides (start_job w 3 p (job_4d b0 b1 b2 b3 s0 s1 s2 s3 j)) (st4 s0 s1 s2 s3)"
proof -
  have d: "of_nat (unat b - Suc 0) = b - 1" if "b \<noteq> 0" for b :: u32
    using unat_dec [OF that] by (metis One_nat_def add_diff_cancel_right' of_nat_unat ucast_id)
  note j = iters_jobs [OF assms] and sd = start_job_def job_defs st4_def
  show "job_strides (start_job w 0 p (job_1d b0 s0 j)) (st4 s0 s1 s2 s3)"
    by (simp add: job_strides_def sd)
  show "job_strides (start_job w 1 p (job_2d b0 b1 s0 s1 j)) (st4 s0 s1 s2 s3)" if "b1 \<noteq> 0"
    unfolding job_strides_def j(2) [OF that]
    by (auto simp: sd le_cases sums_below d assms that)
  show "job_strides (start_job w 2 p (job_3d b0 b1 b2 s0 s1 s2 j)) (st4 s0 s1 s2 s3)"
    if "b1 \<noteq> 0" "b2 \<noteq> 0"
    unfolding job_strides_def j(3) [OF that]
    by (auto simp: sd le_cases sums_below d assms that)
  show "job_strides (start_job w 3 p (job_4d b0 b1 b2 b3 s0 s1 s2 s3 j)) (st4 s0 s1 s2 s3)"
    if "b1 \<noteq> 0" "b2 \<noteq> 0" "b3 \<noteq> 0"
    unfolding job_strides_def j(4) [OF that]
    by (auto simp: sd le_cases sums_below d assms that)
qed

lemma prod4: "(\<Prod>k<4. f k) = f 0 * f 1 * f 2 * (f 3 :: nat)" for f :: "nat \<Rightarrow> nat"
  by (simp add: eval_nat_numeral)

text \<open>The stream of a data mover on which a job has been started.\<close>

lemma stream_job:
  assumes "ssr_idle x" "job_strides (start_job w d p j) (st4 s0 s1 s2 s3)"
    "iters (start_job w d p j) 0 * iters (start_job w d p j) 1 * iters (start_job w d p j) 2 *
     iters (start_job w d p j) 3 \<le> n"
  shows "\<exists>x'. agen_stream n (prog (start_job w d p j) x) =
      (affine_nest p [(iters (start_job w d p j) 3, s3), (iters (start_job w d p j) 2, s2),
         (iters (start_job w d p j) 1, s1), (iters (start_job w d p j) 0, s0)], x') \<and> j_done (active x')"
proof -
  let ?j = "start_job w d p j"
  have "just_started ?j (prog ?j x)" by (intro started_prog assms(1)) (simp add: start_job_def)
  moreover have "\<not> j_indir ?j" "j_ptr ?j = p" by (simp_all add: start_job_def)
  ultimately show ?thesis
    using stream_affine [of ?j "prog ?j x" "st4 s0 s1 s2 s3" n] assms(2,3)
    by (simp add: prod4 st4_def del: affine_nest.simps)
qed

section \<open>Properties\<close>

text \<open>
  C17: a data mover programmed with \<open>snrt_ssr_loop_4d\<close> and started with \<open>snrt_ssr_read\<close> walks
  exactly the addresses of the loop nest with these bounds and strides, innermost loop first,
  and then stops: the stride registers hold the differences that undo the inner loops.
\<close>

theorem ssr_stream_4d:
  assumes "unat dm < 3" "ssr_idle (ssrs st (unat dm))" "dptr s0" "dptr s1" "dptr s2" "dptr s3"
    "b0 \<noteq> 0" "b1 \<noteq> 0" "b2 \<noteq> 0" "b3 \<noteq> 0" "unat b0 * unat b1 * unat b2 * unat b3 \<le> n"
  shows "\<exists>st' x'. do { st \<leftarrow> snrt_ssr_loop_4d dm b0 b1 b2 b3 s0 s1 s2 s3 st;
                   snrt_ssr_read dm SNRT_SSR_4D ptr st } = Some st' \<and>
     agen_stream n (ssrs st' (unat dm)) =
       (affine_nest ptr [(unat b3, s3), (unat b2, s2), (unat b1, s1), (unat b0, s0)], x') \<and>
     j_done (active x')"
proof -
  let ?j = "job_4d b0 b1 b2 b3 s0 s1 s2 s3 (active (ssrs st (unat dm)))"
  have "do { st \<leftarrow> snrt_ssr_loop_4d dm b0 b1 b2 b3 s0 s1 s2 s3 st;
             snrt_ssr_read dm SNRT_SSR_4D ptr st } = Some (set_job dm (start_job False 3 ptr ?j) st)"
    using assms by (simp add: loop_jobs read_write_jobs SNRT_SSR_4D_def start_job_def job_4d_def)
  then show ?thesis
    using stream_job [OF assms(2) strides_jobs(4) [OF assms(7-10), where w = False and p = ptr
          and j = "active (ssrs st (unat dm))" and ?s0.0 = s0 and ?s1.0 = s1 and ?s2.0 = s2 and ?s3.0 = s3], of n]
      assms(11) by (simp add: iters_jobs assms del: affine_nest.simps)
qed

text \<open>
  the same for one, two and three dimensions, for a write stream in the case of two: loops
  above the dimensions of the stream do not iterate, whatever their registers hold.
\<close>

theorem ssr_stream_lower_dims:
  assumes "unat dm < 3" "ssr_idle (ssrs st (unat dm))" "dptr s0" "dptr s1" "dptr s2"
    "b0 \<noteq> 0" "b1 \<noteq> 0" "b2 \<noteq> 0" "unat b0 * unat b1 * unat b2 \<le> n"
  shows "(\<exists>st' x'. do { st \<leftarrow> snrt_ssr_loop_1d dm b0 s0 st; snrt_ssr_read dm SNRT_SSR_1D ptr st } = Some st' \<and>
       agen_stream n (ssrs st' (unat dm)) = (affine_nest ptr [(unat b0, s0)], x') \<and> j_done (active x')) \<and>
     (\<exists>st' x'. do { st \<leftarrow> snrt_ssr_loop_2d dm b0 b1 s0 s1 st; snrt_ssr_write dm SNRT_SSR_2D ptr st } = Some st' \<and>
       agen_stream n (ssrs st' (unat dm)) = (affine_nest ptr [(unat b1, s1), (unat b0, s0)], x') \<and>
       j_done (active x')) \<and>
     (\<exists>st' x'. do { st \<leftarrow> snrt_ssr_loop_3d dm b0 b1 b2 s0 s1 s2 st; snrt_ssr_read dm SNRT_SSR_3D ptr st } = Some st' \<and>
       agen_stream n (ssrs st' (unat dm)) =
         (affine_nest ptr [(unat b2, s2), (unat b1, s1), (unat b0, s0)], x') \<and> j_done (active x'))"
proof (intro conjI)
  let ?a = "active (ssrs st (unat dm))"
  have pos: "0 < unat b1" "0 < unat b2" using assms by (simp_all add: unat_gt_0)
  then have "unat b0 * unat b1 \<le> unat b0 * unat b1 * unat b2" "unat b0 \<le> unat b0 * unat b1" by simp_all
  then have n: "unat b0 \<le> n" "unat b0 * unat b1 \<le> n" using assms(9) by linarith+
  have "do { st \<leftarrow> snrt_ssr_loop_1d dm b0 s0 st; snrt_ssr_read dm SNRT_SSR_1D ptr st } =
      Some (set_job dm (start_job False 0 ptr (job_1d b0 s0 ?a)) st)"
    using assms by (simp add: loop_jobs read_write_jobs SNRT_SSR_1D_def start_job_def job_1d_def)
  then show "\<exists>st' x'. do { st \<leftarrow> snrt_ssr_loop_1d dm b0 s0 st; snrt_ssr_read dm SNRT_SSR_1D ptr st } = Some st' \<and>
       agen_stream n (ssrs st' (unat dm)) = (affine_nest ptr [(unat b0, s0)], x') \<and> j_done (active x')"
    using stream_job [OF assms(2) strides_jobs(1) [OF assms(6), where w = False and p = ptr and j = ?a and ?s0.0 = s0 and ?s1.0 = s1 and ?s2.0 = s2 and ?s3.0 = 0], of n] n
    unfolding iters_jobs(1) [OF assms(6)] by (simp del: affine_nest.simps(2))
  have "do { st \<leftarrow> snrt_ssr_loop_2d dm b0 b1 s0 s1 st; snrt_ssr_write dm SNRT_SSR_2D ptr st } =
      Some (set_job dm (start_job True 1 ptr (job_2d b0 b1 s0 s1 ?a)) st)"
    using assms by (simp add: loop_jobs read_write_jobs SNRT_SSR_2D_def start_job_def job_2d_def)
  then show "\<exists>st' x'. do { st \<leftarrow> snrt_ssr_loop_2d dm b0 b1 s0 s1 st; snrt_ssr_write dm SNRT_SSR_2D ptr st } = Some st' \<and>
       agen_stream n (ssrs st' (unat dm)) = (affine_nest ptr [(unat b1, s1), (unat b0, s0)], x') \<and>
       j_done (active x')"
    using stream_job [OF assms(2) strides_jobs(2) [OF assms(6,7), where w = True and p = ptr and j = ?a and ?s0.0 = s0 and ?s1.0 = s1 and ?s2.0 = s2 and ?s3.0 = 0], of n] n
    unfolding iters_jobs(2) [OF assms(6,7)] by (simp del: affine_nest.simps(2))
  have "do { st \<leftarrow> snrt_ssr_loop_3d dm b0 b1 b2 s0 s1 s2 st; snrt_ssr_read dm SNRT_SSR_3D ptr st } =
      Some (set_job dm (start_job False 2 ptr (job_3d b0 b1 b2 s0 s1 s2 ?a)) st)"
    using assms by (simp add: loop_jobs read_write_jobs SNRT_SSR_3D_def start_job_def job_3d_def)
  then show "\<exists>st' x'. do { st \<leftarrow> snrt_ssr_loop_3d dm b0 b1 b2 s0 s1 s2 st; snrt_ssr_read dm SNRT_SSR_3D ptr st } = Some st' \<and>
       agen_stream n (ssrs st' (unat dm)) =
         (affine_nest ptr [(unat b2, s2), (unat b1, s1), (unat b0, s0)], x') \<and> j_done (active x')"
    using stream_job [OF assms(2) strides_jobs(3) [OF assms(6-8), where w = False and p = ptr and j = ?a and ?s0.0 = s0 and ?s1.0 = s1 and ?s2.0 = s2 and ?s3.0 = 0], of n] assms(9)
    unfolding iters_jobs(3) [OF assms(6-8)] by (simp del: affine_nest.simps(2))
qed

definition idle_ssr :: ssr where
  "idle_ssr =
     (let j = \<lparr>j_stride = (\<lambda>_. 0), j_bound = (\<lambda>_. 0), j_rep = 0, j_ptr = 0, j_idx_cfg = 0, j_idx_base = 0,
               j_done = True, j_write = False, j_dims = 0, j_indir = False\<rparr>
      in \<lparr>active = j, shadow = j, index_q = (\<lambda>_. 0), rep_q = 0\<rparr>)"

definition reset_ssr_core :: ssr_core where
  "reset_ssr_core = \<lparr>ssrs = (\<lambda>_. idle_ssr), ssr_en = False, sc_mask = 0\<rparr>"

lemma reset_idle [simp]: "ssr_idle (ssrs reset_ssr_core i)"
  by (simp add: reset_ssr_core_def idle_ssr_def ssr_idle_def Let_def)

theorem ssr_stream_4d_witness:
  "\<exists>st' x'. do { st \<leftarrow> snrt_ssr_loop_4d 1 2 1 2 1 8 0 64 0 reset_ssr_core;
                 snrt_ssr_read 1 SNRT_SSR_4D 0x1000 st } = Some st' \<and>
     agen_stream 4 (ssrs st' 1) = ([0x1000, 0x1008, 0x1040, 0x1048], x') \<and> j_done (active x')"
  using ssr_stream_4d [of 1 reset_ssr_core 8 0 64 0 2 1 2 1 4 "0x1000"]
  by (simp add: dptr_mod upt_rec)

theorem ssr_stream_lower_dims_witness:
  "\<exists>st' x'. do { st \<leftarrow> snrt_ssr_loop_2d 2 2 2 8 64 reset_ssr_core;
                 snrt_ssr_write 2 SNRT_SSR_2D 0x1000 st } = Some st' \<and>
     agen_stream 4 (ssrs st' 2) = ([0x1000, 0x1008, 0x1040, 0x1048], x') \<and> j_done (active x')"
  using ssr_stream_lower_dims [of 2 reset_ssr_core 8 64 0 2 2 1 4 "0x1000"]
  by (simp add: dptr_mod upt_rec)

end
