(* ===== verification/Mutex.thy ===== *)
theory Mutex
  imports Team
begin

text \<open>
  The mutexes of \<open>sw/runtime/src/sync.h\<close>: the test-and-set and the test-and-test-and-set
  acquire and the release, one atomic instruction at a time, as a transition system over the
  harts that share a mutex variable. A program counter holds the point in the assembly and the
  value of \<open>t0\<close>. The invariant by rule induction gives mutual exclusion.
\<close>

section \<open>Instructions\<close>

datatype mutex_pc =
    Outside
  | Swap u32
  | Swap_Branch u32
  | Test
  | Test_Branch u32
  | Holding

text \<open>The first instruction of each acquire routine that accesses the mutex; \<open>t0\<close> is one.\<close>

definition snrt_mutex_acquire :: mutex_pc where
  "snrt_mutex_acquire = Swap 1"

definition snrt_mutex_ttas_acquire :: mutex_pc where
  "snrt_mutex_ttas_acquire = Test"

text \<open>One instruction of a hart in an acquire routine: new point and new value of the mutex.\<close>

fun acquire_instr :: "mutex_pc \<Rightarrow> u32 \<Rightarrow> mutex_pc \<times> u32" where
  "acquire_instr Test m = (Test_Branch m, m)"
| "acquire_instr (Test_Branch t0) m = (if t0 \<noteq> 0 then Test else Swap 1, m)"
| "acquire_instr (Swap t0) m = (Swap_Branch m, t0)"
| "acquire_instr (Swap_Branch t0) m = (if t0 \<noteq> 0 then Swap t0 else Holding, m)"
| "acquire_instr Outside m = (Outside, m)"
| "acquire_instr Holding m = (Holding, m)"

definition snrt_mutex_release :: "u32 \<Rightarrow> mutex_pc \<times> u32" where
  "snrt_mutex_release m = (Outside, 0)"

section \<open>The harts around a mutex\<close>

record mutex_sys =
  mtx :: u32
  mpc :: "hart \<Rightarrow> mutex_pc"

inductive mutex_step :: "mutex_sys \<Rightarrow> mutex_sys \<Rightarrow> bool" where
  enter_tas: "mpc s h = Outside \<Longrightarrow>
    mutex_step s (s\<lparr>mpc := (mpc s)(h := snrt_mutex_acquire)\<rparr>)"
| enter_ttas: "mpc s h = Outside \<Longrightarrow>
    mutex_step s (s\<lparr>mpc := (mpc s)(h := snrt_mutex_ttas_acquire)\<rparr>)"
| instr: "acquire_instr (mpc s h) (mtx s) = (pc, m) \<Longrightarrow> mpc s h \<noteq> Outside \<Longrightarrow> mpc s h \<noteq> Holding \<Longrightarrow>
    mutex_step s (s\<lparr>mtx := m, mpc := (mpc s)(h := pc)\<rparr>)"
| release: "mpc s h = Holding \<Longrightarrow> snrt_mutex_release (mtx s) = (pc, m) \<Longrightarrow>
    mutex_step s (s\<lparr>mtx := m, mpc := (mpc s)(h := pc)\<rparr>)"

inductive mutex_reach :: "mutex_sys \<Rightarrow> bool" where
  init: "mutex_reach \<lparr>mtx = 0, mpc = (\<lambda>_. Outside)\<rparr>"
| step: "mutex_reach s \<Longrightarrow> mutex_step s s' \<Longrightarrow> mutex_reach s'"

section \<open>The invariant\<close>

text \<open>A hart owns the mutex from the swap that found it free to its release.\<close>

definition owns :: "mutex_sys \<Rightarrow> hart \<Rightarrow> bool" where
  "owns s h \<longleftrightarrow> mpc s h = Holding \<or> mpc s h = Swap_Branch 0"

definition mutex_inv :: "mutex_sys \<Rightarrow> bool" where
  "mutex_inv s \<longleftrightarrow>
     (\<forall>h h'. owns s h \<and> owns s h' \<longrightarrow> h = h') \<and>
     (mtx s \<noteq> 0 \<longleftrightarrow> (\<exists>h. owns s h)) \<and>
     (\<forall>h. mpc s h \<noteq> Swap 0)"

lemma mutex_inv_step:
  assumes "mutex_inv s" "mutex_step s s'"
  shows "mutex_inv s'"
  using assms(2)
proof cases
  case (instr h pc m)
  show ?thesis
  proof (cases "mpc s h")
    case (Swap t)
    then have "owns s' k \<longleftrightarrow> owns s k \<or> k = h \<and> mtx s = 0" for k
      using instr by (auto simp: owns_def)
    moreover have "t \<noteq> 0" using assms(1) Swap by (auto simp: mutex_inv_def)
    ultimately show ?thesis using assms(1) instr Swap by (auto simp: mutex_inv_def)
  next
    case (Swap_Branch t)
    then have "owns s' k \<longleftrightarrow> owns s k" for k using instr by (auto simp: owns_def split: if_splits)
    then show ?thesis using assms(1) instr Swap_Branch by (auto simp: mutex_inv_def split: if_splits)
  next
    case Test
    then have "owns s' k \<longleftrightarrow> owns s k" for k using instr by (auto simp: owns_def split: if_splits)
    then show ?thesis using assms(1) instr Test by (auto simp: mutex_inv_def)
  next
    case (Test_Branch t)
    then have "owns s' k \<longleftrightarrow> owns s k" for k using instr by (auto simp: owns_def split: if_splits)
    then show ?thesis using assms(1) instr Test_Branch by (auto simp: mutex_inv_def split: if_splits)
  qed (use instr in auto)
next
  case (release h pc m)
  then have "owns s' k \<longleftrightarrow> owns s k \<and> k \<noteq> h" for k by (auto simp: owns_def snrt_mutex_release_def)
  moreover have "owns s h" using release by (simp add: owns_def)
  ultimately show ?thesis using assms(1) release by (auto simp: mutex_inv_def snrt_mutex_release_def)
next
  case (enter_tas h)
  then have "owns s' k \<longleftrightarrow> owns s k" for k by (auto simp: owns_def snrt_mutex_acquire_def)
  then show ?thesis using assms(1) enter_tas by (auto simp: mutex_inv_def snrt_mutex_acquire_def)
next
  case (enter_ttas h)
  then have "owns s' k \<longleftrightarrow> owns s k" for k by (auto simp: owns_def snrt_mutex_ttas_acquire_def)
  then show ?thesis using assms(1) enter_ttas by (auto simp: mutex_inv_def snrt_mutex_ttas_acquire_def)
qed

lemma mutex_reach_inv: "mutex_reach s \<Longrightarrow> mutex_inv s"
proof (induction rule: mutex_reach.induct)
  case init
  then show ?case by (simp add: mutex_inv_def owns_def)
next
  case (step s s')
  then show ?case by (blast intro: mutex_inv_step)
qed

section \<open>Properties\<close>

text \<open>
  C9: at most one hart holds the mutex at any time, whatever mix of the two acquire routines
  the harts use, and the variable is non-zero whenever a hart holds it.
\<close>

theorem mutex_exclusion:
  assumes "mutex_reach s" "mpc s h = Holding" "mpc s h' = Holding"
  shows "h = h' \<and> mtx s \<noteq> 0"
  using mutex_reach_inv [OF assms(1)] assms(2,3) by (auto simp: mutex_inv_def owns_def)

definition run_hart :: "nat \<Rightarrow> mutex_pc \<Rightarrow> u32 \<Rightarrow> mutex_pc \<times> u32" where
  "run_hart n pc m = ((\<lambda>(pc, m). acquire_instr pc m) ^^ n) (pc, m)"

text \<open>
  no deadlock: when no hart owns the mutex, a hart that is waiting for it obtains it by its
  own next instructions alone, at most five of them.
\<close>

theorem mutex_obtained_when_free:
  assumes "mutex_reach s" "\<forall>k. \<not> owns s k" "mpc s h \<noteq> Outside"
  shows "\<exists>n \<le> 5. fst (run_hart n (mpc s h) (mtx s)) = Holding"
proof -
  have m: "mtx s = 0" and nz: "mpc s h \<noteq> Swap 0" "mpc s h \<noteq> Swap_Branch 0" "mpc s h \<noteq> Holding"
    using mutex_reach_inv [OF assms(1)] assms(2) by (auto simp: mutex_inv_def owns_def)
  show ?thesis
  proof (cases "mpc s h")
    case (Swap t)
    then show ?thesis by (intro exI [of _ 2]) (simp add: run_hart_def m eval_nat_numeral)
  next
    case (Swap_Branch t)
    then show ?thesis using nz by (intro exI [of _ 3]) (auto simp: run_hart_def m eval_nat_numeral)
  next
    case Test
    then show ?thesis by (intro exI [of _ 4]) (simp add: run_hart_def m eval_nat_numeral)
  next
    case (Test_Branch t)
    then show ?thesis
      by (cases "t = 0")
        (rule exI [of _ 3], simp add: run_hart_def m eval_nat_numeral,
         rule exI [of _ 5], simp add: run_hart_def m eval_nat_numeral)
  qed (use assms nz in auto)
qed

text \<open>A run in which hart 3 holds the mutex and hart 5 waits for it.\<close>

definition sample_mutex :: mutex_sys where
  "sample_mutex = \<lparr>mtx = 1, mpc = (\<lambda>_. Outside)(3 := Holding)\<rparr>"

lemma sample_mutex_reach: "mutex_reach sample_mutex"
proof -
  let ?s0 = "\<lparr>mtx = 0, mpc = (\<lambda>_. Outside)\<rparr>"
  let ?s1 = "\<lparr>mtx = 0, mpc = (\<lambda>_. Outside)(3 := Swap 1)\<rparr>"
  let ?s2 = "\<lparr>mtx = 1, mpc = (\<lambda>_. Outside)(3 := Swap_Branch 0)\<rparr>"
  have 1: "mutex_reach ?s1"
    using mutex_reach.step [OF mutex_reach.init enter_tas [of ?s0 3]]
    by (simp add: snrt_mutex_acquire_def)
  have 2: "mutex_reach ?s2"
    using mutex_reach.step [OF 1 mutex_step.instr [of ?s1 3 "Swap_Branch 0" 1]] by simp
  show ?thesis
    using mutex_reach.step [OF 2 mutex_step.instr [of ?s2 3 Holding 1]] by (simp add: sample_mutex_def)
qed

theorem mutex_exclusion_witness: "mutex_reach sample_mutex \<and> mtx sample_mutex \<noteq> 0"
  using mutex_exclusion [OF sample_mutex_reach, of 3 3] sample_mutex_reach
  by (simp add: sample_mutex_def)

theorem mutex_obtained_when_free_witness:
  "\<exists>n \<le> 5. fst (run_hart n (Swap 1) 0) = Holding"
proof -
  let ?s1 = "\<lparr>mtx = 0, mpc = (\<lambda>_. Outside)(3 := Swap 1)\<rparr>"
  have "mutex_reach ?s1"
    using mutex_reach.step [OF mutex_reach.init enter_tas [of "\<lparr>mtx = 0, mpc = (\<lambda>_. Outside)\<rparr>" 3]]
    by (simp add: snrt_mutex_acquire_def)
  then show ?thesis using mutex_obtained_when_free [of ?s1 3] by (simp add: owns_def)
qed

end
