(* ===== verification/Irq.thy ===== *)
theory Irq
  imports Team
begin

text \<open>
  Interrupts: the cluster-local CLINT (\<open>sw/runtime/src/cluster_interrupts.h\<close>), the software
  interrupts of the global CLINT (\<open>global_interrupts.h\<close>, and the variant of
  \<open>impl/snitch_cluster_global_interrupts.h\<close> that maps them to the cluster) and the interrupt
  enable registers (\<open>riscv.h\<close>). A write to the clear register takes effect asynchronously: it
  is in flight until the interconnect delivers it, and the loop that waits for it polls.
\<close>

section \<open>State\<close>

text \<open>
  \<open>cl_clint k\<close>: the pending mask of cluster \<open>k\<close>, bit \<open>i\<close> the interrupt of its core \<open>i\<close>;
  \<open>clr_inflight k\<close>: the clear masks on their way to it; \<open>msip\<close>: the words of the global CLINT.
\<close>

record irq_state =
  cl_clint :: "nat \<Rightarrow> u32"
  clr_inflight :: "nat \<Rightarrow> u32 list"
  msip :: "u32 \<Rightarrow> u32"
  mie :: "hart \<Rightarrow> u32"
  mstatus :: "hart \<Rightarrow> u32"

definition my_cluster :: "snrt_cfg \<Rightarrow> hart \<Rightarrow> nat" where
  "my_cluster c h = unat (snrt_cluster_idx c h)"

definition shl1 :: "u32 \<Rightarrow> u32" where
  "shl1 k = push_bit (unat k) 1"

section \<open>Cluster interrupts\<close>

definition snrt_int_cluster_set :: "snrt_cfg \<Rightarrow> hart \<Rightarrow> u32 \<Rightarrow> irq_state \<Rightarrow> irq_state" where
  "snrt_int_cluster_set c h msk s =
     (let k = my_cluster c h in s\<lparr>cl_clint := (cl_clint s)(k := cl_clint s k OR msk)\<rparr>)"

definition snrt_int_cluster_clr :: "snrt_cfg \<Rightarrow> hart \<Rightarrow> u32 \<Rightarrow> irq_state \<Rightarrow> irq_state" where
  "snrt_int_cluster_clr c h msk s =
     (let k = my_cluster c h in
      s\<lparr>clr_inflight := (clr_inflight s)(k := clr_inflight s k @ [msk])\<rparr>)"

text \<open>The oldest clear in flight to cluster \<open>k\<close> arrives.\<close>

definition deliver_clr :: "nat \<Rightarrow> irq_state \<Rightarrow> irq_state" where
  "deliver_clr k s =
     (case clr_inflight s k of
        [] \<Rightarrow> s
      | m # ms \<Rightarrow> s\<lparr>cl_clint := (cl_clint s)(k := cl_clint s k AND NOT m),
                    clr_inflight := (clr_inflight s)(k := ms)\<rparr>)"

definition snrt_int_clr_mcip_unsafe :: "snrt_cfg \<Rightarrow> hart \<Rightarrow> irq_state \<Rightarrow> irq_state" where
  "snrt_int_clr_mcip_unsafe c h = snrt_int_cluster_clr c h (shl1 (snrt_cluster_core_idx c h))"

text \<open>\<open>mip.MCIP\<close> of a core is its bit of the cluster's pending mask.\<close>

definition mip_mcip :: "snrt_cfg \<Rightarrow> hart \<Rightarrow> irq_state \<Rightarrow> bool" where
  "mip_mcip c h s = bit (cl_clint s (my_cluster c h)) (unat (snrt_cluster_core_idx c h))"

text \<open>The polling loop; between two polls a clear is delivered to one of the clusters given.\<close>

fun snrt_int_wait_mcip_clr :: "snrt_cfg \<Rightarrow> hart \<Rightarrow> nat list \<Rightarrow> irq_state \<Rightarrow> irq_state option" where
  "snrt_int_wait_mcip_clr c h [] s = (if mip_mcip c h s then None else Some s)"
| "snrt_int_wait_mcip_clr c h (k # ks) s =
     (if mip_mcip c h s then snrt_int_wait_mcip_clr c h ks (deliver_clr k s) else Some s)"

definition snrt_int_clr_mcip :: "snrt_cfg \<Rightarrow> hart \<Rightarrow> nat list \<Rightarrow> irq_state \<Rightarrow> irq_state option" where
  "snrt_int_clr_mcip c h ks s = snrt_int_wait_mcip_clr c h ks (snrt_int_clr_mcip_unsafe c h s)"

definition snrt_int_set_mcip :: "snrt_cfg \<Rightarrow> hart \<Rightarrow> irq_state \<Rightarrow> irq_state" where
  "snrt_int_set_mcip c h = snrt_int_cluster_set c h (shl1 (snrt_cluster_core_idx c h))"

section \<open>Software interrupts of the global CLINT\<close>

text \<open>
  The body between acquire and release of the CLINT mutex is one read-modify-write of the word
  that the platform's \<open>snrt_clint_msip_ptr\<close> gives for the hart, a parameter.
\<close>

definition snrt_int_sw_clear :: "(u32 \<Rightarrow> u32) \<Rightarrow> u32 \<Rightarrow> irq_state \<Rightarrow> irq_state" where
  "snrt_int_sw_clear msip_ptr hartid s =
     (let p = msip_ptr hartid in
      s\<lparr>msip := (msip s)(p := msip s p AND NOT (shl1 (hartid AND 0x1F)))\<rparr>)"

definition snrt_int_sw_set :: "(u32 \<Rightarrow> u32) \<Rightarrow> u32 \<Rightarrow> irq_state \<Rightarrow> irq_state" where
  "snrt_int_sw_set msip_ptr hartid s =
     (let p = msip_ptr hartid in
      s\<lparr>msip := (msip s)(p := msip s p OR shl1 (hartid AND 0x1F))\<rparr>)"

definition snrt_int_sw_get :: "(u32 \<Rightarrow> u32) \<Rightarrow> u32 \<Rightarrow> irq_state \<Rightarrow> u32" where
  "snrt_int_sw_get msip_ptr hartid s = drop_bit (unat (hartid AND 0x1F)) (msip s (msip_ptr hartid))"

definition snrt_int_sw_clear_cl :: "snrt_cfg \<Rightarrow> hart \<Rightarrow> u32 \<Rightarrow> irq_state \<Rightarrow> irq_state" where
  "snrt_int_sw_clear_cl c h hartid = snrt_int_cluster_clr c h (shl1 hartid)"

definition snrt_int_sw_set_cl :: "snrt_cfg \<Rightarrow> hart \<Rightarrow> u32 \<Rightarrow> irq_state \<Rightarrow> irq_state" where
  "snrt_int_sw_set_cl c h hartid = snrt_int_cluster_set c h (shl1 hartid)"

section \<open>Interrupt enables\<close>

definition snrt_interrupt_enable :: "hart \<Rightarrow> u32 \<Rightarrow> irq_state \<Rightarrow> irq_state" where
  "snrt_interrupt_enable h irq s = s\<lparr>mie := (mie s)(h := mie s h OR shl1 irq)\<rparr>"

definition snrt_interrupt_disable :: "hart \<Rightarrow> u32 \<Rightarrow> irq_state \<Rightarrow> irq_state" where
  "snrt_interrupt_disable h irq s = s\<lparr>mie := (mie s)(h := mie s h AND NOT (shl1 irq))\<rparr>"

text \<open>\<open>MSTATUS_MIE\<close> is bit 3.\<close>

definition snrt_interrupt_global_enable :: "hart \<Rightarrow> irq_state \<Rightarrow> irq_state" where
  "snrt_interrupt_global_enable h s = s\<lparr>mstatus := (mstatus s)(h := mstatus s h OR 8)\<rparr>"

definition snrt_interrupt_global_disable :: "hart \<Rightarrow> irq_state \<Rightarrow> irq_state" where
  "snrt_interrupt_global_disable h s = s\<lparr>mstatus := (mstatus s)(h := mstatus s h AND NOT 8)\<rparr>"

section \<open>Lemmas\<close>

lemma bit_shl1: "unat k < 32 \<Longrightarrow> bit (shl1 k) n \<longleftrightarrow> n = unat k"
  by (auto simp: shl1_def bit_simps bit_1_iff)

lemma deliver_other: "k \<noteq> my_cluster c h \<Longrightarrow> mip_mcip c h (deliver_clr k s) = mip_mcip c h s"
  by (cases "clr_inflight s k") (simp_all add: deliver_clr_def mip_mcip_def)

text \<open>
  When a clear of the core's own bit is among those in flight, the wait ends once as many
  deliveries as there are clears have reached the cluster.
\<close>

lemma wait_mcip_clr_returns:
  assumes "m \<in> set (clr_inflight s (my_cluster c h))" "bit m (unat (snrt_cluster_core_idx c h))"
    "length (clr_inflight s (my_cluster c h)) \<le> count_list ks (my_cluster c h)"
  shows "\<exists>s'. snrt_int_wait_mcip_clr c h ks s = Some s' \<and> \<not> mip_mcip c h s'"
  using assms
proof (induction ks arbitrary: s)
  case Nil
  then show ?case by simp
next
  case (Cons k ks)
  let ?k = "my_cluster c h" and ?i = "unat (snrt_cluster_core_idx c h)"
  obtain q qs where q: "clr_inflight s ?k = q # qs" using Cons.prems(1) by (cases "clr_inflight s ?k") auto
  have other: "clr_inflight (deliver_clr k s) ?k = clr_inflight s ?k" if "k \<noteq> ?k"
    using that by (cases "clr_inflight s k") (simp_all add: deliver_clr_def)
  show ?case
  proof (cases "mip_mcip c h s \<and> k = ?k")
    case False
    then show ?thesis using Cons other by (cases "mip_mcip c h s") auto
  next
    case True
    have d: "clr_inflight (deliver_clr ?k s) ?k = qs"
      "mip_mcip c h (deliver_clr ?k s) \<longleftrightarrow> mip_mcip c h s \<and> \<not> bit q ?i"
      using q by (auto simp: deliver_clr_def mip_mcip_def bit_simps dest: bit_imp_le_length)
    show ?thesis
    proof (cases "bit q ?i")
      case True
      then have "\<not> mip_mcip c h (deliver_clr ?k s)" using d by simp
      then show ?thesis using \<open>mip_mcip c h s \<and> k = ?k\<close> by (cases ks) auto
    next
      case False
      then have "m \<in> set qs" using Cons.prems(1,2) q by auto
      then show ?thesis using Cons.IH [of "deliver_clr ?k s"] Cons.prems d \<open>mip_mcip c h s \<and> k = ?k\<close> q by simp
    qed
  qed
qed

definition idle_irq :: irq_state where
  "idle_irq = \<lparr>cl_clint = (\<lambda>_. 0), clr_inflight = (\<lambda>_. []), msip = (\<lambda>_. 0), mie = (\<lambda>_. 0),
     mstatus = (\<lambda>_. 0)\<rparr>"

section \<open>Properties\<close>

text \<open>
  C40: \<open>snrt_int_clr_mcip\<close> returns once the interconnect has delivered the clears in flight to
  the cluster, its own the last, and then the cluster interrupt of the core is not pending.
\<close>

theorem clr_mcip_clears:
  assumes "unat (snrt_cluster_core_idx c h) < 32"
    "length (clr_inflight s (my_cluster c h)) < count_list ks (my_cluster c h)"
  shows "\<exists>s'. snrt_int_clr_mcip c h ks s = Some s' \<and> \<not> mip_mcip c h s'"
  unfolding snrt_int_clr_mcip_def
proof (rule wait_mcip_clr_returns)
  show "shl1 (snrt_cluster_core_idx c h) \<in>
      set (clr_inflight (snrt_int_clr_mcip_unsafe c h s) (my_cluster c h))"
    "bit (shl1 (snrt_cluster_core_idx c h)) (unat (snrt_cluster_core_idx c h))"
    "length (clr_inflight (snrt_int_clr_mcip_unsafe c h s) (my_cluster c h))
      \<le> count_list ks (my_cluster c h)"
    using assms
    by (simp_all add: snrt_int_clr_mcip_unsafe_def snrt_int_cluster_clr_def Let_def bit_shl1)
qed

theorem clr_mcip_clears_witness:
  "mip_mcip sample_cfg 4 (snrt_int_set_mcip sample_cfg 4 idle_irq) \<and>
   (\<exists>s'. snrt_int_clr_mcip sample_cfg 4 [0] (snrt_int_set_mcip sample_cfg 4 idle_irq) = Some s' \<and>
      \<not> mip_mcip sample_cfg 4 s')"
  using clr_mcip_clears [of sample_cfg 4 "snrt_int_set_mcip sample_cfg 4 idle_irq" "[0]"]
  by (simp add: team_defs sample_cfg_def my_cluster_def snrt_int_set_mcip_def
      snrt_int_cluster_set_def idle_irq_def mip_mcip_def shl1_def)

text \<open>
  Setting a software interrupt makes bit 0 of what \<open>snrt_int_sw_get\<close> returns one, clearing it
  makes it zero, but the word is only shifted, not masked: an interrupt of a hart above in the
  same word makes the result non-zero for a hart that has none pending.
\<close>

lemma and_1f_lt: "unat (k AND 0x1F :: u32) < 32"
proof -
  have m: "(0x1F :: u32) = mask 5" by (simp add: mask_eq_exp_minus_1)
  show ?thesis
    unfolding m take_bit_eq_mask [symmetric] using take_bit_nat_less_exp [of 5 "unat k"]
    by (simp add: unsigned_take_bit_eq)
qed

lemma sw_set_get: "bit (snrt_int_sw_get p hartid (snrt_int_sw_set p hartid s)) 0"
  using and_1f_lt [of hartid]
  by (simp add: snrt_int_sw_get_def snrt_int_sw_set_def Let_def bit_simps bit_shl1)

lemma sw_clear_get: "\<not> bit (snrt_int_sw_get p hartid (snrt_int_sw_clear p hartid s)) 0"
  using and_1f_lt [of hartid]
  by (simp add: snrt_int_sw_get_def snrt_int_sw_clear_def Let_def bit_simps bit_shl1)

lemma sw_get_neighbour:
  "snrt_int_sw_get (\<lambda>_. 0) 0 (snrt_int_sw_set (\<lambda>_. 0) 1 idle_irq) = 2"
  by (simp add: snrt_int_sw_get_def snrt_int_sw_set_def idle_irq_def shl1_def)

end
