(* ===== verification/Barrier.thy ===== *)
theory Barrier
  imports Alloc Irq
begin

text \<open>
  The barriers of \<open>sw/runtime/src/sync.h\<close>: the generic software barrier
  \<open>snrt_partial_barrier\<close> and the barrier between clusters \<open>snrt_inter_cluster_barrier\<close> with the
  wake-up it sends, one memory access at a time, as transition systems over the participants;
  the communicators and the composition of the global barrier. A participant counts, as ghost
  state, how often it has arrived at the barrier and how often it has left it. The locale
  \<open>round_barrier\<close> is what a client relies on: nobody leaves a round before everybody has
  arrived in it.
\<close>

section \<open>The contract of a barrier\<close>

locale round_barrier =
  fixes reach :: "'s \<Rightarrow> bool"
    and parts :: "'p set"
    and arrived :: "'s \<Rightarrow> 'p \<Rightarrow> nat"
    and left :: "'s \<Rightarrow> 'p \<Rightarrow> nat"
  assumes safe: "reach s \<Longrightarrow> p \<in> parts \<Longrightarrow> q \<in> parts \<Longrightarrow> left s p \<le> arrived s q"
    and one_open: "reach s \<Longrightarrow> p \<in> parts \<Longrightarrow> left s p \<le> arrived s p \<and> arrived s p \<le> left s p + 1"
begin

text \<open>Participants are never more than one round apart.\<close>

lemma rounds_close: "reach s \<Longrightarrow> p \<in> parts \<Longrightarrow> q \<in> parts \<Longrightarrow> left s p \<le> left s q + 1"
  using safe one_open le_trans by blast

text \<open>A participant between two barriers has everybody else in the same phase or about to leave.\<close>

lemma outside_all_arrived:
  "reach s \<Longrightarrow> p \<in> parts \<Longrightarrow> q \<in> parts \<Longrightarrow> left s p = k \<Longrightarrow> k \<le> arrived s q \<and> left s q + 1 \<ge> k"
  using safe rounds_close by blast

end

section \<open>The partial barrier\<close>

record snrt_barrier_t =
  b_cnt :: u32
  b_iteration :: u32

datatype pb_pc =
    PB_Out
  | PB_Add u32
  | PB_Cmp u32 u32
  | PB_Reset
  | PB_Incr
  | PB_Wait u32

text \<open>
  The accesses of \<open>snrt_partial_barrier\<close>: remember the iteration, add to the counter, compare,
  then reset and advance the iteration, or poll it.
\<close>

fun snrt_partial_barrier :: "u32 \<Rightarrow> pb_pc \<Rightarrow> snrt_barrier_t \<Rightarrow> pb_pc \<times> snrt_barrier_t" where
  "snrt_partial_barrier n PB_Out barr = (PB_Add (b_iteration barr), barr)"
| "snrt_partial_barrier n (PB_Add prev_it) barr =
     (let cnt = b_cnt barr + 1 in (PB_Cmp prev_it cnt, barr\<lparr>b_cnt := cnt\<rparr>))"
| "snrt_partial_barrier n (PB_Cmp prev_it cnt) barr =
     (if cnt = n then PB_Reset else PB_Wait prev_it, barr)"
| "snrt_partial_barrier n PB_Reset barr = (PB_Incr, barr\<lparr>b_cnt := 0\<rparr>)"
| "snrt_partial_barrier n PB_Incr barr = (PB_Out, barr\<lparr>b_iteration := b_iteration barr + 1\<rparr>)"
| "snrt_partial_barrier n (PB_Wait prev_it) barr =
     (if prev_it = b_iteration barr then PB_Wait prev_it else PB_Out, barr)"

record pb_sys =
  pb_bar :: snrt_barrier_t
  pb_at :: "hart \<Rightarrow> pb_pc"
  pb_arrived :: "hart \<Rightarrow> nat"
  pb_left :: "hart \<Rightarrow> nat"

text \<open>One access of a hart, with its arrivals and departures counted.\<close>

definition pb_access :: "u32 \<Rightarrow> hart \<Rightarrow> pb_sys \<Rightarrow> pb_sys" where
  "pb_access n h s =
     (case snrt_partial_barrier n (pb_at s h) (pb_bar s) of (pc, barr) \<Rightarrow>
        s\<lparr>pb_bar := barr, pb_at := (pb_at s)(h := pc),
          pb_arrived := (pb_arrived s)(h := pb_arrived s h +
            (case pb_at s h of PB_Add _ \<Rightarrow> 1 | _ \<Rightarrow> 0)),
          pb_left := (pb_left s)(h := pb_left s h + (if pc = PB_Out then 1 else 0))\<rparr>)"

definition pb_init :: pb_sys where
  "pb_init = \<lparr>pb_bar = \<lparr>b_cnt = 0, b_iteration = 0\<rparr>, pb_at = (\<lambda>_. PB_Out), pb_arrived = (\<lambda>_. 0),
     pb_left = (\<lambda>_. 0)\<rparr>"

inductive pb_reach :: "hart set \<Rightarrow> pb_sys \<Rightarrow> bool" for P where
  init: "pb_reach P pb_init"
| step: "pb_reach P s \<Longrightarrow> h \<in> P \<Longrightarrow> pb_reach P (pb_access (of_nat (card P)) h s)"

subsection \<open>Invariant\<close>

text \<open>
  With \<open>R\<close> rounds completed, a hart is outside or about to arrive (\<open>fresh\<close>), waiting in the
  current round (\<open>waits\<close>), or released from the last one and not yet gone (\<open>freed\<close>).
\<close>

definition waits :: "nat \<Rightarrow> u32 \<Rightarrow> nat \<Rightarrow> nat \<Rightarrow> bool" where
  "waits R p a l \<longleftrightarrow> p = of_nat R \<and> a = Suc R \<and> l = R"

definition freed :: "nat \<Rightarrow> u32 \<Rightarrow> nat \<Rightarrow> nat \<Rightarrow> bool" where
  "freed R p a l \<longleftrightarrow> 0 < R \<and> p = of_nat (R - 1) \<and> a = R \<and> Suc l = R"

fun pb_local :: "u32 \<Rightarrow> nat \<Rightarrow> pb_pc \<Rightarrow> nat \<Rightarrow> nat \<Rightarrow> bool" where
  "pb_local n R PB_Out a l \<longleftrightarrow> a = R \<and> l = R"
| "pb_local n R (PB_Add p) a l \<longleftrightarrow> p = of_nat R \<and> a = R \<and> l = R"
| "pb_local n R (PB_Cmp p c) a l \<longleftrightarrow> waits R p a l \<or> c \<noteq> n \<and> freed R p a l"
| "pb_local n R PB_Reset a l \<longleftrightarrow> a = Suc R \<and> l = R"
| "pb_local n R PB_Incr a l \<longleftrightarrow> a = Suc R \<and> l = R"
| "pb_local n R (PB_Wait p) a l \<longleftrightarrow> waits R p a l \<or> freed R p a l"

text \<open>The hart that completes the round.\<close>

definition is_last :: "u32 \<Rightarrow> pb_pc \<Rightarrow> bool" where
  "is_last n pc \<longleftrightarrow> pc = PB_Reset \<or> pc = PB_Incr \<or> (\<exists>p. pc = PB_Cmp p n)"

definition arrivals :: "hart set \<Rightarrow> nat \<Rightarrow> pb_sys \<Rightarrow> hart set" where
  "arrivals P R s = {h \<in> P. pb_arrived s h = Suc R}"

definition pb_inv :: "hart set \<Rightarrow> nat \<Rightarrow> pb_sys \<Rightarrow> bool" where
  "pb_inv P R s \<longleftrightarrow>
     b_iteration (pb_bar s) = of_nat R \<and>
     (\<forall>h\<in>P. pb_local (of_nat (card P)) R (pb_at s h) (pb_arrived s h) (pb_left s h)) \<and>
     (\<forall>h\<in>P. \<forall>k\<in>P. is_last (of_nat (card P)) (pb_at s h) \<longrightarrow> is_last (of_nat (card P)) (pb_at s k) \<longrightarrow> h = k) \<and>
     ((\<exists>h\<in>P. is_last (of_nat (card P)) (pb_at s h)) \<longleftrightarrow> arrivals P R s = P) \<and>
     b_cnt (pb_bar s) = (if \<exists>h\<in>P. pb_at s h = PB_Incr then 0 else of_nat (card (arrivals P R s)))"

lemma pb_invD:
  assumes "pb_inv P R s"
  shows "b_iteration (pb_bar s) = of_nat R"
    and "h \<in> P \<Longrightarrow> pb_local (of_nat (card P)) R (pb_at s h) (pb_arrived s h) (pb_left s h)"
    and "h \<in> P \<Longrightarrow> k \<in> P \<Longrightarrow> is_last (of_nat (card P)) (pb_at s h) \<Longrightarrow>
      is_last (of_nat (card P)) (pb_at s k) \<Longrightarrow> h = k"
    and "(\<exists>h\<in>P. is_last (of_nat (card P)) (pb_at s h)) \<longleftrightarrow> arrivals P R s = P"
    and "b_cnt (pb_bar s) = (if \<exists>h\<in>P. pb_at s h = PB_Incr then 0 else of_nat (card (arrivals P R s)))"
  using assms unfolding pb_inv_def by blast+

text \<open>Accesses that neither arrive nor complete the round.\<close>

lemma pb_inv_quiet:
  assumes inv: "pb_inv P R s" and h: "h \<in> P" "pb_at s h \<noteq> PB_Incr"
    and pc: "pb_local (of_nat (card P)) R pc (pb_arrived s h) l"
      "is_last (of_nat (card P)) pc = is_last (of_nat (card P)) (pb_at s h)"
    and bar: "b_iteration b = b_iteration (pb_bar s)"
      "b_cnt b = (if pc = PB_Incr then 0 else b_cnt (pb_bar s))"
  shows "pb_inv P R (s\<lparr>pb_bar := b, pb_at := (pb_at s)(h := pc), pb_left := (pb_left s)(h := l)\<rparr>)"
    (is "pb_inv P R ?s")
proof -
  have last: "is_last (of_nat (card P)) (pb_at ?s k) = is_last (of_nat (card P)) (pb_at s k)" for k
    using pc(2) by simp
  have arr: "arrivals P R ?s = arrivals P R s" by (simp add: arrivals_def)
  have incr: "(\<exists>k\<in>P. pb_at ?s k = PB_Incr) \<longleftrightarrow> pc = PB_Incr \<or> (\<exists>k\<in>P. pb_at s k = PB_Incr)"
    using h by auto
  have loc: "\<forall>k\<in>P. pb_local (of_nat (card P)) R (pb_at ?s k) (pb_arrived ?s k) (pb_left ?s k)"
    using pb_invD(2) [OF inv] pc(1) by simp
  have cnt: "b_cnt (pb_bar ?s) = (if pc = PB_Incr \<or> (\<exists>k\<in>P. pb_at s k = PB_Incr) then 0
      else of_nat (card (arrivals P R s)))"
    using bar(2) pb_invD(5) [OF inv] by simp
  have it: "b_iteration (pb_bar ?s) = of_nat R" using bar(1) pb_invD(1) [OF inv] by simp
  show ?thesis
    unfolding pb_inv_def last arr incr
    by (rule conjI [OF it conjI [OF loc conjI [OF _ conjI [OF pb_invD(4) [OF inv] cnt]]]])
      (intro ballI impI, rule pb_invD(3) [OF inv])
qed

lemma pb_inv_arrive:
  assumes inv: "pb_inv P R s" and P: "finite P" "card P < 4294967296" and h: "h \<in> P" "pb_at s h = PB_Add p"
  shows "pb_inv P R (pb_access (of_nat (card P)) h s)"
proof -
  let ?n = "of_nat (card P) :: u32" and ?s = "pb_access (of_nat (card P)) h s"
  let ?A = "arrivals P R s"
  have loc: "p = of_nat R" "pb_arrived s h = R" "pb_left s h = R"
    using pb_invD(2) [OF inv h(1)] by (simp_all add: h(2))
  then have hA: "h \<notin> ?A" by (simp add: arrivals_def)
  then have "?A \<noteq> P" using h by auto
  then have nolast: "\<And>k. k \<in> P \<Longrightarrow> \<not> is_last ?n (pb_at s k)" using pb_invD(4) [OF inv] by blast
  then have noincr: "\<not> (\<exists>k\<in>P. pb_at s k = PB_Incr)" by (auto simp: is_last_def)
  then have cnt: "b_cnt (pb_bar s) = of_nat (card ?A)" using pb_invD(5) [OF inv] by simp
  have sub: "insert h ?A \<subseteq> P" using h by (auto simp: arrivals_def)
  have fin: "finite ?A" using P(1) sub by (auto intro: finite_subset)
  have arr: "arrivals P R ?s = insert h ?A"
    using h loc by (auto simp: arrivals_def pb_access_def Let_def)
  have card: "card (insert h ?A) = Suc (card ?A)" using fin hA by simp
  have le: "Suc (card ?A) \<le> card P" using card_mono [OF P(1) sub] card by simp
  have eqn: "of_nat (Suc (card ?A)) = ?n \<longleftrightarrow> insert h ?A = P"
  proof
    assume "of_nat (Suc (card ?A)) = ?n"
    then have "Suc (card ?A) = card P" by (rule word_of_nat_inj) (use le P(2) in auto)
    then show "insert h ?A = P" by (intro card_subset_eq [OF P(1) sub]) (simp add: card)
  next
    assume "insert h ?A = P"
    then show "of_nat (Suc (card ?A)) = ?n" by (metis card)
  qed
  have at: "pb_at ?s = (pb_at s)(h := PB_Cmp p (b_cnt (pb_bar s) + 1))" "pb_left ?s = pb_left s"
    "pb_arrived ?s = (pb_arrived s)(h := Suc (pb_arrived s h))"
    "pb_bar ?s = (pb_bar s)\<lparr>b_cnt := b_cnt (pb_bar s) + 1\<rparr>"
    using h by (auto simp: pb_access_def Let_def)
  have c1: "b_cnt (pb_bar s) + 1 = of_nat (Suc (card ?A))" by (simp add: cnt)
  have last: "is_last ?n (pb_at ?s k) \<longleftrightarrow> k = h \<and> insert h ?A = P" if "k \<in> P" for k
  proof (cases "k = h")
    case True
    have "is_last ?n (pb_at ?s h) \<longleftrightarrow> of_nat (Suc (card ?A)) = ?n"
      unfolding at(1) c1 by (auto simp: is_last_def)
    then show ?thesis unfolding eqn using True by simp
  qed (use nolast that in \<open>simp add: at\<close>)
  show ?thesis
    unfolding pb_inv_def
  proof (intro conjI)
    show "b_iteration (pb_bar ?s) = of_nat R" using pb_invD(1) [OF inv] by (simp add: at)
    show "\<forall>k\<in>P. pb_local ?n R (pb_at ?s k) (pb_arrived ?s k) (pb_left ?s k)"
      using pb_invD(2) [OF inv] loc by (simp add: at waits_def)
    show "\<forall>k\<in>P. \<forall>k'\<in>P. is_last ?n (pb_at ?s k) \<longrightarrow> is_last ?n (pb_at ?s k') \<longrightarrow> k = k'"
      using last by blast
    show "(\<exists>k\<in>P. is_last ?n (pb_at ?s k)) \<longleftrightarrow> arrivals P R ?s = P"
      unfolding arr using last h(1) by blast
    have "\<not> (\<exists>k\<in>P. pb_at ?s k = PB_Incr)" using noincr by (auto simp: at)
    then show "b_cnt (pb_bar ?s) =
        (if \<exists>k\<in>P. pb_at ?s k = PB_Incr then 0 else of_nat (card (arrivals P R ?s)))"
      unfolding arr card by (simp add: at cnt)
  qed
qed

lemma pb_inv_complete:
  assumes inv: "pb_inv P R s" and P: "P \<noteq> {}" and h: "h \<in> P" "pb_at s h = PB_Incr"
  shows "pb_inv P (Suc R) (pb_access (of_nat (card P)) h s)"
proof -
  let ?n = "of_nat (card P) :: u32" and ?s = "pb_access (of_nat (card P)) h s"
  have lh: "is_last ?n (pb_at s h)" using h by (simp add: is_last_def)
  then have all: "arrivals P R s = P" and uniq: "\<And>k. k \<in> P \<Longrightarrow> is_last ?n (pb_at s k) \<Longrightarrow> k = h"
    using pb_invD(3,4) [OF inv] h(1) by blast+
  have cnt: "b_cnt (pb_bar s) = 0" using pb_invD(5) [OF inv] h by auto
  have at: "pb_at ?s = (pb_at s)(h := PB_Out)" "pb_left ?s = (pb_left s)(h := Suc (pb_left s h))"
    "pb_arrived ?s = pb_arrived s"
    "pb_bar ?s = (pb_bar s)\<lparr>b_iteration := b_iteration (pb_bar s) + 1\<rparr>"
    using h by (auto simp: pb_access_def)
  have arrk: "pb_arrived s k = Suc R" if "k \<in> P" for k using all that by (auto simp: arrivals_def)
  have lock: "pb_local ?n R (pb_at s k) (Suc R) (pb_left s k)" if "k \<in> P" for k
    using pb_invD(2) [OF inv that] arrk [OF that] by simp
  have loc: "pb_local ?n (Suc R) (pb_at s k) (Suc R) (pb_left s k)" if "k \<in> P" "k \<noteq> h" for k
    using lock [OF that(1)] uniq [OF that(1)] that(2)
    by (cases "pb_at s k") (auto simp: waits_def freed_def is_last_def)
  have nolast: "\<not> is_last ?n (pb_at ?s k)" if "k \<in> P" for k
    using uniq [OF that] by (cases "k = h") (auto simp: at is_last_def)
  have arr: "arrivals P (Suc R) ?s = {}" using arrk by (auto simp: arrivals_def at)
  show ?thesis
    unfolding pb_inv_def
  proof (intro conjI)
    show "b_iteration (pb_bar ?s) = of_nat (Suc R)" using pb_invD(1) [OF inv] by (simp add: at)
    show "\<forall>k\<in>P. pb_local ?n (Suc R) (pb_at ?s k) (pb_arrived ?s k) (pb_left ?s k)"
      using loc lock [OF h(1)] arrk h(2) by (auto simp: at)
    show "\<forall>k\<in>P. \<forall>k'\<in>P. is_last ?n (pb_at ?s k) \<longrightarrow> is_last ?n (pb_at ?s k') \<longrightarrow> k = k'"
      using nolast by blast
    show "(\<exists>k\<in>P. is_last ?n (pb_at ?s k)) \<longleftrightarrow> arrivals P (Suc R) ?s = P"
      unfolding arr using nolast P by blast
    show "b_cnt (pb_bar ?s) =
        (if \<exists>k\<in>P. pb_at ?s k = PB_Incr then 0 else of_nat (card (arrivals P (Suc R) ?s)))"
      unfolding arr by (simp add: at cnt)
  qed
qed

lemma consecutive_distinct: "0 < R \<Longrightarrow> (of_nat (R - 1) :: u32) \<noteq> of_nat R"
proof -
  assume "0 < R"
  then have "(of_nat R :: u32) = of_nat (R - 1) + 1" by (metis Suc_diff_1 of_nat_Suc add.commute)
  then show ?thesis by simp
qed

lemma pb_inv_access:
  assumes inv: "pb_inv P R s" and P: "finite P" "P \<noteq> {}" "card P < 4294967296" and h: "h \<in> P"
  shows "\<exists>R'. pb_inv P R' (pb_access (of_nat (card P)) h s)"
proof (cases "pb_at s h")
  case PB_Out
  have "pb_inv P R (s\<lparr>pb_bar := pb_bar s, pb_at := (pb_at s)(h := PB_Add (b_iteration (pb_bar s))),
      pb_left := (pb_left s)(h := pb_left s h)\<rparr>)"
    using pb_invD(1,2) [OF inv] h PB_Out
    by (intro pb_inv_quiet [OF inv]) (auto simp: is_last_def dest: meta_spec [of _ h])
  then show ?thesis using PB_Out by (intro exI [of _ R]) (simp add: pb_access_def fun_upd_idem_iff)
next
  case (PB_Add p)
  then show ?thesis using pb_inv_arrive [OF inv P(1,3) h] by blast
next
  case (PB_Cmp p c)
  let ?pc = "if c = of_nat (card P) then PB_Reset else PB_Wait p"
  have loc: "pb_local (of_nat (card P)) R (PB_Cmp p c) (pb_arrived s h) (pb_left s h)"
    using pb_invD(2) [OF inv h] by (simp only: PB_Cmp)
  have "pb_inv P R (s\<lparr>pb_bar := pb_bar s, pb_at := (pb_at s)(h := ?pc),
      pb_left := (pb_left s)(h := pb_left s h)\<rparr>)"
    using h PB_Cmp loc by (intro pb_inv_quiet [OF inv]) (auto simp: is_last_def waits_def)
  then show ?thesis
    using PB_Cmp by (intro exI [of _ R]) (simp add: pb_access_def fun_upd_idem_iff split: if_splits)
next
  case PB_Reset
  have loc: "pb_local (of_nat (card P)) R PB_Reset (pb_arrived s h) (pb_left s h)"
    using pb_invD(2) [OF inv h] by (simp only: PB_Reset)
  have "pb_inv P R (s\<lparr>pb_bar := (pb_bar s)\<lparr>b_cnt := 0\<rparr>, pb_at := (pb_at s)(h := PB_Incr),
      pb_left := (pb_left s)(h := pb_left s h)\<rparr>)"
    using h PB_Reset loc by (intro pb_inv_quiet [OF inv]) (auto simp: is_last_def)
  then show ?thesis using PB_Reset by (intro exI [of _ R]) (simp add: pb_access_def fun_upd_idem_iff)
next
  case PB_Incr
  then show ?thesis using pb_inv_complete [OF inv P(2) h] by blast
next
  case (PB_Wait p)
  have loc: "waits R p (pb_arrived s h) (pb_left s h) \<or> freed R p (pb_arrived s h) (pb_left s h)"
    using pb_invD(2) [OF inv h] by (simp add: PB_Wait)
  have it: "b_iteration (pb_bar s) = of_nat R" by (rule pb_invD(1) [OF inv])
  show ?thesis
  proof (cases "p = b_iteration (pb_bar s)")
    case True
    then have "pb_access (of_nat (card P)) h s = s" using PB_Wait by (simp add: pb_access_def fun_upd_idem_iff)
    then show ?thesis using inv by auto
  next
    case False
    then have "freed R p (pb_arrived s h) (pb_left s h)" using loc it by (auto simp: waits_def)
    then have "pb_inv P R (s\<lparr>pb_bar := pb_bar s, pb_at := (pb_at s)(h := PB_Out),
        pb_left := (pb_left s)(h := Suc (pb_left s h))\<rparr>)"
      using h PB_Wait by (intro pb_inv_quiet [OF inv]) (auto simp: is_last_def freed_def)
    then show ?thesis using PB_Wait False by (intro exI [of _ R]) (simp add: pb_access_def fun_upd_idem_iff)
  qed
qed

definition pb_ok :: "hart set \<Rightarrow> pb_sys \<Rightarrow> bool" where
  "pb_ok P s \<longleftrightarrow> finite P \<and> P \<noteq> {} \<and> card P < 2 ^ 32 \<and> pb_reach P s"

lemma pb_ok_inv: "pb_ok P s \<Longrightarrow> \<exists>R. pb_inv P R s"
proof -
  assume "pb_ok P s"
  then have P: "finite P" "P \<noteq> {}" "card P < 4294967296" and r: "pb_reach P s" by (simp_all add: pb_ok_def)
  from r show "\<exists>R. pb_inv P R s"
  proof induction
    case init
    have "arrivals P 0 pb_init = {}" by (auto simp: arrivals_def pb_init_def)
    then have "pb_inv P 0 pb_init" using P(2) by (auto simp: pb_inv_def pb_init_def is_last_def)
    then show ?case by blast
  next
    case (step s h)
    then show ?case using pb_inv_access [OF _ P] by blast
  qed
qed

lemma pb_local_bounds: "pb_local n R pc a l \<Longrightarrow> l \<le> a \<and> a \<le> l + 1 \<and> l \<le> R \<and> R \<le> a"
  by (cases pc) (auto simp: waits_def freed_def)

interpretation pb: round_barrier "pb_ok P" P pb_arrived pb_left for P
proof unfold_locales
  fix s p q
  assume s: "pb_ok P s" and p: "p \<in> P"
  then obtain R where R: "pb_inv P R s" using pb_ok_inv by blast
  show "pb_left s p \<le> pb_arrived s p \<and> pb_arrived s p \<le> pb_left s p + 1"
    using pb_local_bounds [OF pb_invD(2) [OF R p]] by simp
  show "pb_left s p \<le> pb_arrived s q" if "q \<in> P"
    using pb_local_bounds [OF pb_invD(2) [OF R p]] pb_local_bounds [OF pb_invD(2) [OF R that]] by simp
qed

lemma pb_never_stuck:
  assumes "pb_ok P s"
  shows "\<exists>h\<in>P. pb_access (of_nat (card P)) h s \<noteq> s"
proof (rule ccontr)
  assume stuck: "\<not> (\<exists>h\<in>P. pb_access (of_nat (card P)) h s \<noteq> s)"
  obtain R where R: "pb_inv P R s" using pb_ok_inv [OF assms] by blast
  have w: "\<exists>p. pb_at s h = PB_Wait p \<and> p = of_nat R" if "h \<in> P" for h
  proof -
    have "pb_at (pb_access (of_nat (card P)) h s) h = pb_at s h" using stuck that by simp
    then show ?thesis
      using pb_invD(1) [OF R] by (cases "pb_at s h") (auto simp: pb_access_def Let_def split: if_splits)
  qed
  have "pb_arrived s h = Suc R" if "h \<in> P" for h
  proof -
    have "\<not> freed R (of_nat R) (pb_arrived s h) (pb_left s h)"
      using consecutive_distinct [of R] unfolding freed_def by metis
    then show ?thesis using w [OF that] pb_invD(2) [OF R that] by (auto simp: waits_def)
  qed
  then have "arrivals P R s = P" by (auto simp: arrivals_def)
  then obtain h where "h \<in> P" "is_last (of_nat (card P)) (pb_at s h)" using pb_invD(4) [OF R] by blast
  then show False using w by (auto simp: is_last_def)
qed

section \<open>Communicators and waking clusters\<close>

record snrt_comm_info_t =
  comm_barrier_ptr :: u32
  comm_size :: u32
  comm_is_participant :: bool

text \<open>
  \<open>snrt_comm_create\<close> on one core, up to the global barrier in its middle and after it: both
  allocations, the initialisation of the counter by core 0, the fields. The structure is 12
  bytes, the counter 4; memory is written one 32-bit word at a time.
\<close>

definition st32 :: "mem \<Rightarrow> u64 \<Rightarrow> u32 \<Rightarrow> mem" where
  "st32 m a v = (\<lambda>b. if unat (b - a) < 4 then ucast (drop_bit (8 * unat (b - a)) v) else m b)"

definition snrt_comm_create ::
  "snrt_cfg \<Rightarrow> hart \<Rightarrow> u32 \<Rightarrow> snrt_allocator_t \<times> snrt_allocator_t \<times> mem \<Rightarrow>
     trap + u32 \<times> snrt_comm_info_t \<times> snrt_allocator_t \<times> snrt_allocator_t \<times> mem" where
  "snrt_comm_create c h sz = (\<lambda>(l1, l3, m).
     case snrt_l1_alloc_cluster_local 12 1 l1 of
       Inl e \<Rightarrow> Inl e
     | Inr (communicator, l1') \<Rightarrow>
         (case snrt_l3_alloc_v2 4 1 l3 of
            Inl e \<Rightarrow> Inl e
          | Inr (barrier_ptr, l3') \<Rightarrow>
              Inr (communicator,
                \<lparr>comm_barrier_ptr = barrier_ptr, comm_size = sz,
                 comm_is_participant = snrt_cluster_idx c h < sz\<rparr>, l1', l3',
                if snrt_global_core_idx c h = 0 then st32 m (ucast barrier_ptr) 0 else m)))"

text \<open>The wake-up without multicast: a write to the set register of every other cluster.\<close>

definition wake_one :: "snrt_cfg \<Rightarrow> hart \<Rightarrow> u32 \<Rightarrow> nat \<Rightarrow> irq_state \<Rightarrow> irq_state" where
  "wake_one c h core_mask i s =
     (if snrt_cluster_idx c h \<noteq> of_nat i
      then s\<lparr>cl_clint := (cl_clint s)(i := cl_clint s i OR core_mask)\<rparr> else s)"

definition snrt_wake_clusters ::
  "snrt_cfg \<Rightarrow> hart \<Rightarrow> u32 \<Rightarrow> snrt_comm_info_t \<Rightarrow> irq_state \<Rightarrow> irq_state" where
  "snrt_wake_clusters c h core_mask comm s = fold (wake_one c h core_mask) [0..<unat (comm_size comm)] s"

lemma wake_one_at:
  "cl_clint (wake_one c h msk i s) k =
     (if k = i \<and> snrt_cluster_idx c h \<noteq> of_nat i then cl_clint s k OR msk else cl_clint s k)"
  by (simp add: wake_one_def)

lemma wake_fold:
  "unat (snrt_cluster_idx c h) < 4294967296 \<Longrightarrow> n \<le> 4294967296 \<Longrightarrow>
   cl_clint (fold (wake_one c h msk) [0..<n] s) k =
     (if k < n \<and> k \<noteq> unat (snrt_cluster_idx c h) then cl_clint s k OR msk else cl_clint s k)"
proof (induction n)
  case (Suc n)
  have e: "(snrt_cluster_idx c h = of_nat n) = (unat (snrt_cluster_idx c h) = n)"
  proof -
    have "unat (of_nat n :: u32) = n" using Suc.prems(2) by (intro unat_of_nat_u32) linarith
    then show ?thesis by (metis unsigned_word_eqI)
  qed
  have IH: "cl_clint (fold (wake_one c h msk) [0..<n] s) k =
     (if k < n \<and> k \<noteq> unat (snrt_cluster_idx c h) then cl_clint s k OR msk else cl_clint s k)"
    using Suc by simp
  show ?case
  proof (cases "k = n")
    case True
    then show ?thesis using IH e by (auto simp: wake_one_at)
  next
    case False
    then show ?thesis using IH by (simp add: wake_one_at less_Suc_eq)
  qed
qed simp

section \<open>The barrier between clusters\<close>

datatype ic_pc =
    IC_Out
  | IC_Cmp u32
  | IC_Reset
  | IC_Wake nat
  | IC_Wfi
  | IC_Clr

text \<open>
  The accesses of \<open>snrt_inter_cluster_barrier\<close> on the participating core of cluster \<open>k\<close>: the
  atomic increment, the comparison with the size, then reset and one wake-up per cluster of
  the communicator, or sleep until the cluster interrupt (\<open>pend k\<close>) and clear it.
\<close>

fun snrt_inter_cluster_barrier ::
  "u32 \<Rightarrow> nat \<Rightarrow> ic_pc \<Rightarrow> u32 \<times> (nat \<Rightarrow> bool) \<Rightarrow> ic_pc \<times> u32 \<times> (nat \<Rightarrow> bool)" where
  "snrt_inter_cluster_barrier sz k IC_Out (counter, pend) =
     (let cnt = counter + 1 in (IC_Cmp cnt, cnt, pend))"
| "snrt_inter_cluster_barrier sz k (IC_Cmp cnt) (counter, pend) =
     (if cnt = sz then IC_Reset else IC_Wfi, counter, pend)"
| "snrt_inter_cluster_barrier sz k IC_Reset (counter, pend) = (IC_Wake 0, 0, pend)"
| "snrt_inter_cluster_barrier sz k (IC_Wake i) (counter, pend) =
     (if i < unat sz then (IC_Wake (Suc i), counter, if k \<noteq> i then pend(i := True) else pend)
      else (IC_Out, counter, pend))"
| "snrt_inter_cluster_barrier sz k IC_Wfi (counter, pend) =
     (if pend k then IC_Clr else IC_Wfi, counter, pend)"
| "snrt_inter_cluster_barrier sz k IC_Clr (counter, pend) = (IC_Out, counter, pend(k := False))"

record ic_sys =
  ic_counter :: u32
  ic_pend :: "nat \<Rightarrow> bool"
  ic_at :: "nat \<Rightarrow> ic_pc"
  ic_arrived :: "nat \<Rightarrow> nat"
  ic_left :: "nat \<Rightarrow> nat"

definition ic_access :: "u32 \<Rightarrow> nat \<Rightarrow> ic_sys \<Rightarrow> ic_sys" where
  "ic_access sz k s =
     (case snrt_inter_cluster_barrier sz k (ic_at s k) (ic_counter s, ic_pend s) of (pc, cnt, pend) \<Rightarrow>
        s\<lparr>ic_counter := cnt, ic_pend := pend, ic_at := (ic_at s)(k := pc),
          ic_arrived := (ic_arrived s)(k := ic_arrived s k + (if ic_at s k = IC_Out then 1 else 0)),
          ic_left := (ic_left s)(k := ic_left s k + (if pc = IC_Out then 1 else 0))\<rparr>)"

definition ic_init :: ic_sys where
  "ic_init = \<lparr>ic_counter = 0, ic_pend = (\<lambda>_. False), ic_at = (\<lambda>_. IC_Out), ic_arrived = (\<lambda>_. 0),
     ic_left = (\<lambda>_. 0)\<rparr>"

inductive ic_reach :: "u32 \<Rightarrow> ic_sys \<Rightarrow> bool" for sz where
  init: "sz \<noteq> 0 \<Longrightarrow> ic_reach sz ic_init"
| step: "ic_reach sz s \<Longrightarrow> k < unat sz \<Longrightarrow> ic_reach sz (ic_access sz k s)"

subsection \<open>Invariant\<close>

text \<open>Some cluster is waking the others and has not come to cluster \<open>k\<close> yet.\<close>

definition will_wake :: "u32 \<Rightarrow> (nat \<Rightarrow> ic_pc) \<Rightarrow> nat \<Rightarrow> bool" where
  "will_wake sz at k \<longleftrightarrow> (\<exists>j < unat sz. j \<noteq> k \<and> (\<exists>i \<le> k. at j = IC_Wake i))"

definition ic_cur :: "nat \<Rightarrow> nat \<Rightarrow> nat \<Rightarrow> bool \<Rightarrow> bool \<Rightarrow> bool" where
  "ic_cur R a l pend ww \<longleftrightarrow> a = Suc R \<and> l = R \<and> \<not> pend \<and> \<not> ww"

definition ic_freed :: "nat \<Rightarrow> nat \<Rightarrow> nat \<Rightarrow> bool \<Rightarrow> bool \<Rightarrow> bool" where
  "ic_freed R a l pend ww \<longleftrightarrow> a = R \<and> Suc l = R \<and> (pend \<longleftrightarrow> \<not> ww)"

fun ic_local :: "u32 \<Rightarrow> nat \<Rightarrow> ic_pc \<Rightarrow> nat \<Rightarrow> nat \<Rightarrow> bool \<Rightarrow> bool \<Rightarrow> bool" where
  "ic_local sz R IC_Out a l pend ww \<longleftrightarrow> a = R \<and> l = R \<and> \<not> pend \<and> \<not> ww"
| "ic_local sz R (IC_Cmp c) a l pend ww \<longleftrightarrow> ic_cur R a l pend ww \<or> c \<noteq> sz \<and> ic_freed R a l pend ww"
| "ic_local sz R IC_Reset a l pend ww \<longleftrightarrow> ic_cur R a l pend ww"
| "ic_local sz R (IC_Wake i) a l pend ww \<longleftrightarrow> a = R \<and> Suc l = R \<and> \<not> pend \<and> \<not> ww"
| "ic_local sz R IC_Wfi a l pend ww \<longleftrightarrow> ic_cur R a l pend ww \<or> ic_freed R a l pend ww"
| "ic_local sz R IC_Clr a l pend ww \<longleftrightarrow> a = R \<and> Suc l = R \<and> pend \<and> \<not> ww"

definition ic_last :: "u32 \<Rightarrow> ic_pc \<Rightarrow> bool" where
  "ic_last sz pc \<longleftrightarrow> pc = IC_Reset \<or> pc = IC_Cmp sz"

definition ic_waker :: "ic_pc \<Rightarrow> bool" where
  "ic_waker pc \<longleftrightarrow> (\<exists>i. pc = IC_Wake i)"

definition ic_arrivals :: "u32 \<Rightarrow> nat \<Rightarrow> ic_sys \<Rightarrow> nat set" where
  "ic_arrivals sz R s = {k. k < unat sz \<and> ic_arrived s k = Suc R}"

definition ic_inv :: "u32 \<Rightarrow> nat \<Rightarrow> ic_sys \<Rightarrow> bool" where
  "ic_inv sz R s \<longleftrightarrow>
     (\<forall>k < unat sz. ic_local sz R (ic_at s k) (ic_arrived s k) (ic_left s k) (ic_pend s k)
                     (will_wake sz (ic_at s) k)) \<and>
     (\<forall>j < unat sz. \<forall>k < unat sz. ic_waker (ic_at s j) \<longrightarrow> ic_waker (ic_at s k) \<longrightarrow> j = k) \<and>
     (\<forall>j < unat sz. \<forall>k < unat sz. ic_last sz (ic_at s j) \<longrightarrow> ic_last sz (ic_at s k) \<longrightarrow> j = k) \<and>
     ((\<exists>k < unat sz. ic_last sz (ic_at s k)) \<longleftrightarrow> ic_arrivals sz R s = {..<unat sz}) \<and>
     ic_counter s = of_nat (card (ic_arrivals sz R s))"

lemma ic_invD:
  assumes "ic_inv sz R s"
  shows "k < unat sz \<Longrightarrow> ic_local sz R (ic_at s k) (ic_arrived s k) (ic_left s k) (ic_pend s k)
                     (will_wake sz (ic_at s) k)"
    and "j < unat sz \<Longrightarrow> k < unat sz \<Longrightarrow> ic_waker (ic_at s j) \<Longrightarrow> ic_waker (ic_at s k) \<Longrightarrow> j = k"
    and "j < unat sz \<Longrightarrow> k < unat sz \<Longrightarrow> ic_last sz (ic_at s j) \<Longrightarrow> ic_last sz (ic_at s k) \<Longrightarrow> j = k"
    and "(\<exists>k < unat sz. ic_last sz (ic_at s k)) \<longleftrightarrow> ic_arrivals sz R s = {..<unat sz}"
    and "ic_counter s = of_nat (card (ic_arrivals sz R s))"
  using assms unfolding ic_inv_def by blast+

lemma ww_keep:
  "\<not> ic_waker (at h) \<Longrightarrow> \<not> ic_waker pc \<Longrightarrow> will_wake sz (at(h := pc)) k = will_wake sz at k"
  unfolding will_wake_def ic_waker_def by (metis fun_upd_apply)

lemma ww_waker:
  assumes "h < unat sz" "at h = IC_Wake i" "\<And>j. j < unat sz \<Longrightarrow> ic_waker (at j) \<Longrightarrow> j = h"
  shows "will_wake sz at k \<longleftrightarrow> k \<noteq> h \<and> i \<le> k"
  using assms unfolding will_wake_def ic_waker_def by (metis ic_pc.inject(2))

lemma ww_none: "(\<And>j. j < unat sz \<Longrightarrow> \<not> ic_waker (at j)) \<Longrightarrow> \<not> will_wake sz at k"
  unfolding will_wake_def ic_waker_def by blast

text \<open>Accesses that neither arrive nor complete the round.\<close>

lemma ic_inv_quiet:
  assumes inv: "ic_inv sz R s" and h: "h < unat sz"
    and loc: "\<And>k. k < unat sz \<Longrightarrow> ic_local sz R (((ic_at s)(h := pc)) k) (ic_arrived s k)
      (((ic_left s)(h := l)) k) (p k) (will_wake sz ((ic_at s)(h := pc)) k)"
    and wk: "ic_waker pc \<Longrightarrow> ic_waker (ic_at s h)" and la: "ic_last sz pc = ic_last sz (ic_at s h)"
  shows "ic_inv sz R (s\<lparr>ic_pend := p, ic_at := (ic_at s)(h := pc), ic_left := (ic_left s)(h := l)\<rparr>)"
    (is "ic_inv sz R ?s")
proof -
  have last: "ic_last sz (ic_at ?s k) = ic_last sz (ic_at s k)" for k using la by simp
  have arr: "ic_arrivals sz R ?s = ic_arrivals sz R s" by (simp add: ic_arrivals_def)
  have waker: "ic_waker (ic_at ?s k) \<Longrightarrow> ic_waker (ic_at s k)" for k using wk by (cases "k = h") auto
  have 1: "\<forall>k < unat sz. ic_local sz R (ic_at ?s k) (ic_arrived ?s k) (ic_left ?s k) (ic_pend ?s k)
      (will_wake sz (ic_at ?s) k)"
    using loc by simp
  have 2: "\<forall>j < unat sz. \<forall>k < unat sz. ic_waker (ic_at ?s j) \<longrightarrow> ic_waker (ic_at ?s k) \<longrightarrow> j = k"
    using waker ic_invD(2) [OF inv] by blast
  have 3: "\<forall>j < unat sz. \<forall>k < unat sz. ic_last sz (ic_at s j) \<longrightarrow> ic_last sz (ic_at s k) \<longrightarrow> j = k"
    using ic_invD(3) [OF inv] by blast
  have 5: "ic_counter ?s = of_nat (card (ic_arrivals sz R s))" using ic_invD(5) [OF inv] by simp
  show ?thesis unfolding ic_inv_def last arr by (rule conjI [OF 1 conjI [OF 2 conjI [OF 3 conjI [OF ic_invD(4) [OF inv] 5]]]])
qed

lemma ic_inv_arrive:
  assumes inv: "ic_inv sz R s" and h: "h < unat sz" "ic_at s h = IC_Out"
  shows "ic_inv sz R (ic_access sz h s)"
proof -
  let ?s = "ic_access sz h s" and ?A = "ic_arrivals sz R s" and ?P = "{..<unat sz}"
  have lh: "ic_arrived s h = R" "ic_left s h = R" "\<not> ic_pend s h" "\<not> will_wake sz (ic_at s) h"
    using ic_invD(1) [OF inv h(1)] by (simp_all add: h(2))
  then have hA: "h \<notin> ?A" by (simp add: ic_arrivals_def)
  then have "?A \<noteq> ?P" using h(1) by auto
  then have nolast: "\<And>k. k < unat sz \<Longrightarrow> \<not> ic_last sz (ic_at s k)" using ic_invD(4) [OF inv] by blast
  have sub: "insert h ?A \<subseteq> ?P" using h(1) by (auto simp: ic_arrivals_def)
  have fin: "finite ?A" using sub by (auto intro: finite_subset)
  have card: "card (insert h ?A) = Suc (card ?A)" using fin hA by simp
  have le: "Suc (card ?A) \<le> unat sz" using card_mono [OF _ sub] card by simp
  let ?c = "ic_counter s + 1"
  have c: "?c = of_nat (Suc (card ?A))" using ic_invD(5) [OF inv] by simp
  have at: "ic_at ?s = (ic_at s)(h := IC_Cmp ?c)" "ic_left ?s = ic_left s" "ic_pend ?s = ic_pend s"
    "ic_arrived ?s = (ic_arrived s)(h := Suc R)" "ic_counter ?s = ?c"
    using h lh by (auto simp: ic_access_def Let_def)
  have arr: "ic_arrivals sz R ?s = insert h ?A" using h lh by (auto simp: ic_arrivals_def at)
  have "unat ?c = Suc (card ?A)" unfolding c using le unat_u32_bound [of sz] by (intro unat_of_nat_u32) linarith
  then have "?c = sz \<longleftrightarrow> card (insert h ?A) = card ?P" unfolding word_unat_eq_iff card by simp
  also have "\<dots> \<longleftrightarrow> insert h ?A = ?P" 
    by (rule iffI [OF card_subset_eq [OF finite_lessThan sub]]) simp_all
  finally have eqn: "?c = sz \<longleftrightarrow> insert h ?A = ?P" .
  have last: "ic_last sz (ic_at ?s k) \<longleftrightarrow> k = h \<and> insert h ?A = ?P" if "k < unat sz" for k
    using nolast [OF that] eqn by (cases "k = h") (auto simp: at ic_last_def)
  have ww: "will_wake sz (ic_at ?s) k = will_wake sz (ic_at s) k" for k
    unfolding at by (rule ww_keep) (simp_all add: h ic_waker_def)
  have waker: "ic_waker (ic_at ?s k) \<Longrightarrow> ic_waker (ic_at s k)" for k
    by (cases "k = h") (auto simp: at ic_waker_def)
  have 1: "\<forall>k < unat sz. ic_local sz R (ic_at ?s k) (ic_arrived ?s k) (ic_left ?s k) (ic_pend ?s k)
      (will_wake sz (ic_at ?s) k)"
    using ic_invD(1) [OF inv] lh by (simp add: ww) (simp add: at ic_cur_def)
  have 2: "\<forall>j < unat sz. \<forall>k < unat sz. ic_waker (ic_at ?s j) \<longrightarrow> ic_waker (ic_at ?s k) \<longrightarrow> j = k"
    using waker ic_invD(2) [OF inv] by blast
  have 3: "\<forall>j < unat sz. \<forall>k < unat sz. ic_last sz (ic_at ?s j) \<longrightarrow> ic_last sz (ic_at ?s k) \<longrightarrow> j = k"
    using last by blast
  have 4: "(\<exists>k < unat sz. ic_last sz (ic_at ?s k)) \<longleftrightarrow> insert h ?A = ?P"
    using last h(1) by blast
  have 5: "ic_counter ?s = of_nat (card (insert h ?A))" unfolding card by (simp only: at c)
  show ?thesis unfolding ic_inv_def arr by (rule conjI [OF 1 conjI [OF 2 conjI [OF 3 conjI [OF 4 5]]]])
qed

lemma ic_inv_complete:
  assumes inv: "ic_inv sz R s" and h: "h < unat sz" "ic_at s h = IC_Reset"
  shows "ic_inv sz (Suc R) (ic_access sz h s)"
proof -
  let ?s = "ic_access sz h s" and ?P = "{..<unat sz}"
  have "ic_last sz (ic_at s h)" using h by (simp add: ic_last_def)
  then have all: "ic_arrivals sz R s = ?P" and uniq: "\<And>k. k < unat sz \<Longrightarrow> ic_last sz (ic_at s k) \<Longrightarrow> k = h"
    using ic_invD(3,4) [OF inv] h(1) by blast+
  have arrk: "ic_arrived s k = Suc R" if "k < unat sz" for k using all that by (auto simp: ic_arrivals_def)
  have lock: "ic_local sz R (ic_at s k) (Suc R) (ic_left s k) (ic_pend s k) (will_wake sz (ic_at s) k)"
    if "k < unat sz" for k
    using ic_invD(1) [OF inv that] arrk [OF that] by simp
  have kinds: "(\<exists>c. ic_at s k = IC_Cmp c \<and> c \<noteq> sz \<or> ic_at s k = IC_Wfi) \<and> ic_left s k = R \<and> \<not> ic_pend s k"
    if "k < unat sz" "k \<noteq> h" for k
    using lock [OF that(1)] uniq [OF that(1)] that(2)
    by (cases "ic_at s k") (auto simp: ic_last_def ic_cur_def ic_freed_def)
  have lh: "ic_left s h = R" "\<not> ic_pend s h" using lock [OF h(1)] by (simp_all add: h(2) ic_cur_def)
  have at: "ic_at ?s = (ic_at s)(h := IC_Wake 0)" "ic_left ?s = ic_left s" "ic_pend ?s = ic_pend s"
    "ic_arrived ?s = ic_arrived s" "ic_counter ?s = 0"
    using h by (auto simp: ic_access_def)
  have wk: "ic_waker (ic_at ?s k) \<longleftrightarrow> k = h" if "k < unat sz" for k
    using kinds [OF that] by (cases "k = h") (auto simp: at ic_waker_def)
  have ww: "will_wake sz (ic_at ?s) k \<longleftrightarrow> k \<noteq> h" for k
    using ww_waker [of h sz "ic_at ?s" 0 k] wk h(1) by (simp add: at)
  have nolast: "\<not> ic_last sz (ic_at ?s k)" if "k < unat sz" for k
    using uniq [OF that] by (cases "k = h") (auto simp: at ic_last_def)
  have arr: "ic_arrivals sz (Suc R) ?s = {}" using arrk by (auto simp: ic_arrivals_def at)
  have 1: "\<forall>k < unat sz. ic_local sz (Suc R) (ic_at ?s k) (ic_arrived ?s k) (ic_left ?s k) (ic_pend ?s k)
      (will_wake sz (ic_at ?s) k)"
  proof (intro allI impI)
    fix k assume k: "k < unat sz"
    show "ic_local sz (Suc R) (ic_at ?s k) (ic_arrived ?s k) (ic_left ?s k) (ic_pend ?s k)
        (will_wake sz (ic_at ?s) k)"
      unfolding ww using kinds [OF k] arrk [OF k] lh by (cases "k = h") (auto simp: at ic_freed_def)
  qed
  have 2: "\<forall>j < unat sz. \<forall>k < unat sz. ic_waker (ic_at ?s j) \<longrightarrow> ic_waker (ic_at ?s k) \<longrightarrow> j = k"
    using wk by blast
  have 3: "\<forall>j < unat sz. \<forall>k < unat sz. ic_last sz (ic_at ?s j) \<longrightarrow> ic_last sz (ic_at ?s k) \<longrightarrow> j = k"
    using nolast by blast
  have 4: "(\<exists>k < unat sz. ic_last sz (ic_at ?s k)) \<longleftrightarrow> {} = ?P"
    using nolast h(1) by blast
  have 5: "ic_counter ?s = of_nat (card ({} :: nat set))" by (simp add: at)
  show ?thesis unfolding ic_inv_def arr by (rule conjI [OF 1 conjI [OF 2 conjI [OF 3 conjI [OF 4 5]]]])
qed

lemma ic_inv_wake:
  assumes inv: "ic_inv sz R s" and h: "h < unat sz" "ic_at s h = IC_Wake i"
  shows "ic_inv sz R (ic_access sz h s)"
proof -
  have uniq: "j < unat sz \<Longrightarrow> ic_waker (ic_at s j) \<Longrightarrow> j = h" for j
    using ic_invD(2) [OF inv _ h(1)] h(2) by (auto simp: ic_waker_def)
  have ww: "will_wake sz (ic_at s) k \<longleftrightarrow> k \<noteq> h \<and> i \<le> k" for k
    by (rule ww_waker [where i = i]) (use h uniq in auto)
  have lh: "ic_arrived s h = R" "Suc (ic_left s h) = R" "\<not> ic_pend s h"
    using ic_invD(1) [OF inv h(1)] by (simp_all add: h(2))
  have nw: "\<not> ic_waker (ic_at s j)" if "j < unat sz" "j \<noteq> h" for j using uniq that by blast
  show ?thesis
  proof (cases "i < unat sz")
    case True
    let ?p = "if h \<noteq> i then (ic_pend s)(i := True) else ic_pend s"
    have ww': "will_wake sz ((ic_at s)(h := IC_Wake (Suc i))) k \<longleftrightarrow> k \<noteq> h \<and> Suc i \<le> k" for k
      by (rule ww_waker [where i = "Suc i"]) (use h nw in \<open>auto simp: ic_waker_def split: if_splits\<close>)
    have "ic_inv sz R (s\<lparr>ic_pend := ?p, ic_at := (ic_at s)(h := IC_Wake (Suc i)),
        ic_left := (ic_left s)(h := ic_left s h)\<rparr>)"
    proof (rule ic_inv_quiet [OF inv h(1)])
      fix k assume k: "k < unat sz"
      show "ic_local sz R (((ic_at s)(h := IC_Wake (Suc i))) k) (ic_arrived s k)
          (((ic_left s)(h := ic_left s h)) k) (?p k) (will_wake sz ((ic_at s)(h := IC_Wake (Suc i))) k)"
      proof (cases "k = h")
        case True
        then show ?thesis using lh ww' by auto
      next
        case False
        have l: "ic_local sz R (ic_at s k) (ic_arrived s k) (ic_left s k) (ic_pend s k) (i \<le> k)"
          using ic_invD(1) [OF inv k] ww [of k] False by simp
        show ?thesis
        proof (cases "k = i")
          case True
          then show ?thesis using l ww' [of k] nw [OF k False] False
            by (cases "ic_at s k") (auto simp: ic_cur_def ic_freed_def ic_waker_def)
        next
          case False
          then have "(Suc i \<le> k) = (i \<le> k)" by auto
          then show ?thesis using l ww' [of k] \<open>k \<noteq> h\<close> False by simp
        qed
      qed
    qed (simp_all add: h ic_waker_def ic_last_def)
    then show ?thesis using h True by (simp add: ic_access_def)
  next
    case False
    have ww': "\<not> will_wake sz ((ic_at s)(h := IC_Out)) k" for k
      by (rule ww_none) (use nw in \<open>auto simp: ic_waker_def split: if_splits\<close>)
    have "ic_inv sz R (s\<lparr>ic_pend := ic_pend s, ic_at := (ic_at s)(h := IC_Out),
        ic_left := (ic_left s)(h := Suc (ic_left s h))\<rparr>)"
    proof (rule ic_inv_quiet [OF inv h(1)])
      fix k assume k: "k < unat sz"
      have "ic_local sz R (ic_at s k) (ic_arrived s k) (ic_left s k) (ic_pend s k) False"
        using ic_invD(1) [OF inv k] ww [of k] k False by simp
      then show "ic_local sz R (((ic_at s)(h := IC_Out)) k) (ic_arrived s k)
          (((ic_left s)(h := Suc (ic_left s h))) k) (ic_pend s k) (will_wake sz ((ic_at s)(h := IC_Out)) k)"
        using lh ww' by simp
    qed (simp_all add: h ic_waker_def ic_last_def)
    then show ?thesis using h False by (simp add: ic_access_def fun_upd_idem_iff)
  qed
qed

lemma ic_inv_access:
  assumes inv: "ic_inv sz R s" and h: "h < unat sz"
  shows "\<exists>R'. ic_inv sz R' (ic_access sz h s)"
proof (cases "ic_at s h")
  case IC_Out
  then show ?thesis using ic_inv_arrive [OF inv h] by blast
next
  case IC_Reset
  then show ?thesis using ic_inv_complete [OF inv h] by blast
next
  case (IC_Wake i)
  then show ?thesis using ic_inv_wake [OF inv h] by blast
next
  case (IC_Cmp c)
  let ?pc = "if c = sz then IC_Reset else IC_Wfi"
  have ww: "will_wake sz ((ic_at s)(h := ?pc)) k = will_wake sz (ic_at s) k" for k
    by (rule ww_keep) (simp_all add: IC_Cmp ic_waker_def)
  have "ic_inv sz R (s\<lparr>ic_pend := ic_pend s, ic_at := (ic_at s)(h := ?pc),
      ic_left := (ic_left s)(h := ic_left s h)\<rparr>)"
  proof (rule ic_inv_quiet [OF inv h])
    fix k assume "k < unat sz"
    then show "ic_local sz R (((ic_at s)(h := ?pc)) k) (ic_arrived s k)
        (((ic_left s)(h := ic_left s h)) k) (ic_pend s k) (will_wake sz ((ic_at s)(h := ?pc)) k)"
      unfolding ww using ic_invD(1) [OF inv, of k] IC_Cmp by auto
  qed (simp_all add: IC_Cmp ic_waker_def ic_last_def split: if_splits)
  then show ?thesis
    using IC_Cmp by (intro exI [of _ R]) (simp add: ic_access_def fun_upd_idem_iff split: if_splits)
next
  case IC_Wfi
  show ?thesis
  proof (cases "ic_pend s h")
    case True
    have ww: "will_wake sz ((ic_at s)(h := IC_Clr)) k = will_wake sz (ic_at s) k" for k
      by (rule ww_keep) (simp_all add: IC_Wfi ic_waker_def)
    have "ic_inv sz R (s\<lparr>ic_pend := ic_pend s, ic_at := (ic_at s)(h := IC_Clr),
        ic_left := (ic_left s)(h := ic_left s h)\<rparr>)"
    proof (rule ic_inv_quiet [OF inv h])
      fix k assume "k < unat sz"
      then show "ic_local sz R (((ic_at s)(h := IC_Clr)) k) (ic_arrived s k)
          (((ic_left s)(h := ic_left s h)) k) (ic_pend s k) (will_wake sz ((ic_at s)(h := IC_Clr)) k)"
        unfolding ww using ic_invD(1) [OF inv, of k] IC_Wfi True by (auto simp: ic_cur_def ic_freed_def)
    qed (simp_all add: IC_Wfi ic_waker_def ic_last_def)
    then show ?thesis using IC_Wfi True by (intro exI [of _ R]) (simp add: ic_access_def fun_upd_idem_iff)
  next
    case False
    then have "ic_access sz h s = s" using IC_Wfi by (simp add: ic_access_def fun_upd_idem_iff)
    then show ?thesis using inv by auto
  qed
next
  case IC_Clr
  have ww: "will_wake sz ((ic_at s)(h := IC_Out)) k = will_wake sz (ic_at s) k" for k
    by (rule ww_keep) (simp_all add: IC_Clr ic_waker_def)
  have "ic_inv sz R (s\<lparr>ic_pend := (ic_pend s)(h := False), ic_at := (ic_at s)(h := IC_Out),
      ic_left := (ic_left s)(h := Suc (ic_left s h))\<rparr>)"
  proof (rule ic_inv_quiet [OF inv h])
    fix k assume "k < unat sz"
    then show "ic_local sz R (((ic_at s)(h := IC_Out)) k) (ic_arrived s k)
        (((ic_left s)(h := Suc (ic_left s h))) k) (((ic_pend s)(h := False)) k)
        (will_wake sz ((ic_at s)(h := IC_Out)) k)"
      unfolding ww using ic_invD(1) [OF inv, of k] IC_Clr by auto
  qed (simp_all add: IC_Clr ic_waker_def ic_last_def)
  then show ?thesis using IC_Clr by (intro exI [of _ R]) (simp add: ic_access_def fun_upd_idem_iff)
qed

lemma ic_reach_inv: "ic_reach sz s \<Longrightarrow> \<exists>R. ic_inv sz R s"
proof (induction rule: ic_reach.induct)
  case init
  then have "0 < unat sz" by (simp add: unat_gt_0)
  moreover have "ic_arrivals sz 0 ic_init = {}" by (auto simp: ic_arrivals_def ic_init_def)
  moreover have "\<not> will_wake sz (\<lambda>_. IC_Out) k" for k by (simp add: will_wake_def)
  ultimately have "ic_inv sz 0 ic_init"
    by (auto simp: ic_inv_def ic_init_def ic_last_def ic_waker_def)
  then show ?case by blast
next
  case (step s k)
  then show ?case using ic_inv_access by blast
qed

lemma ic_local_bounds: "ic_local sz R pc a l p w \<Longrightarrow> l \<le> a \<and> a \<le> l + 1 \<and> l \<le> R \<and> R \<le> a"
  by (cases pc) (auto simp: ic_cur_def ic_freed_def)

interpretation ic: round_barrier "ic_reach sz" "{..<unat sz}" ic_arrived ic_left for sz
proof unfold_locales
  fix s p q
  assume s: "ic_reach sz s" and p: "p \<in> {..<unat sz}"
  then obtain R where R: "ic_inv sz R s" using ic_reach_inv by blast
  show "ic_left s p \<le> ic_arrived s p \<and> ic_arrived s p \<le> ic_left s p + 1"
    using ic_local_bounds [OF ic_invD(1) [OF R, of p]] p by simp
  show "ic_left s p \<le> ic_arrived s q" if "q \<in> {..<unat sz}"
    using ic_local_bounds [OF ic_invD(1) [OF R, of p]] ic_local_bounds [OF ic_invD(1) [OF R, of q]] p that
    by simp
qed

lemma ic_never_stuck:
  assumes "ic_reach sz s" "sz \<noteq> 0"
  shows "\<exists>k < unat sz. ic_access sz k s \<noteq> s"
proof (rule ccontr)
  assume stuck: "\<not> (\<exists>k < unat sz. ic_access sz k s \<noteq> s)"
  obtain R where R: "ic_inv sz R s" using ic_reach_inv [OF assms(1)] by blast
  have w: "ic_at s k = IC_Wfi \<and> \<not> ic_pend s k" if "k < unat sz" for k
  proof -
    have e: "ic_access sz k s = s" using stuck that by blast
    then have "ic_at (ic_access sz k s) k = ic_at s k" by simp
    then show ?thesis
      by (cases "ic_at s k") (auto simp: ic_access_def Let_def split: if_splits)
  qed
  then have "\<not> will_wake sz (ic_at s) k" for k by (intro ww_none) (auto simp: ic_waker_def)
  then have "ic_arrived s k = Suc R" if "k < unat sz" for k
    using ic_invD(1) [OF R that] w [OF that] by (auto simp: ic_cur_def ic_freed_def)
  then have "ic_arrivals sz R s = {..<unat sz}" by (auto simp: ic_arrivals_def)
  then obtain k where "k < unat sz" "ic_last sz (ic_at s k)" using ic_invD(4) [OF R] by blast
  then show False using w by (auto simp: ic_last_def)
qed

section \<open>The global barrier\<close>

text \<open>The synchronisation operations of a core in \<open>snrt_global_barrier\<close>.\<close>

datatype sync_op = HwBarrier | InterClusterBarrier

definition snrt_global_barrier :: "snrt_cfg \<Rightarrow> hart \<Rightarrow> sync_op list" where
  "snrt_global_barrier c h =
     [HwBarrier] @ (if snrt_is_dm_core c h then [InterClusterBarrier] else []) @ [HwBarrier]"

section \<open>Properties\<close>

text \<open>
  C7: the partial barrier: in every interleaving of the harts that use it, over any number of
  rounds, no hart has left the barrier more often than any other hart has arrived at it.
\<close>

theorem partial_barrier_safe:
  assumes "finite P" "card P < 2 ^ 32" "pb_reach P s" "h \<in> P" "h' \<in> P"
  shows "pb_left s h \<le> pb_arrived s h'"
  using pb.safe [of P s h h'] assms by (auto simp: pb_ok_def)

text \<open>
  C8: the partial barrier does not get stuck: in every reachable state some hart has an access
  to make that changes the state, so the harts are never all spinning for each other.
\<close>

theorem partial_barrier_progress:
  assumes "finite P" "P \<noteq> {}" "card P < 2 ^ 32" "pb_reach P s"
  shows "\<exists>h\<in>P. pb_access (of_nat (card P)) h s \<noteq> s"
  using pb_never_stuck [of P s] assms by (auto simp: pb_ok_def)

text \<open>
  C5: the barrier between clusters: in every interleaving, with wake-ups that overlap the next
  round, no cluster has left the barrier more often than any other has arrived at it: an
  interrupt never releases a cluster from a round that is not complete.
\<close>

theorem inter_cluster_barrier_safe:
  assumes "ic_reach sz s" "j < unat sz" "k < unat sz"
  shows "ic_left s j \<le> ic_arrived s k"
  using ic.safe [of sz s j k] assms by simp

text \<open>
  C6: the barrier between clusters does not lose a wake-up: in every reachable state some
  cluster can make an access that changes the state, so the clusters are never all asleep.
\<close>

theorem inter_cluster_barrier_progress:
  assumes "ic_reach sz s" "sz \<noteq> 0"
  shows "\<exists>k < unat sz. ic_access sz k s \<noteq> s"
  by (rule ic_never_stuck [OF assms])

text \<open>
  C21: \<open>snrt_wake_clusters\<close> sets the given cores' interrupts in every other cluster of the
  communicator and leaves the caller's own cluster and all clusters outside it alone.
\<close>

theorem wake_clusters_exact:
  "cl_clint (snrt_wake_clusters c h core_mask comm s) k =
     (if k < unat (comm_size comm) \<and> k \<noteq> unat (snrt_cluster_idx c h)
      then cl_clint s k OR core_mask else cl_clint s k)"
proof -
  have "unat (comm_size comm) \<le> 4294967296" using unat_u32_bound [of "comm_size comm"] by linarith
  then show ?thesis
    unfolding snrt_wake_clusters_def by (intro wake_fold unat_u32_bound)
qed

text \<open>Two harts at the barrier, the first waiting for the second.\<close>

definition sample_pb :: pb_sys where
  "sample_pb = (pb_access 2 1 ^^ 3) pb_init"

lemma sample_pb_reach: "pb_reach {1, 2} sample_pb"
proof -
  have c: "of_nat (card {1, 2 :: u32}) = (2 :: u32)" by simp
  have s: "pb_reach {1, 2} s \<Longrightarrow> pb_reach {1, 2} (pb_access 2 1 s)" for s
    using pb_reach.step [of "{1, 2}" s 1] by (simp only: c insertI1)
  have "pb_reach {1, 2} (pb_access 2 1 (pb_access 2 1 (pb_access 2 1 pb_init)))"
    by (intro s pb_reach.init)
  then show ?thesis by (simp add: sample_pb_def eval_nat_numeral)
qed

theorem partial_barrier_safe_witness:
  "pb_arrived sample_pb 1 = 1 \<and> pb_at sample_pb 1 = PB_Wait 0 \<and> pb_left sample_pb 1 \<le> pb_arrived sample_pb 2"
proof -
  have "pb_left sample_pb 1 \<le> pb_arrived sample_pb 2"
    by (rule partial_barrier_safe [OF _ _ sample_pb_reach]) simp_all
  then show ?thesis
    by (simp add: sample_pb_def pb_access_def pb_init_def eval_nat_numeral Let_def)
qed

theorem partial_barrier_progress_witness:
  "\<exists>h\<in>{1, 2}. pb_access (of_nat (card {1, 2 :: u32})) h sample_pb \<noteq> sample_pb"
  by (rule partial_barrier_progress [OF _ _ _ sample_pb_reach]) simp_all

definition sample_ic :: ic_sys where
  "sample_ic = ic_access 2 0 (ic_access 2 0 ic_init)"

lemma sample_ic_reach: "ic_reach 2 sample_ic"
  unfolding sample_ic_def by (intro ic_reach.intros) simp_all

theorem inter_cluster_barrier_safe_witness:
  "ic_at sample_ic 0 = IC_Wfi \<and> ic_left sample_ic 0 \<le> ic_arrived sample_ic 1"
proof -
  have "ic_left sample_ic 0 \<le> ic_arrived sample_ic 1"
    by (rule inter_cluster_barrier_safe [OF sample_ic_reach]) simp_all
  then show ?thesis by (simp add: sample_ic_def ic_access_def ic_init_def Let_def)
qed

theorem inter_cluster_barrier_progress_witness:
  "\<exists>k < unat (2 :: u32). ic_access 2 k sample_ic \<noteq> sample_ic"
  by (rule inter_cluster_barrier_progress [OF sample_ic_reach]) simp

end
