(* ===== verification/Reduction.thy ===== *)
theory Reduction
  imports Irq
begin

text \<open>
  The reductions of \<open>sw/runtime/src/sync.h\<close>: \<open>snrt_global_all_to_all_reduction\<close>, whose phases
  between barriers are taken in any order of the cores, and \<open>snrt_global_reduction_dma\<close>, the
  logarithmic sum over the clusters of a communicator, over any element type and addition
  (floating-point addition is not associative: the result is the sum in the order of the tree).
\<close>

section \<open>The all-to-all reduction\<close>

record red_state =
  cluster_result :: "nat \<Rightarrow> u32"
  reduction_result :: u32

text \<open>The atomic operations: into the cluster's word, from it into the global word, and back.\<close>

definition red_local :: "snrt_cfg \<Rightarrow> (hart \<Rightarrow> u32) \<Rightarrow> hart \<Rightarrow> red_state \<Rightarrow> red_state" where
  "red_local c v h s =
     (let k = my_cluster c h in
      s\<lparr>cluster_result := (cluster_result s)(k := cluster_result s k + v h)\<rparr>)"

definition red_global :: "snrt_cfg \<Rightarrow> hart \<Rightarrow> red_state \<Rightarrow> red_state" where
  "red_global c h s = s\<lparr>reduction_result := reduction_result s + cluster_result s (my_cluster c h)\<rparr>"

definition red_back :: "snrt_cfg \<Rightarrow> hart \<Rightarrow> red_state \<Rightarrow> red_state" where
  "red_back c h s = s\<lparr>cluster_result := (cluster_result s)(my_cluster c h := reduction_result s)\<rparr>"

text \<open>
  The accesses up to the inter-cluster barrier. The hardware barrier of a cluster orders the
  addition of its data mover after those of its own cores only, so the order of all of them is
  any list of events that respects it.
\<close>

datatype red_ev = RLocal hart | RGlobal hart

fun red_access :: "snrt_cfg \<Rightarrow> (hart \<Rightarrow> u32) \<Rightarrow> red_ev \<Rightarrow> red_state \<Rightarrow> red_state" where
  "red_access c v (RLocal h) = red_local c v h"
| "red_access c v (RGlobal h) = red_global c h"

text \<open>
  The call on all cores: \<open>es\<close> is the order of the accesses before the inter-cluster barrier and
  \<open>o3\<close> the order in which the data movers copy the result back after it.
\<close>

definition snrt_global_all_to_all_reduction ::
  "snrt_cfg \<Rightarrow> red_ev list \<Rightarrow> hart list \<Rightarrow> (hart \<Rightarrow> u32) \<Rightarrow> red_state \<Rightarrow> red_state \<times> (hart \<Rightarrow> u32)" where
  "snrt_global_all_to_all_reduction c es o3 v s =
     (let s = fold (red_access c v) es s;
          s = fold (red_back c) o3 s
      in (s, \<lambda>h. cluster_result s (my_cluster c h)))"

text \<open>The orders the barriers allow: every core once, each data mover after its cluster.\<close>

primrec hw_barrier_ordered :: "snrt_cfg \<Rightarrow> hart list \<Rightarrow> hart list \<Rightarrow> red_ev list \<Rightarrow> bool" where
  "hw_barrier_ordered c H seen [] \<longleftrightarrow> True"
| "hw_barrier_ordered c H seen (e # es) \<longleftrightarrow>
     (case e of
        RLocal h \<Rightarrow> hw_barrier_ordered c H (h # seen) es
      | RGlobal d \<Rightarrow> list_all (\<lambda>h. my_cluster c h = my_cluster c d \<longrightarrow> h \<in> set seen) H \<and>
          hw_barrier_ordered c H seen es)"

primrec locals_of :: "red_ev list \<Rightarrow> hart list" where
  "locals_of [] = []"
| "locals_of (e # es) = (case e of RLocal h \<Rightarrow> h # locals_of es | RGlobal _ \<Rightarrow> locals_of es)"

primrec globals_of :: "red_ev list \<Rightarrow> hart list" where
  "globals_of [] = []"
| "globals_of (e # es) = (case e of RLocal _ \<Rightarrow> globals_of es | RGlobal h \<Rightarrow> h # globals_of es)"

definition hart_list :: "snrt_cfg \<Rightarrow> hart list" where
  "hart_list c = concat (map (\<lambda>cl. map (hart_of c cl) [0..<unat (SNRT_CLUSTER_CORE_NUM c)])
     [0..<unat (SNRT_CLUSTER_NUM c)])"

definition reduction_order :: "snrt_cfg \<Rightarrow> red_ev list \<Rightarrow> hart list \<Rightarrow> bool" where
  "reduction_order c es o3 \<longleftrightarrow>
     hw_barrier_ordered c (hart_list c) [] es \<and>
     distinct (locals_of es) \<and> set (locals_of es) = set (hart_list c) \<and>
     distinct (globals_of es) \<and> set (globals_of es) = set (filter (snrt_is_dm_core c) (hart_list c)) \<and>
     set o3 = set (filter (snrt_is_dm_core c) (hart_list c))"

lemma set_hart_list:
  assumes "cfg_wf c"
  shows "set (hart_list c) = harts c"
proof
  show "set (hart_list c) \<subseteq> harts c"
    using unat_hart_of(2) [OF assms] by (auto simp: hart_list_def)
  show "harts c \<subseteq> set (hart_list c)"
  proof
    fix h assume h: "h \<in> harts c"
    show "h \<in> set (hart_list c)"
      using idx_bounds [OF assms h] imageI [of "unat (snrt_cluster_core_idx c h)" _
        "hart_of c (unat (snrt_cluster_idx c h))"]
      by (fastforce simp: hart_list_def idx_hart_of [OF assms h])
  qed
qed

text \<open>What the sequence of accesses computes.\<close>

definition share :: "snrt_cfg \<Rightarrow> (hart \<Rightarrow> u32) \<Rightarrow> nat \<Rightarrow> hart list \<Rightarrow> u32" where
  "share c v k hs = (\<Sum>h\<leftarrow>hs. if my_cluster c h = k then v h else 0)"

lemma share_simps [simp]:
  "share c v k [] = 0"
  "share c v k (h # hs) = (if my_cluster c h = k then v h else 0) + share c v k hs"
  by (simp_all add: share_def)

lemma share_set:
  "distinct hs \<Longrightarrow> share c v k hs = (\<Sum>h\<in>set hs. if my_cluster c h = k then v h else 0)"
  by (simp add: share_def sum_list_distinct_conv_sum_set)

lemma share_none: "\<forall>h\<in>set hs. my_cluster c h \<noteq> k \<Longrightarrow> share c v k hs = 0"
  by (induction hs) auto

lemma fold_access_local:
  "cluster_result (fold (red_access c v) es s) k = cluster_result s k + share c v k (locals_of es)"
  by (induction es arbitrary: s) (auto simp: red_local_def red_global_def Let_def split: red_ev.splits)

text \<open>
  A data mover adds its cluster's word when no core of the cluster is still to come: what it adds
  is the final value of the word.
\<close>

lemma fold_access_global:
  assumes "hw_barrier_ordered c H seen es" "distinct (seen @ locals_of es)" "set (locals_of es) \<subseteq> set H"
  shows "reduction_result (fold (red_access c v) es s) = reduction_result s +
    (\<Sum>d\<leftarrow>globals_of es. cluster_result s (my_cluster c d) + share c v (my_cluster c d) (locals_of es))"
  using assms
proof (induction es arbitrary: s seen)
  case (Cons e es)
  show ?case
  proof (cases e)
    case (RLocal h)
    have "reduction_result (fold (red_access c v) es (red_local c v h s)) =
        reduction_result (red_local c v h s) +
        (\<Sum>d\<leftarrow>globals_of es. cluster_result (red_local c v h s) (my_cluster c d) +
           share c v (my_cluster c d) (locals_of es))"
      using Cons.prems RLocal by (intro Cons.IH [of "h # seen"]) auto
    also have "\<dots> = reduction_result s +
        (\<Sum>d\<leftarrow>globals_of es. cluster_result s (my_cluster c d) +
           share c v (my_cluster c d) (h # locals_of es))"
      by (auto simp: red_local_def Let_def algebra_simps intro!: arg_cong [where f = sum_list])
    finally show ?thesis using RLocal by simp
  next
    case (RGlobal d)
    have "share c v (my_cluster c d) (locals_of es) = 0"
      using Cons.prems RGlobal by (intro share_none) (auto simp: list_all_iff)
    then show ?thesis
      using Cons.IH [of seen "red_global c d s"] Cons.prems RGlobal
      by (simp add: red_global_def add.assoc)
  qed
qed simp

lemma fold_red_back:
  "reduction_result (fold (red_back c) hs s) = reduction_result s \<and>
   cluster_result (fold (red_back c) hs s) k =
     (if k \<in> my_cluster c ` set hs then reduction_result s else cluster_result s k)"
  by (induction hs arbitrary: s) (auto simp: red_back_def)

text \<open>With one data mover per cluster, the data movers stand for the clusters.\<close>

lemma dm_cores_bij:
  assumes "cfg_wf c" "SNRT_CLUSTER_DM_CORE_NUM c = 1"
  shows "bij_betw (my_cluster c) {h \<in> harts c. snrt_is_dm_core c h} {..<unat (SNRT_CLUSTER_NUM c)}"
proof -
  let ?N = "unat (SNRT_CLUSTER_CORE_NUM c)"
  have N: "0 < ?N" "unat (snrt_cluster_compute_core_num c) = ?N - 1"
    using assms by (simp_all add: cfg_wf_def unat_compute_core_num)
  have dm: "snrt_is_dm_core c h \<longleftrightarrow> unat (snrt_cluster_core_idx c h) = ?N - 1" if "h \<in> harts c" for h
    using idx_bounds(2) [OF assms(1) that] N
    by (auto simp: snrt_is_dm_core_def snrt_is_compute_core_def word_less_nat_alt)
  have inv: "hart_of c (my_cluster c h) (?N - 1) = h" if "h \<in> harts c" "snrt_is_dm_core c h" for h
    using idx_hart_of [OF assms(1) that(1)] dm that by (simp add: my_cluster_def)
  show ?thesis
    by (rule bij_betw_byWitness [where f' = "\<lambda>k. hart_of c k (?N - 1)"])
      (use N dm inv in \<open>auto simp: my_cluster_def hart_of_idx [OF assms(1)]
         idx_bounds [OF assms(1)] unat_hart_of [OF assms(1)]\<close>)
qed

lemma sum_by_cluster:
  assumes "cfg_wf c"
  shows "(\<Sum>k<unat (SNRT_CLUSTER_NUM c). \<Sum>h\<in>harts c. if my_cluster c h = k then v h else (0 :: u32))
    = (\<Sum>h\<in>harts c. v h)"
proof -
  have fin: "finite (harts c)" by (rule finite)
  have "(\<Sum>k<unat (SNRT_CLUSTER_NUM c). \<Sum>h\<in>harts c. if my_cluster c h = k then v h else (0 :: u32))
      = (\<Sum>h\<in>harts c. \<Sum>k<unat (SNRT_CLUSTER_NUM c). if my_cluster c h = k then v h else 0)"
    by (rule sum.swap)
  also have "\<dots> = (\<Sum>h\<in>harts c. v h)"
    using idx_bounds(1) [OF assms] by (intro sum.cong) (auto simp: my_cluster_def)
  finally show ?thesis .
qed


lemma reduction_value:
  assumes c: "cfg_wf c" "SNRT_CLUSTER_DM_CORE_NUM c = 1" and o: "reduction_order c es o3"
    and h: "h \<in> harts c"
  shows "snd (snrt_global_all_to_all_reduction c es o3 v s) h = reduction_result s +
    (\<Sum>k<unat (SNRT_CLUSTER_NUM c). cluster_result s k) + (\<Sum>h\<in>harts c. v h)"
proof -
  let ?K = "{..<unat (SNRT_CLUSTER_NUM c)}" and ?D = "{h \<in> harts c. snrt_is_dm_core c h}"
  let ?w = "\<lambda>k. cluster_result s k + share c v k (locals_of es)"
  have es: "hw_barrier_ordered c (hart_list c) [] es" "distinct (locals_of es)"
    "set (locals_of es) = harts c" "distinct (globals_of es)" "set (globals_of es) = ?D" "set o3 = ?D"
    using o by (auto simp: reduction_order_def set_hart_list [OF c(1)])
  note bij = dm_cores_bij [OF c]
  have "reduction_result (fold (red_access c v) es s) =
      reduction_result s + (\<Sum>d\<in>?D. ?w (my_cluster c d))"
    using fold_access_global [OF es(1), of v s] es set_hart_list [OF c(1)]
    by (simp add: sum_list_distinct_conv_sum_set)
  also have "(\<Sum>d\<in>?D. ?w (my_cluster c d)) = (\<Sum>k\<in>?K. ?w k)"
    by (rule sum.reindex_bij_betw [OF bij])
  also have "\<dots> = (\<Sum>k\<in>?K. cluster_result s k) + (\<Sum>h\<in>harts c. v h)"
    using sum_by_cluster [OF c(1), of v] es by (simp add: sum.distrib share_set)
  finally have r: "reduction_result (fold (red_access c v) es s) = reduction_result s +
      ((\<Sum>k\<in>?K. cluster_result s k) + (\<Sum>h\<in>harts c. v h))" .
  have "my_cluster c h \<in> my_cluster c ` ?D"
    using bij idx_bounds(1) [OF c(1) h] by (simp add: bij_betw_def my_cluster_def)
  then have "my_cluster c h \<in> my_cluster c ` set o3" by (simp only: es(6))
  then show ?thesis
    using r by (simp add: snrt_global_all_to_all_reduction_def fold_red_back add.assoc Let_def)
qed

text \<open>
  C31: The global reduction. In every order of the accesses that the barriers allow, with one data
  mover per cluster, every core returns the sum modulo \<open>2^32\<close> of the values of all cores, on top of
  what the accumulators held on entry: the accumulators start at zero, and the first call returns
  exactly the sum.
\<close>

theorem all_to_all_reduction_sum:
  assumes "cfg_wf c" "SNRT_CLUSTER_DM_CORE_NUM c = 1" "reduction_order c es o3" "h \<in> harts c"
  shows "snd (snrt_global_all_to_all_reduction c es o3 v s) h = reduction_result s +
    (\<Sum>k<unat (SNRT_CLUSTER_NUM c). cluster_result s k) + (\<Sum>h\<in>harts c. v h)"
  using assms by (rule reduction_value)

section \<open>The reduction tree\<close>

fun ceil_log2 :: "nat \<Rightarrow> nat" where
  "ceil_log2 n = (if n \<le> 1 then 0 else Suc (ceil_log2 ((n + 1) div 2)))"

declare ceil_log2.simps [simp del]

text \<open>Buffers: cluster and index to element.\<close>

type_synonym 'a bufs = "nat \<Rightarrow> nat \<Rightarrow> 'a"

definition is_active :: "nat \<Rightarrow> nat \<Rightarrow> bool" where
  "is_active level k \<longleftrightarrow> k mod 2 ^ level = 0"

definition is_sender :: "nat \<Rightarrow> nat \<Rightarrow> bool" where
  "is_sender level k \<longleftrightarrow> k mod 2 ^ (level + 1) \<noteq> 0"

text \<open>The transfer of a sender to the destination buffer of its receiver.\<close>

definition red_send :: "nat \<Rightarrow> nat \<Rightarrow> nat \<Rightarrow> 'a bufs \<times> 'a bufs \<Rightarrow> 'a bufs \<times> 'a bufs" where
  "red_send level len k = (\<lambda>(src, dst).
     if is_active level k \<and> is_sender level k
     then (src, dst(k - 2 ^ level := (\<lambda>i. if i < len then src k i else dst (k - 2 ^ level) i)))
     else (src, dst))"

text \<open>The additions of compute core \<open>core\<close> of a receiver, then of all its cores.\<close>

definition red_core :: "('a \<Rightarrow> 'a \<Rightarrow> 'a) \<Rightarrow> nat \<Rightarrow> nat \<Rightarrow> nat \<Rightarrow> nat \<Rightarrow> 'a bufs \<times> 'a bufs \<Rightarrow> 'a bufs \<times> 'a bufs" where
  "red_core add len ncores k core = (\<lambda>(src, dst).
     let items_per_core = len div ncores; core_offset = core * items_per_core
     in (fold (\<lambda>i src. let abs_i = core_offset + i
                       in src(k := (src k)(abs_i := add (src k abs_i) (dst k abs_i))))
           [0..<items_per_core] src, dst))"

definition red_add :: "('a \<Rightarrow> 'a \<Rightarrow> 'a) \<Rightarrow> nat \<Rightarrow> nat \<Rightarrow> nat \<Rightarrow> nat \<Rightarrow> 'a bufs \<times> 'a bufs \<Rightarrow> 'a bufs \<times> 'a bufs" where
  "red_add add level len ncores k s =
     (if is_active level k \<and> \<not> is_sender level k then fold (red_core add len ncores k) [0..<ncores] s else s)"

text \<open>
  The routine on \<open>n\<close> clusters, the size of the communicator. A cluster is at the send of level \<open>l\<close>
  when its counter is \<open>2 * l\<close> and at the additions of level \<open>l\<close> when it is \<open>2 * l + 1\<close>. The global
  barrier lets a cluster start its additions when all have sent; after them only the cores of the
  cluster itself synchronise. With \<open>lockstep\<close> a cluster also waits for the others before it sends.
\<close>

datatype tree_ev = TSend nat | TAdd nat

type_synonym 'a tree_state = "(nat \<Rightarrow> nat) \<times> 'a bufs \<times> 'a bufs"

fun tree_step :: "bool \<Rightarrow> ('a \<Rightarrow> 'a \<Rightarrow> 'a) \<Rightarrow> nat \<Rightarrow> nat \<Rightarrow> nat \<Rightarrow> tree_ev \<Rightarrow> 'a tree_state \<Rightarrow> 'a tree_state option" where
  "tree_step lockstep add n len ncores (TSend k) (pc, s) =
     (if k < n \<and> pc k < 2 * ceil_log2 n \<and> even (pc k) \<and> (lockstep \<longrightarrow> (\<forall>j\<in>set [0..<n]. pc k \<le> pc j))
      then Some (pc(k := pc k + 1), red_send (pc k div 2) len k s) else None)"
| "tree_step lockstep add n len ncores (TAdd k) (pc, s) =
     (if k < n \<and> pc k < 2 * ceil_log2 n \<and> odd (pc k) \<and> (\<forall>j\<in>set [0..<n]. pc k \<le> pc j)
      then Some (pc(k := pc k + 1), red_add add (pc k div 2) len ncores k s) else None)"

fun tree_run :: "bool \<Rightarrow> ('a \<Rightarrow> 'a \<Rightarrow> 'a) \<Rightarrow> nat \<Rightarrow> nat \<Rightarrow> nat \<Rightarrow> tree_ev list \<Rightarrow> 'a tree_state \<Rightarrow> 'a tree_state option" where
  "tree_run lockstep add n len ncores [] st = Some st"
| "tree_run lockstep add n len ncores (e # es) st =
     Option.bind (tree_step lockstep add n len ncores e st) (tree_run lockstep add n len ncores es)"

definition snrt_global_reduction_dma ::
  "bool \<Rightarrow> ('a \<Rightarrow> 'a \<Rightarrow> 'a) \<Rightarrow> nat \<Rightarrow> nat \<Rightarrow> nat \<Rightarrow> tree_ev list \<Rightarrow> 'a bufs \<times> 'a bufs \<Rightarrow> 'a tree_state option" where
  "snrt_global_reduction_dma lockstep add n len ncores es s =
     (if n > 1 then tree_run lockstep add n len ncores es (\<lambda>_. 0, s) else Some (\<lambda>_. 0, s))"

text \<open>The sum in the order of the tree, and its value for a commutative addition.\<close>

primrec tsum :: "('a \<Rightarrow> 'a \<Rightarrow> 'a) \<Rightarrow> 'a bufs \<Rightarrow> nat \<Rightarrow> nat \<Rightarrow> nat \<Rightarrow> 'a" where
  "tsum add x 0 k i = x k i"
| "tsum add x (Suc l) k i = add (tsum add x l k i) (tsum add x l (k + 2 ^ l) i)"

lemma tsum_sum: "tsum (+) x l k i = (\<Sum>j<2 ^ l. x (k + j) i :: 'a::comm_monoid_add)"
proof (induction l arbitrary: k)
  case (Suc l)
  have "{..<2 ^ Suc l} = {..<2 ^ l} \<union> {2 ^ l..<2 ^ l + 2 ^ l :: nat}" by auto
  moreover have "(\<Sum>j = 2 ^ l..<2 ^ l + 2 ^ l. x (k + j) i) = (\<Sum>j<2 ^ l. x (k + 2 ^ l + j) i)"
    using sum.shift_bounds_nat_ivl [of "\<lambda>j. x (k + j) i" 0 "2 ^ l" "2 ^ l"]
    by (simp add: lessThan_atLeast0 ac_simps)
  ultimately show ?case
    using Suc by (simp add: sum.union_disjoint ivl_disj_int)
qed simp

lemma ceil_log2_pow2: "ceil_log2 (2 ^ l) = l"
proof (induction l)
  case (Suc l)
  have "(2 ^ Suc l + 1) div 2 = (2 ^ l :: nat)" by simp
  moreover have "(1 :: nat) < 2 ^ Suc l" by (rule one_less_power) simp_all
  ultimately show ?case using Suc by (subst ceil_log2.simps) (simp only: not_le [symmetric] if_False)
qed (simp add: ceil_log2.simps)

lemma red_core_eq:
  "red_core add len ncores k core (src, dst) =
    (let m = len div ncores in
     (\<lambda>j i. if j = k \<and> core * m \<le> i \<and> i < core * m + m then add (src k i) (dst k i) else src j i, dst))"
proof -
  have "fold (\<lambda>i src. let abs_i = p + i in src(k := (src k)(abs_i := add (src k abs_i) (dst k abs_i)))) [0..<m] src
      = (\<lambda>j i. if j = k \<and> p \<le> i \<and> i < p + m then add (src k i) (dst k i) else src j i)" for p m
    by (induction m) (auto simp: Let_def fun_eq_iff less_Suc_eq)
  then show ?thesis by (simp add: red_core_def Let_def)
qed

lemma red_cores_eq:
  "fold (red_core add len ncores k) [0..<q] (src, dst) =
    (\<lambda>j i. if j = k \<and> i < q * (len div ncores) then add (src k i) (dst k i) else src j i, dst)"
proof (induction q)
  case (Suc q)
  then show ?case by (auto simp: red_core_eq Let_def fun_eq_iff)
qed auto


text \<open>
  The invariant of a lockstep run: the counters differ by at most one, an active cluster holds the
  tree sum of its level, and once its sender has sent, a receiver's destination buffer holds the
  sender's.
\<close>

definition tree_inv :: "('a \<Rightarrow> 'a \<Rightarrow> 'a) \<Rightarrow> 'a bufs \<Rightarrow> nat \<Rightarrow> nat \<Rightarrow> 'a tree_state \<Rightarrow> bool" where
  "tree_inv add x n len = (\<lambda>(pc, src, dst).
     (\<forall>i<n. \<forall>j<n. pc i \<le> pc j + 1) \<and>
     (\<forall>k<n. 2 ^ (pc k div 2) dvd k \<longrightarrow> (\<forall>i<len. src k i = tsum add x (pc k div 2) k i)) \<and>
     (\<forall>k<n. \<forall>l. 2 ^ (l + 1) dvd k \<and> k + 2 ^ l < n \<and> pc k div 2 = l \<and> 2 * l + 1 \<le> pc (k + 2 ^ l) \<longrightarrow>
        (\<forall>i<len. dst k i = tsum add x l (k + 2 ^ l) i)))"

lemma tree_invD:
  assumes "tree_inv add x n len (pc, src, dst)"
  shows "\<And>i j. i < n \<Longrightarrow> j < n \<Longrightarrow> pc i \<le> pc j + 1"
    and "\<And>k i. k < n \<Longrightarrow> 2 ^ (pc k div 2) dvd k \<Longrightarrow> i < len \<Longrightarrow> src k i = tsum add x (pc k div 2) k i"
    and "\<And>k l i. k < n \<Longrightarrow> 2 ^ (l + 1) dvd k \<Longrightarrow> k + 2 ^ l < n \<Longrightarrow> pc k div 2 = l \<Longrightarrow>
      2 * l + 1 \<le> pc (k + 2 ^ l) \<Longrightarrow> i < len \<Longrightarrow> dst k i = tsum add x l (k + 2 ^ l) i"
  using assms by (auto simp: tree_inv_def)

lemma is_active_iff: "is_active l k \<longleftrightarrow> 2 ^ l dvd k"
  by (auto simp: is_active_def)

lemma is_sender_iff: "is_sender l k \<longleftrightarrow> \<not> 2 ^ (l + 1) dvd k"
  by (simp add: is_sender_def dvd_eq_mod_eq_0)

lemma sender_receiver:
  assumes "2 ^ (l + 1) dvd (r :: nat)"
  shows "is_active l (r + 2 ^ l)" "is_sender l (r + 2 ^ l)" "r + 2 ^ l - 2 ^ l = r"
proof -
  have "2 ^ l dvd r" using assms by (metis dvd_mult_left power_add)
  then show "is_active l (r + 2 ^ l)" by (simp add: is_active_iff)
  have "\<not> 2 ^ (l + 1) dvd (2 ^ l :: nat)" by (simp add: dvd_power_iff)
  then show "is_sender l (r + 2 ^ l)"
    using assms by (metis dvd_add_right_iff is_sender_iff)
  show "r + 2 ^ l - 2 ^ l = r" by simp
qed

lemma sender_sub:
  assumes "is_active l k" "is_sender l k"
  shows "2 ^ l \<le> k"
  using assms by (metis dvd_0_right dvd_imp_le gr0I is_active_iff is_sender_iff)

lemma tree_inv_send:
  assumes inv: "tree_inv add x n len (pc, src, dst)" and k: "k < n" "even (pc k)"
    and min: "\<forall>j<n. pc k \<le> pc j"
  shows "tree_inv add x n len (pc(k := pc k + 1), red_send (pc k div 2) len k (src, dst))"
proof -
  define l where "l = pc k div 2"
  have pck: "pc k = 2 * l" using k by (simp add: l_def)
  note D = tree_invD [OF inv]
  let ?pc = "pc(k := pc k + 1)"
  have div_eq: "?pc j div 2 = pc j div 2" for j using pck by simp
  obtain dst' where red: "red_send l len k (src, dst) = (src, dst')"
    by (cases "is_active l k \<and> is_sender l k") (auto simp: red_send_def)
  have dst: "dst' r i = tsum add x m (r + 2 ^ m) i"
    if r: "r < n" "2 ^ (m + 1) dvd r" "r + 2 ^ m < n" "?pc r div 2 = m" "2 * m + 1 \<le> ?pc (r + 2 ^ m)"
      and i: "i < len" for r m i
  proof (cases "r + 2 ^ m = k")
    case True
    have m: "m = l" using r(4) div_eq [of r] D(1) [OF r(1) k(1)] min r(1) pck by (auto simp: True [symmetric])
    have "k - 2 ^ l = r" using True m by auto
    then have "dst' = dst(r := (\<lambda>i. if i < len then src k i else dst r i))"
      using red sender_receiver(1,2) [OF r(2)] True m by (auto simp: red_send_def)
    then show ?thesis
      using D(2) [of k i] k i True m sender_receiver(1) [OF r(2)] by (simp add: l_def is_active_iff)
  next
    case False
    have "dst' r = dst r"
    proof (rule ccontr)
      assume "dst' r \<noteq> dst r"
      then have act: "is_active l k" "is_sender l k" and rk: "r = k - 2 ^ l"
        using red by (auto simp: red_send_def split: if_splits)
      then have ne: "r + 2 ^ l = k" using sender_sub [OF act] by simp
      have "pc r div 2 = l" using D(1) [OF r(1) k(1)] min r(1) pck by fastforce
      then show False using ne False r(4) div_eq [of r] by simp
    qed
    then show ?thesis using D(3) [OF r(1-3) _ _ i] r(4,5) div_eq [of r] False by simp
  qed
  have "?pc i \<le> ?pc j + 1" if "i < n" "j < n" for i j
    using D(1) [of i j] D(1) [of i k] min that by (cases "i = k"; cases "j = k") auto
  then show ?thesis
    unfolding tree_inv_def l_def [symmetric] red using D(2) dst div_eq by auto
qed

lemma tree_inv_add:
  assumes inv: "tree_inv add x n len (pc, src, dst)" and k: "k < n" "odd (pc k)"
    and min: "\<forall>j<n. pc k \<le> pc j"
    and n: "n = 2 ^ L" "pc k < 2 * L" and len: "0 < ncores" "ncores dvd len"
  shows "tree_inv add x n len (pc(k := pc k + 1), red_add add (pc k div 2) len ncores k (src, dst))"
proof -
  define l where "l = pc k div 2"
  have pck: "pc k = 2 * l + 1" using k by (simp add: l_def)
  note D = tree_invD [OF inv]
  let ?pc = "pc(k := pc k + 1)"
  have nk: "?pc k div 2 = Suc l" using pck by simp
  define src' where "src' = (\<lambda>j i. if is_active l k \<and> \<not> is_sender l k \<and> j = k \<and> i < len
    then add (src k i) (dst k i) else src j i)"
  have red: "red_add add l len ncores k (src, dst) = (src', dst)"
    using len by (auto simp: red_add_def red_cores_eq src'_def fun_eq_iff)
  have other: "src' j = src j" if "j \<noteq> k" for j
    using that by (auto simp: src'_def)
  have own: "src' k i = tsum add x (Suc l) k i" if kd: "2 ^ Suc l dvd k" and i: "i < len" for i
  proof -
    have kl: "2 ^ l dvd k" using kd by (metis dvd_mult_right power_Suc)
    have lt: "k + 2 ^ l < n"
    proof -
      have "Suc l \<le> L" using n pck by simp
      then have "2 ^ Suc l dvd n" unfolding n(1) by (rule le_imp_power_dvd)
      then have "k + 2 ^ Suc l \<le> n" using kd k(1) by (metis dvd_diff_nat dvd_imp_le le_diff_conv2 less_imp_le_nat zero_less_diff add.commute)
      moreover have "(0 :: nat) < 2 ^ l" by simp
      ultimately show ?thesis unfolding power_Suc by linarith
    qed
    have "is_active l k \<and> \<not> is_sender l k" using kl kd by (simp add: is_active_iff is_sender_iff)
    then have "src' k i = add (src k i) (dst k i)"
      using i by (simp add: src'_def)
    moreover have "src k i = tsum add x l k i" using D(2) [of k i] k kl i by (simp add: l_def)
    moreover have "dst k i = tsum add x l (k + 2 ^ l) i"
    proof (rule D(3) [OF k(1) _ lt _ _ i])
      show "2 ^ (l + 1) dvd k" using kd by simp
      show "pc k div 2 = l" using pck by simp
      show "2 * l + 1 \<le> pc (k + 2 ^ l)" using min lt pck by metis
    qed
    ultimately show ?thesis by simp
  qed
  have pcs: "?pc i \<le> ?pc j + 1" if "i < n" "j < n" for i j
    using D(1) [of i j] D(1) [of i k] min that by (cases "i = k"; cases "j = k") auto
  have srcs: "src' j i = tsum add x (?pc j div 2) j i"
    if "j < n" "2 ^ (?pc j div 2) dvd j" "i < len" for j i
    using that D(2) [of j i] own [of i] other [of j] nk by (cases "j = k") auto
  have dsts: "dst r i = tsum add x m (r + 2 ^ m) i"
    if r: "r < n" "2 ^ (m + 1) dvd r" "r + 2 ^ m < n" "?pc r div 2 = m" "2 * m + 1 \<le> ?pc (r + 2 ^ m)"
      and i: "i < len" for r m i
  proof (cases "r = k")
    case True
    then have "m = Suc l" "?pc (r + 2 ^ m) = pc (r + 2 ^ m)" using r(4) nk by auto
    then show ?thesis using r(5) D(1) [OF r(3) k(1)] pck by simp
  next
    case False
    have "2 * m + 1 \<le> pc (r + 2 ^ m)"
      using r(5) pck min r(1,4) False by (cases "r + 2 ^ m = k") fastforce+
    then show ?thesis using D(3) [OF r(1-3) _ _ i] r(4) False by simp
  qed
  show ?thesis
    unfolding tree_inv_def l_def [symmetric] red using pcs srcs dsts by simp
qed


lemma tree_inv_step:
  assumes "tree_step True add n len ncores e st = Some st'" "tree_inv add x n len st"
    and "n = 2 ^ L" "0 < ncores" "ncores dvd len"
  shows "tree_inv add x n len st'"
proof (cases st)
  case (fields pc src dst)
  show ?thesis
  proof (cases e)
    case (TSend k)
    then show ?thesis
      using assms fields tree_inv_send [of add x n len pc src dst k] by (auto split: if_splits)
  next
    case (TAdd k)
    then show ?thesis
      using assms fields tree_inv_add [of add x n len pc src dst k L ncores] ceil_log2_pow2 [of L]
      by (auto split: if_splits)
  qed
qed

lemma tree_inv_run:
  assumes "tree_run True add n len ncores es st = Some st'" "tree_inv add x n len st"
    and "n = 2 ^ L" "0 < ncores" "ncores dvd len"
  shows "tree_inv add x n len st'"
  using assms
proof (induction es arbitrary: st)
  case (Cons e es)
  obtain st1 where st1: "tree_step True add n len ncores e st = Some st1"
    "tree_run True add n len ncores es st1 = Some st'"
    using Cons.prems(1) by (auto split: Option.bind_splits)
  show ?case
    using Cons.IH [OF st1(2) tree_inv_step [OF st1(1)]] Cons.prems by blast
qed simp

lemma tree_progress:
  assumes "0 < n" "\<exists>k<n. pc k < 2 * ceil_log2 n"
  shows "\<exists>e. tree_step True add n len ncores e (pc, s) \<noteq> None"
proof -
  define k where "k = arg_min pc (\<lambda>k. k < n)"
  have k: "k < n" "pc k \<le> pc j" if "j < n" for j
    unfolding k_def using that arg_min_natI [of "\<lambda>k. k < n" j pc] arg_min_nat_le [of "\<lambda>k. k < n" j pc] by auto
  obtain j where j: "j < n" "pc j < 2 * ceil_log2 n" using assms(2) by blast
  have pk: "pc k < 2 * ceil_log2 n" using k(2) [OF j(1)] j(2) by linarith
  show ?thesis
  proof (cases "even (pc k)")
    case True
    then show ?thesis using k [OF j(1)] k(2) pk by (intro exI [of _ "TSend k"]) auto
  next
    case False
    then show ?thesis using k [OF j(1)] k(2) pk by (intro exI [of _ "TAdd k"]) auto
  qed
qed

lemma tree_pc_bound:
  assumes "tree_run b add n len ncores es (pc, s) = Some (pc', s')" "\<forall>k. pc k \<le> 2 * ceil_log2 n"
  shows "\<forall>k. pc' k \<le> 2 * ceil_log2 n"
  using assms
proof (induction es arbitrary: pc s)
  case (Cons e es)
  then show ?case
    by (cases e) (auto split: Option.bind_splits if_splits)
qed simp

text \<open>
  C30: The reduction tree. For a communicator of \<open>2^L\<close> clusters, at least two, and a length that the
  compute cores divide, when the clusters enter each level together, in any order within the
  level: a run never blocks before all clusters are through the levels, and then cluster 0 holds
  in every element the sum over the clusters in the order of the tree, which for a commutative
  addition is the sum of the elements of all clusters.
\<close>

theorem global_reduction_dma_tree:
  assumes n: "n = 2 ^ L" "0 < L" and len: "0 < ncores" "ncores dvd len"
    and run: "snrt_global_reduction_dma True add n len ncores es (x, d) = Some (pc, src, dst)"
  shows "((\<exists>k<n. pc k \<noteq> 2 * L) \<longrightarrow> (\<exists>e. tree_step True add n len ncores e (pc, src, dst) \<noteq> None)) \<and>
    ((\<forall>k<n. pc k = 2 * L) \<longrightarrow> (\<forall>i<len. src 0 i = tsum add x L 0 i)) \<and>
    (\<forall>i. tsum (+) y L 0 i = (\<Sum>k<2 ^ L. y k i :: 'b::comm_monoid_add))"
proof (intro conjI)
  have "1 < n" using n by (metis one_less_power one_less_numeral_iff semiring_norm(76))
  then have r: "tree_run True add n len ncores es (\<lambda>_. 0, x, d) = Some (pc, src, dst)"
    using run by (simp add: snrt_global_reduction_dma_def)
  have "tree_inv add x n len (\<lambda>_. 0, x, d)" by (auto simp: tree_inv_def)
  then have inv: "tree_inv add x n len (pc, src, dst)" by (rule tree_inv_run [OF r _ n(1) len])
  have L: "ceil_log2 n = L" using n by (simp add: ceil_log2_pow2)
  have le: "\<forall>k. pc k \<le> 2 * L" using tree_pc_bound [OF r] L by simp
  show "(\<exists>k<n. pc k \<noteq> 2 * L) \<longrightarrow> (\<exists>e. tree_step True add n len ncores e (pc, src, dst) \<noteq> None)"
    using tree_progress [of n pc add len ncores "(src, dst)"] \<open>1 < n\<close> le L
    by (metis le_neq_implies_less less_trans zero_less_one)
  show "(\<forall>k<n. pc k = 2 * L) \<longrightarrow> (\<forall>i<len. src 0 i = tsum add x L 0 i)"
    using tree_invD(2) [OF inv, of 0] \<open>1 < n\<close> by simp
  show "\<forall>i. tsum (+) y L 0 i = (\<Sum>k<2 ^ L. y k i :: 'b::comm_monoid_add)"
    by (simp add: tsum_sum)
qed


section \<open>Instances\<close>

definition small_cfg :: snrt_cfg where
  "small_cfg = sample_cfg\<lparr>SNRT_CLUSTER_CORE_NUM := 2\<rparr>"

lemma small_cfg_simps:
  "cfg_wf small_cfg" "SNRT_CLUSTER_DM_CORE_NUM small_cfg = 1" "hart_list small_cfg = [0, 1, 2, 3]"
  by (simp_all add: cfg_wf_def small_cfg_def sample_cfg_def hart_list_def hart_of_def upt_rec)

theorem all_to_all_reduction_sum_witness:
  "snd (snrt_global_all_to_all_reduction small_cfg
     [RLocal 0, RLocal 1, RGlobal 1, RLocal 3, RLocal 2, RGlobal 3] [3, 1] (\<lambda>h. h + 1)
     \<lparr>cluster_result = \<lambda>_. 0, reduction_result = 0\<rparr>) 2 = 10"
proof -
  have H: "harts small_cfg = {0, 1, 2, 3}"
    using set_hart_list [OF small_cfg_simps(1)] by (simp add: small_cfg_simps)
  have "reduction_order small_cfg [RLocal 0, RLocal 1, RGlobal 1, RLocal 3, RLocal 2, RGlobal 3] [3, 1]"
    unfolding reduction_order_def small_cfg_simps
    by (auto simp: my_cluster_def team_defs small_cfg_def sample_cfg_def)
  from all_to_all_reduction_sum [OF small_cfg_simps(1,2) this, of 2 "\<lambda>h. h + 1"
      "\<lparr>cluster_result = \<lambda>_. 0, reduction_result = 0\<rparr>"] H
  show ?thesis by simp
qed

definition ones :: "int bufs" where
  "ones = (\<lambda>k i. 1)"

text \<open>The counters and the first element of cluster 0 at the end of a run.\<close>

definition tree_end :: "nat \<Rightarrow> 'a tree_state option \<Rightarrow> (nat list \<times> 'a) option" where
  "tree_end n = map_option (\<lambda>(pc, src, dst). (map pc [0..<n], src 0 0))"

lemma tree_endD:
  assumes "tree_end n r = Some (replicate n p, v)"
  obtains pc src dst where "r = Some (pc, src, dst)" "\<forall>k<n. pc k = p" "src 0 0 = v"
proof -
  obtain pc src dst where r: "r = Some (pc, src, dst)" "map pc [0..<n] = replicate n p" "src 0 0 = v"
    using assms by (auto simp: tree_end_def)
  moreover have "\<forall>k<n. pc k = p"
  proof (intro allI impI)
    fix k assume "k < n"
    then show "pc k = p" using arg_cong [OF r(2), where f = "\<lambda>xs. xs ! k"] by simp
  qed
  ultimately show thesis using that by blast
qed

theorem global_reduction_dma_tree_witness:
  "\<exists>pc src dst. snrt_global_reduction_dma True (+) 4 1 1
      [TSend 0, TSend 1, TSend 3, TSend 2, TAdd 0, TAdd 1, TAdd 3, TAdd 2,
       TSend 3, TSend 2, TSend 1, TSend 0, TAdd 1, TAdd 2, TAdd 3, TAdd 0] (ones, \<lambda>_ _. 0)
     = Some (pc, src, dst) \<and> src 0 0 = 4"
proof -
  let ?r = "snrt_global_reduction_dma True (+) 4 1 1
      [TSend 0, TSend 1, TSend 3, TSend 2, TAdd 0, TAdd 1, TAdd 3, TAdd 2,
       TSend 3, TSend 2, TSend 1, TSend 0, TAdd 1, TAdd 2, TAdd 3, TAdd 0] (ones, \<lambda>_ _. 0)"
  have "tree_end 4 ?r = Some (replicate 4 4, 4)" by code_simp
  then obtain pc src dst where run: "?r = Some (pc, src, dst)" and pc: "\<forall>k<4. pc k = 4"
    by (rule tree_endD)
  from global_reduction_dma_tree [OF _ _ _ _ run, of 2 ones] pc have "src 0 0 = tsum (+) ones 2 0 0"
    by simp
  then show ?thesis using run by (auto simp: tsum_sum ones_def)
qed

text \<open>
  The barrier at the end of a level is the hardware barrier of the cluster. A cluster that is
  through its additions may send its buffer of the next level before the receiver has read the
  destination buffer of this one: with four clusters holding 1 each, cluster 0 ends with 5.
\<close>

lemma global_reduction_dma_race:
  "\<exists>es pc src dst. snrt_global_reduction_dma False (+) 4 1 1 es (ones, \<lambda>_ _. 0) = Some (pc, src, dst) \<and>
     (\<forall>k<4. pc k = 2 * ceil_log2 4) \<and> src 0 0 = 5 \<and> tsum (+) ones 2 0 0 = 4"
proof -
  let ?es = "[TSend 0, TSend 1, TSend 2, TSend 3, TAdd 1, TAdd 2, TAdd 3, TSend 2, TAdd 0,
       TSend 0, TSend 1, TSend 3, TAdd 0, TAdd 1, TAdd 2, TAdd 3]"
  have "tree_end 4 (snrt_global_reduction_dma False (+) 4 1 1 ?es (ones, \<lambda>_ _. 0)) = Some (replicate 4 4, 5)"
    by code_simp
  then obtain pc src dst where "snrt_global_reduction_dma False (+) 4 1 1 ?es (ones, \<lambda>_ _. 0) = Some (pc, src, dst)"
    "\<forall>k<4. pc k = 4" "src 0 0 = 5"
    by (rule tree_endD)
  moreover have "2 * ceil_log2 4 = 4" "tsum (+) ones 2 0 0 = 4" by code_simp+
  ultimately show ?thesis by metis
qed

text \<open>
  With a number of clusters that is no power of two, a cluster with no sender at a level adds
  what its destination buffer happens to hold.
\<close>

lemma global_reduction_dma_three:
  "\<exists>es pc src dst. snrt_global_reduction_dma True (+) 3 1 1 es (ones, \<lambda>_ _. 7) = Some (pc, src, dst) \<and>
     (\<forall>k<3. pc k = 2 * ceil_log2 3) \<and> src 0 0 = 10"
proof -
  let ?es = "[TSend 0, TSend 1, TSend 2, TAdd 0, TAdd 1, TAdd 2,
         TSend 0, TSend 1, TSend 2, TAdd 0, TAdd 1, TAdd 2]"
  have "tree_end 3 (snrt_global_reduction_dma True (+) 3 1 1 ?es (ones, \<lambda>_ _. 7)) = Some (replicate 3 4, 10)"
    by code_simp
  then obtain pc src dst where "snrt_global_reduction_dma True (+) 3 1 1 ?es (ones, \<lambda>_ _. 7) = Some (pc, src, dst)"
    "\<forall>k<3. pc k = 4" "src 0 0 = 10"
    by (rule tree_endD)
  moreover have "2 * ceil_log2 3 = 4" by code_simp
  ultimately show ?thesis by metis
qed

end
