(* ===== verification/Dm.thy ===== *)
theory Dm
  imports Alloc Dma Irq
begin

text \<open>
  The data mover service (\<open>sw/runtime/src/dm.h\<close>): client harts put copy requests into a ring of
  four tasks and send requests to the data mover core, which runs \<open>dm_main\<close>. The state is the
  structure in L1 that all share; every access of a hart to it is one step, and the harts
  interleave in any order. The DMA behind \<open>__builtin_sdma_start_*\<close> is the list of the transfers
  started and the number of them that are complete.
\<close>

section \<open>Data\<close>

definition DM_TASK_QUEUE_SIZE :: u32 where "DM_TASK_QUEUE_SIZE = 4"

record dm_task_t =
  t_src :: u64
  t_dst :: u64
  t_size :: u32
  t_sstrd :: u32
  t_dstrd :: u32
  t_nreps :: u32
  t_cfg :: u32
  t_twod :: u32

type_synonym en_stat_t = u32

definition STAT_WAIT_IDLE :: en_stat_t where "STAT_WAIT_IDLE = 1"
definition STAT_EXIT :: en_stat_t where "STAT_EXIT = 2"
definition STAT_READY :: en_stat_t where "STAT_READY = 3"

lemmas stat_defs = STAT_WAIT_IDLE_def STAT_EXIT_def STAT_READY_def

record dm_t =
  queue :: "dm_task_t list"
  queue_back :: u32
  queue_front :: u32
  queue_fill :: u32
  dm_mutex :: u32
  stat_q :: en_stat_t
  stat_p :: u32
  stat_pvalid :: u32
  dm_wfi :: u32

text \<open>The two builtins that start a transfer.\<close>

datatype sdma_call =
    Oned u64 u64 u32 u32
  | Twod u64 u64 u32 u32 u32 u32 u32

definition start_task :: "dm_task_t \<Rightarrow> sdma_call" where
  "start_task t =
     (if t_twod t \<noteq> 0
      then Twod (t_src t) (t_dst t) (t_size t) (t_sstrd t) (t_dstrd t) (t_nreps t) (t_cfg t)
      else Oned (t_src t) (t_dst t) (t_size t) (t_cfg t))"

text \<open>A copy request, and what the insertion writes over the slot of the ring.\<close>

datatype dm_req =
    Memcpy u32 u32 u32
  | Memcpy2d u64 u64 u32 u32 u32 u32 u32

fun fill_task :: "dm_req \<Rightarrow> dm_task_t \<Rightarrow> dm_task_t" where
  "fill_task (Memcpy dest src n) t =
     t\<lparr>t_src := ucast src, t_dst := ucast dest, t_size := n, t_twod := 0, t_cfg := 0\<rparr>"
| "fill_task (Memcpy2d src dst sz sstrd dstrd nreps cfg) t =
     t\<lparr>t_src := src, t_dst := dst, t_size := sz, t_sstrd := sstrd, t_dstrd := dstrd,
       t_nreps := nreps, t_twod := 1, t_cfg := cfg\<rparr>"

fun call_of :: "dm_req \<Rightarrow> sdma_call" where
  "call_of (Memcpy dest src n) = Oned (ucast src) (ucast dest) n 0"
| "call_of (Memcpy2d src dst sz sstrd dstrd nreps cfg) = Twod src dst sz sstrd dstrd nreps cfg"

section \<open>The data mover core\<close>

text \<open>Where the core is in \<open>dm_main\<close>, and a client in one of the calls.\<close>

datatype dm_pc =
    D_Top | D_Block | D_Start | D_Bump | D_Dec | D_Stat | D_Switch | D_Idle | D_Pvalid | D_Clear
  | D_Fill | D_Pending | D_Wfi0 | D_Wfi1 | D_Wfi2 | D_Wfi3 | D_Done

datatype client_pc =
    C_Out
  | M_Poll dm_req | M_Lock dm_req | M_Write dm_req | M_Fill dm_req | M_Front | M_Release
  | Wake_Poll client_pc | Wake_Set client_pc
  | W_Fill | W_Stat | W_Lock | W_Pvalid | W_Request | W_Spin | W_Release
  | R_Lock | R_Pvalid | R_Request | R_Spin | R_Release
  | E_Request

record dm_sys =
  dmt :: dm_t
  started :: "sdma_call list"
  completed :: nat
  dm_irq :: bool
  do_exit :: bool
  core_pc :: dm_pc
  client :: "nat \<Rightarrow> client_pc"
  submitted :: "dm_req list"

definition at_dm :: "dm_pc \<Rightarrow> dm_sys \<Rightarrow> dm_sys" where
  "at_dm pc s = s\<lparr>core_pc := pc\<rparr>"

definition upd_dm :: "(dm_t \<Rightarrow> dm_t) \<Rightarrow> dm_sys \<Rightarrow> dm_sys" where
  "upd_dm f s = s\<lparr>dmt := f (dmt s)\<rparr>"

text \<open>
  One access of \<open>dm_main\<close>; \<open>depth\<close> is the number of transfers the DMA buffers. A core that waits
  stays where it is.
\<close>

fun wfi_dm :: "dm_pc \<Rightarrow> dm_sys \<Rightarrow> dm_sys" where
  "wfi_dm D_Wfi0 s = at_dm D_Wfi1 (upd_dm (\<lambda>d. d\<lparr>dm_wfi := dm_wfi d + 1\<rparr>) s)"
| "wfi_dm D_Wfi1 s = (if dm_irq s then at_dm D_Wfi2 s else s)"
| "wfi_dm D_Wfi2 s = at_dm D_Wfi3 (s\<lparr>dm_irq := False\<rparr>)"
| "wfi_dm D_Wfi3 s = at_dm D_Top (upd_dm (\<lambda>d. d\<lparr>dm_wfi := dm_wfi d - 1\<rparr>) s)"
| "wfi_dm _ s = s"

definition dm_main :: "nat \<Rightarrow> dm_sys \<Rightarrow> dm_sys" where
  "dm_main depth s =
     (let d = dmt s in
      case core_pc s of
        D_Top \<Rightarrow> if do_exit s then at_dm D_Done s
                  else at_dm (if queue_fill d \<noteq> 0 then D_Block else D_Stat) s
      | D_Block \<Rightarrow> if length (started s) - completed s \<ge> depth then s else at_dm D_Start s
      | D_Start \<Rightarrow> at_dm D_Bump (s\<lparr>started := started s @ [start_task (queue d ! unat (queue_back d))]\<rparr>)
      | D_Bump \<Rightarrow> at_dm D_Dec (upd_dm (\<lambda>d. d\<lparr>queue_back := (queue_back d + 1) mod DM_TASK_QUEUE_SIZE\<rparr>) s)
      | D_Dec \<Rightarrow> at_dm D_Stat (upd_dm (\<lambda>d. d\<lparr>queue_fill := queue_fill d - 1\<rparr>) s)
      | D_Stat \<Rightarrow> at_dm (if stat_q d \<noteq> 0 then D_Switch else D_Fill) s
      | D_Switch \<Rightarrow>
          if stat_q d = STAT_WAIT_IDLE then at_dm D_Idle s
          else if stat_q d = STAT_EXIT then at_dm D_Fill (s\<lparr>do_exit := True\<rparr>)
          else if stat_q d = STAT_READY then at_dm D_Pvalid s
          else at_dm D_Fill s
      | D_Idle \<Rightarrow> at_dm (if completed s = length (started s) then D_Pvalid else D_Fill) s
      | D_Pvalid \<Rightarrow> at_dm D_Clear (upd_dm (\<lambda>d. d\<lparr>stat_pvalid := 1\<rparr>) s)
      | D_Clear \<Rightarrow> at_dm D_Fill (upd_dm (\<lambda>d. d\<lparr>stat_q := 0\<rparr>) s)
      | D_Fill \<Rightarrow> at_dm (if queue_fill d = 0 then D_Pending else D_Top) s
      | D_Pending \<Rightarrow> at_dm (if stat_q d = 0 then D_Wfi0 else D_Top) s
      | D_Done \<Rightarrow> s
      | pc \<Rightarrow> wfi_dm pc s)"

section \<open>The clients\<close>

definition wake_dm :: "client_pc \<Rightarrow> client_pc" where
  "wake_dm k = Wake_Poll k"

definition dm_memcpy_async :: "u32 \<Rightarrow> u32 \<Rightarrow> u32 \<Rightarrow> client_pc" where
  "dm_memcpy_async dest src n = M_Poll (Memcpy dest src n)"

definition dm_memcpy2d_async :: "u64 \<Rightarrow> u64 \<Rightarrow> u32 \<Rightarrow> u32 \<Rightarrow> u32 \<Rightarrow> u32 \<Rightarrow> u32 \<Rightarrow> client_pc" where
  "dm_memcpy2d_async src dst sz sstrd dstrd nreps cfg = M_Poll (Memcpy2d src dst sz sstrd dstrd nreps cfg)"

definition dm_start :: client_pc where "dm_start = wake_dm C_Out"
definition dm_wait :: client_pc where "dm_wait = wake_dm W_Fill"
definition dm_wait_ready :: client_pc where "dm_wait_ready = R_Lock"
definition dm_exit :: client_pc where "dm_exit = E_Request"

lemmas dm_call_defs = dm_memcpy_async_def dm_memcpy2d_async_def dm_start_def dm_wait_def
  dm_wait_ready_def dm_exit_def wake_dm_def

definition goto :: "nat \<Rightarrow> client_pc \<Rightarrow> dm_sys \<Rightarrow> dm_sys" where
  "goto i pc s = s\<lparr>client := (client s)(i := pc)\<rparr>"

text \<open>An attempt to swap 1 into the mutex, and the release.\<close>

definition dm_mtx_lock :: "nat \<Rightarrow> client_pc \<Rightarrow> dm_sys \<Rightarrow> dm_sys" where
  "dm_mtx_lock i k s =
     (if dm_mutex (dmt s) = 0 then goto i k (upd_dm (\<lambda>d. d\<lparr>dm_mutex := 1\<rparr>) s)
      else upd_dm (\<lambda>d. d\<lparr>dm_mutex := 1\<rparr>) s)"

definition dm_mtx_release :: "nat \<Rightarrow> client_pc \<Rightarrow> dm_sys \<Rightarrow> dm_sys" where
  "dm_mtx_release i k s = goto i k (upd_dm (\<lambda>d. d\<lparr>dm_mutex := 0\<rparr>) s)"

text \<open>One access of client \<open>i\<close>, by where it is in its call.\<close>

definition client_step :: "nat \<Rightarrow> dm_sys \<Rightarrow> dm_sys" where
  "client_step i s =
     (let d = dmt s in
      case client s i of
        C_Out \<Rightarrow> s
      | M_Poll r \<Rightarrow> if queue_fill d \<ge> DM_TASK_QUEUE_SIZE then s else goto i (M_Lock r) s
      | M_Lock r \<Rightarrow> dm_mtx_lock i (M_Write r) s
      | M_Write r \<Rightarrow> goto i (M_Fill r) (upd_dm (\<lambda>d. d\<lparr>queue := (queue d)[unat (queue_front d) :=
           fill_task r (queue d ! unat (queue_front d))]\<rparr>) s)
      | M_Fill r \<Rightarrow> goto i M_Front (upd_dm (\<lambda>d. d\<lparr>queue_fill := queue_fill d + 1\<rparr>) s
           \<lparr>submitted := submitted s @ [r]\<rparr>)
      | M_Front \<Rightarrow> goto i M_Release (upd_dm (\<lambda>d. d\<lparr>queue_front := (queue_front d + 1) mod DM_TASK_QUEUE_SIZE\<rparr>) s)
      | M_Release \<Rightarrow> dm_mtx_release i C_Out s
      | Wake_Poll k \<Rightarrow> if dm_wfi d = 0 then s else goto i (Wake_Set k) s
      | Wake_Set k \<Rightarrow> goto i k (s\<lparr>dm_irq := True\<rparr>)
      | W_Fill \<Rightarrow> if queue_fill d \<noteq> 0 then s else goto i W_Stat s
      | W_Stat \<Rightarrow> if stat_q d \<noteq> 0 then s else goto i W_Lock s
      | W_Lock \<Rightarrow> dm_mtx_lock i W_Pvalid s
      | W_Pvalid \<Rightarrow> goto i W_Request (upd_dm (\<lambda>d. d\<lparr>stat_pvalid := 0\<rparr>) s)
      | W_Request \<Rightarrow> goto i (wake_dm W_Spin) (upd_dm (\<lambda>d. d\<lparr>stat_q := STAT_WAIT_IDLE\<rparr>) s)
      | W_Spin \<Rightarrow> if stat_pvalid d = 0 then s else goto i W_Release s
      | W_Release \<Rightarrow> dm_mtx_release i C_Out s
      | R_Lock \<Rightarrow> dm_mtx_lock i R_Pvalid s
      | R_Pvalid \<Rightarrow> goto i R_Request (upd_dm (\<lambda>d. d\<lparr>stat_pvalid := 0\<rparr>) s)
      | R_Request \<Rightarrow> goto i (wake_dm R_Spin) (upd_dm (\<lambda>d. d\<lparr>stat_q := STAT_READY\<rparr>) s)
      | R_Spin \<Rightarrow> if stat_pvalid d = 0 then s else goto i R_Release s
      | R_Release \<Rightarrow> dm_mtx_release i C_Out s
      | E_Request \<Rightarrow> goto i (wake_dm C_Out) (upd_dm (\<lambda>d. d\<lparr>stat_q := STAT_EXIT\<rparr>) s))"

section \<open>The system\<close>

text \<open>The calls a client outside of one can make.\<close>

definition is_call :: "client_pc \<Rightarrow> bool" where
  "is_call pc \<longleftrightarrow> (case pc of M_Poll _ \<Rightarrow> True | _ \<Rightarrow> pc \<in> {dm_start, dm_wait, dm_wait_ready, dm_exit})"

datatype dm_ev = Core | Client nat | Call nat client_pc | Complete

fun dm_step :: "nat \<Rightarrow> dm_ev \<Rightarrow> dm_sys \<Rightarrow> dm_sys" where
  "dm_step depth Core s = dm_main depth s"
| "dm_step depth (Client i) s = client_step i s"
| "dm_step depth (Call i pc) s = (if client s i = C_Out \<and> is_call pc then goto i pc s else s)"
| "dm_step depth Complete s = (if completed s < length (started s) then s\<lparr>completed := completed s + 1\<rparr> else s)"

definition dm_run :: "nat \<Rightarrow> dm_ev list \<Rightarrow> dm_sys \<Rightarrow> dm_sys" where
  "dm_run depth = fold (dm_step depth)"

text \<open>The structure after \<open>dm_init\<close>, whose bytes are zero.\<close>

definition dm_task_zero :: dm_task_t where
  "dm_task_zero = \<lparr>t_src = 0, t_dst = 0, t_size = 0, t_sstrd = 0, t_dstrd = 0, t_nreps = 0, t_cfg = 0, t_twod = 0\<rparr>"

definition dm_zero :: dm_t where
  "dm_zero = \<lparr>queue = replicate 4 dm_task_zero, queue_back = 0, queue_front = 0, queue_fill = 0, dm_mutex = 0,
     stat_q = 0, stat_p = 0, stat_pvalid = 0, dm_wfi = 0\<rparr>"

definition dm_sys0 :: dm_sys where
  "dm_sys0 = \<lparr>dmt = dm_zero, started = [], completed = 0, dm_irq = False, do_exit = False,
     core_pc = D_Top, client = (\<lambda>_. C_Out), submitted = []\<rparr>"

text \<open>
  \<open>dm_init\<close>: the data mover core allocates the structure, 192 bytes, clears it and publishes its
  address; any other core waits for the address, \<open>None\<close> while there is none.
\<close>

definition IRQ_M_CLUSTER :: u32 where "IRQ_M_CLUSTER = 19"

record dm_env =
  e_irq :: irq_state
  e_alloc :: snrt_allocator_t
  e_dma :: dma_state
  dm_p :: "hart \<Rightarrow> u32"
  dm_p_global :: u32

definition dm_init :: "snrt_cfg \<Rightarrow> dma_sys \<Rightarrow> hart \<Rightarrow> u32 list \<Rightarrow> dm_env \<Rightarrow> dm_env option" where
  "dm_init c sys h evs e =
     (if snrt_is_dm_core c h then
        (let (p, alloc) = snrt_l1_alloc 192 (e_alloc e) in
         case snrt_dma_memset sys p 0 192 evs (e_dma e) of
           None \<Rightarrow> None
         | Some (_, dma) \<Rightarrow>
             Some (e\<lparr>e_irq := snrt_interrupt_enable h IRQ_M_CLUSTER (e_irq e), e_alloc := alloc, e_dma := dma,
                     dm_p := (dm_p e)(h := p), dm_p_global := p\<rparr>))
      else if dm_p_global e = 0 then None
      else Some (e\<lparr>dm_p := (dm_p e)(h := dm_p_global e)\<rparr>))"

inductive dm_reach :: "nat \<Rightarrow> nat set \<Rightarrow> dm_sys \<Rightarrow> bool" for depth H where
  dm_reach_init: "dm_reach depth H dm_sys0"
| dm_reach_core: "dm_reach depth H s \<Longrightarrow> dm_reach depth H (dm_step depth Core s)"
| dm_reach_complete: "dm_reach depth H s \<Longrightarrow> dm_reach depth H (dm_step depth Complete s)"
| dm_reach_client: "dm_reach depth H s \<Longrightarrow> i \<in> H \<Longrightarrow> dm_reach depth H (dm_step depth (Client i) s)"
| dm_reach_call: "dm_reach depth H s \<Longrightarrow> i \<in> H \<Longrightarrow> dm_reach depth H (dm_step depth (Call i pc) s)"


section \<open>The ring, with one client\<close>

text \<open>
  With \<open>I\<close> transfers started and \<open>S\<close> requests submitted, the ring holds the requests \<open>I\<close> to
  \<open>S - 1\<close> at their number modulo four; the indices lag behind between the accesses that belong
  together.
\<close>

definition lag :: "dm_pc set \<Rightarrow> dm_sys \<Rightarrow> nat" where
  "lag A s = (if core_pc s \<in> A then 1 else 0)"

definition ring_inv :: "nat \<Rightarrow> dm_sys \<Rightarrow> bool" where
  "ring_inv i s \<longleftrightarrow>
     (let d = dmt s; I = length (started s); S = length (submitted s) in
      length (queue d) = 4 \<and> I \<le> S \<and> completed s \<le> I \<and>
      lag {D_Bump} s \<le> I \<and> unat (queue_back d) = (I - lag {D_Bump} s) mod 4 \<and>
      (if client s i = M_Front then 1 else 0) \<le> S \<and>
      unat (queue_front d) = (S - (if client s i = M_Front then 1 else 0)) mod 4 \<and>
      unat (queue_fill d) + I = S + lag {D_Bump, D_Dec} s \<and> S + lag {D_Bump, D_Dec} s \<le> I + 4 \<and>
      map call_of (take I (submitted s)) = started s \<and>
      (\<forall>j. I \<le> j \<and> j < S \<longrightarrow> start_task (queue d ! (j mod 4)) = call_of (submitted s ! j)) \<and>
      (core_pc s \<in> {D_Block, D_Start} \<longrightarrow> I < S))"

definition inserting :: "client_pc \<Rightarrow> bool" where
  "inserting pc = (case pc of M_Lock _ \<Rightarrow> True | M_Write _ \<Rightarrow> True | M_Fill _ \<Rightarrow> True | _ \<Rightarrow> False)"

definition wake_ok :: "client_pc \<Rightarrow> bool" where
  "wake_ok pc =
     (case pc of Wake_Poll k \<Rightarrow> k \<in> {C_Out, W_Fill, W_Spin, R_Spin}
      | Wake_Set k \<Rightarrow> k \<in> {C_Out, W_Fill, W_Spin, R_Spin} | _ \<Rightarrow> True)"

definition insert_inv :: "nat \<Rightarrow> dm_sys \<Rightarrow> bool" where
  "insert_inv i s \<longleftrightarrow> wake_ok (client s i) \<and>
     (inserting (client s i) \<longrightarrow> unat (queue_fill (dmt s)) < 4) \<and>
     (\<forall>r. client s i = M_Fill r \<longrightarrow> start_task (queue (dmt s) ! (length (submitted s) mod 4)) = call_of r)"

lemma start_fill_task [simp]: "start_task (fill_task r t) = call_of r"
  by (cases r) (simp_all add: start_task_def)

lemma unat_bump: "unat ((x + 1) mod DM_TASK_QUEUE_SIZE) = (unat x + 1) mod 4" if "unat x < 4" for x :: u32
proof -
  have "unat (x + 1) = unat x + 1" using that by (subst unat_add_exact) auto
  then show ?thesis by (simp add: DM_TASK_QUEUE_SIZE_def unat_mod)
qed

lemma ring_inc: "unat (x + 1) = unat x + 1" if "unat x < 4" for x :: u32
  using that by (subst unat_add_exact) auto

lemma ring_dec: "unat (x - 1) = unat x - 1" if "0 < unat x" for x :: u32
  using that by (subst unat_sub_exact) auto

lemmas ring_invD = ring_inv_def [unfolded Let_def, THEN iffD1]

lemma Suc_pred_mod [simp]: "Suc 0 \<le> n \<Longrightarrow> Suc (n - Suc 0) mod 4 = n mod 4"
  by simp

lemma lag_frame [simp]:
  "lag A (s\<lparr>client := x\<rparr>) = lag A s" "lag A (s\<lparr>dmt := d\<rparr>) = lag A s"
  "lag A (s\<lparr>dm_irq := b\<rparr>) = lag A s" "lag A (s\<lparr>submitted := rs\<rparr>) = lag A s"
  "lag A (s\<lparr>completed := n\<rparr>) = lag A s"
  by (simp_all add: lag_def)

lemma mod4_inj: "a mod 4 \<noteq> b mod 4" if "a < b" "b < a + 4" for a b :: nat
  using that by presburger

lemma ring_core:
  assumes "ring_inv i s"
  shows "ring_inv i (dm_main depth s)"
proof -
  note inv = ring_invD [OF assms]
  have step: "map call_of (take (length (started s) + 1) (submitted s)) =
      started s @ [start_task (queue (dmt s) ! unat (queue_back (dmt s)))]" if "core_pc s = D_Start"
  proof -
    have "length (started s) < length (submitted s)" "unat (queue_back (dmt s)) = length (started s) mod 4"
      using inv that by (auto simp: lag_def)
    then show ?thesis using inv by (auto simp: take_Suc_conv_app_nth)
  qed
  show ?thesis
  proof (cases "core_pc s")
    case D_Start
    then show ?thesis
      using inv step unfolding ring_inv_def Let_def
      by (simp add: dm_main_def at_dm_def lag_def Suc_diff_Suc)
  next
    case D_Bump
    then show ?thesis
      using inv unfolding ring_inv_def Let_def
      by (simp add: dm_main_def at_dm_def upd_dm_def lag_def unat_bump mod_Suc_eq)
  next
    case D_Dec
    then show ?thesis
      using inv unfolding ring_inv_def Let_def
      by (simp add: dm_main_def at_dm_def upd_dm_def lag_def ring_dec)
  next
    case D_Top
    have "queue_fill (dmt s) \<noteq> 0 \<Longrightarrow> 0 < unat (queue_fill (dmt s))" by (simp add: unat_gt_0)
    then show ?thesis
      using inv D_Top unfolding ring_inv_def Let_def by (auto simp: dm_main_def at_dm_def lag_def)
  qed (use inv in \<open>simp_all add: dm_main_def at_dm_def upd_dm_def lag_def ring_inv_def Let_def stat_defs\<close>)
qed


text \<open>What the data mover core does not write.\<close>

lemma dm_main_frame:
  "client (dm_main depth s) = client s" "submitted (dm_main depth s) = submitted s"
  "queue (dmt (dm_main depth s)) = queue (dmt s)" "completed (dm_main depth s) = completed s"
  "core_pc s \<noteq> D_Dec \<Longrightarrow> queue_fill (dmt (dm_main depth s)) = queue_fill (dmt s)"
  by (cases "core_pc s"; simp add: dm_main_def at_dm_def upd_dm_def Let_def)+

lemma insert_core:
  assumes "ring_inv i s" "insert_inv i s"
  shows "insert_inv i (dm_main depth s)"
proof -
  have "unat (queue_fill (dmt (dm_main depth s))) \<le> unat (queue_fill (dmt s))"
  proof (cases "core_pc s = D_Dec")
    case True
    then have "0 < unat (queue_fill (dmt s))" using ring_invD [OF assms(1)] by (auto simp: lag_def)
    then show ?thesis using True by (simp add: dm_main_def at_dm_def upd_dm_def ring_dec)
  qed (simp add: dm_main_frame)
  then show ?thesis
    using assms(2) unfolding insert_inv_def dm_main_frame by (meson le_less_trans)
qed

lemmas client_defs = client_step_def goto_def upd_dm_def dm_mtx_lock_def dm_mtx_release_def

lemma ring_write:
  assumes "ring_inv i s" "insert_inv i s" "client s i = M_Write r"
  shows "ring_inv i (client_step i s)"
proof -
  note inv = ring_invD [OF assms(1)]
  let ?q = "queue (dmt s)" and ?S = "length (submitted s)"
  have front: "unat (queue_front (dmt s)) = ?S mod 4" and lt: "?S < length (started s) + 4"
    using inv assms(2,3) by (auto simp: inserting_def insert_inv_def)
  have keep: "?q[?S mod 4 := t] ! (j mod 4) = ?q ! (j mod 4)" if "length (started s) \<le> j" "j < ?S" for j t
    using mod4_inj [of j ?S] that lt by (subst nth_list_update_neq) auto
  show ?thesis
    using inv assms(3) front keep unfolding ring_inv_def Let_def by (simp add: client_defs)
qed

lemma ring_fill:
  assumes "ring_inv i s" "insert_inv i s" "client s i = M_Fill r"
  shows "ring_inv i (client_step i s)"
proof -
  note inv = ring_invD [OF assms(1)]
  have "unat (queue_fill (dmt s)) < 4" "start_task (queue (dmt s) ! (length (submitted s) mod 4)) = call_of r"
    using assms(2,3) by (auto simp: inserting_def insert_inv_def)
  then show ?thesis
    using inv assms(3) unfolding ring_inv_def Let_def
    by (simp add: client_defs ring_inc nth_append less_Suc_eq Suc_diff_le)
qed

lemma ring_front:
  assumes "ring_inv i s" "client s i = M_Front"
  shows "ring_inv i (client_step i s)"
proof -
  note inv = ring_invD [OF assms(1)]
  have f: "unat (queue_front (dmt s)) < 4" using inv by simp
  show ?thesis
    using inv assms(2) unfolding ring_inv_def Let_def by (simp add: client_defs unat_bump [OF f] mod_Suc_eq)
qed

text \<open>The other accesses of a client leave the ring alone.\<close>

lemma ring_same:
  assumes "ring_inv i s" "queue (dmt s') = queue (dmt s)" "queue_back (dmt s') = queue_back (dmt s)"
    "queue_front (dmt s') = queue_front (dmt s)" "queue_fill (dmt s') = queue_fill (dmt s)"
    "started s' = started s" "submitted s' = submitted s" "completed s' = completed s" "core_pc s' = core_pc s"
    "client s i \<noteq> M_Front" "client s' i \<noteq> M_Front"
  shows "ring_inv i s'"
proof -
  have "lag A s' = lag A s" for A using assms by (simp add: lag_def)
  then show ?thesis using assms unfolding ring_inv_def Let_def by simp
qed

lemma ring_client:
  assumes "ring_inv i s" "insert_inv i s"
  shows "ring_inv i (client_step i s)"
proof (cases "client s i")
  case (M_Write r)
  then show ?thesis by (rule ring_write [OF assms])
next
  case (M_Fill r)
  then show ?thesis by (rule ring_fill [OF assms])
next
  case M_Front
  then show ?thesis by (rule ring_front [OF assms(1)])
next
  case (Wake_Set k)
  then show ?thesis
    using assms(2) by (intro ring_same [OF assms(1)]) (auto simp: client_defs insert_inv_def wake_ok_def)
qed (intro ring_same [OF assms(1)]; simp add: client_defs wake_dm_def)+

lemma insert_client:
  assumes "ring_inv i s" "insert_inv i s"
  shows "insert_inv i (client_step i s)"
proof (cases "client s i")
  case (M_Poll r)
  then show ?thesis
    using assms(2) by (auto simp: insert_inv_def client_defs inserting_def wake_ok_def
        DM_TASK_QUEUE_SIZE_def word_le_nat_alt)
next
  case (M_Lock r)
  then show ?thesis
    using assms(2) by (auto simp: insert_inv_def client_defs inserting_def wake_ok_def)
next
  case (M_Write r)
  then have "unat (queue_front (dmt s)) = length (submitted s) mod 4" "length (queue (dmt s)) = 4"
    using ring_invD [OF assms(1)] by auto
  then show ?thesis
    using assms(2) M_Write by (simp add: insert_inv_def client_defs inserting_def wake_ok_def)
next
  case (Wake_Set k)
  then show ?thesis
    using assms(2) by (auto simp: insert_inv_def client_defs inserting_def wake_ok_def)
next
  case (Wake_Poll k)
  then show ?thesis
    using assms(2) by (auto simp: insert_inv_def client_defs inserting_def wake_ok_def)
qed (use assms(2) in \<open>simp_all add: insert_inv_def client_defs inserting_def wake_ok_def wake_dm_def\<close>)


section \<open>Waiting, with one client\<close>

definition spinning :: "client_pc \<Rightarrow> bool" where
  "spinning pc \<longleftrightarrow> pc \<in> {Wake_Poll W_Spin, Wake_Set W_Spin, W_Spin}"

definition drained :: "client_pc \<Rightarrow> bool" where
  "drained pc \<longleftrightarrow> spinning pc \<or> pc \<in> {W_Stat, W_Lock, W_Pvalid, W_Request, W_Release}"

definition wait_inv :: "nat \<Rightarrow> dm_sys \<Rightarrow> bool" where
  "wait_inv i s \<longleftrightarrow>
     (let d = dmt s; pc = client s i; idle = (completed s = length (started s)) in
      (core_pc s \<in> {D_Switch, D_Idle, D_Pvalid, D_Clear} \<longrightarrow> stat_q d \<noteq> 0) \<and>
      (drained pc \<longrightarrow> queue_fill d = 0) \<and>
      (pc \<in> {W_Lock, W_Pvalid, W_Request} \<longrightarrow> stat_q d = 0) \<and>
      (pc = W_Request \<longrightarrow> stat_pvalid d = 0) \<and>
      (spinning pc \<longrightarrow> stat_q d \<in> {0, STAT_WAIT_IDLE} \<and> (core_pc s = D_Pvalid \<longrightarrow> idle) \<and>
         (stat_pvalid d \<noteq> 0 \<longrightarrow> idle)) \<and>
      (pc = W_Release \<longrightarrow> idle))"

lemmas wait_invD = wait_inv_def [unfolded Let_def, THEN iffD1]

text \<open>When the client has seen the ring empty, the core is not taking a task.\<close>

lemma drained_core:
  assumes "ring_inv i s" "queue_fill (dmt s) = 0"
  shows "core_pc s \<notin> {D_Block, D_Start, D_Bump, D_Dec}" "length (started s) = length (submitted s)"
  using ring_invD [OF assms(1)] assms(2) by (auto simp: lag_def split: if_splits)

lemma wait_core:
  assumes "ring_inv i s" "wait_inv i s"
  shows "wait_inv i (dm_main depth s)"
proof -
  note inv = wait_invD [OF assms(2)]
  have dr: "drained (client s i) \<Longrightarrow> core_pc s \<notin> {D_Block, D_Start, D_Bump, D_Dec}"
    using drained_core [OF assms(1)] inv by blast
  have sp: "spinning (client s i) \<Longrightarrow> drained (client s i)" "drained W_Release"
    by (simp_all add: drained_def)
  show ?thesis
    by (cases "core_pc s")
      (use inv dr sp in \<open>auto simp: dm_main_def at_dm_def upd_dm_def wait_inv_def Let_def stat_defs\<close>)
qed

lemma wait_client:
  assumes "wait_inv i s" "insert_inv i s"
  shows "wait_inv i (client_step i s)"
proof -
  note inv = wait_invD [OF assms(1)] and w = assms(2) [unfolded insert_inv_def wake_ok_def]
  note defs = wait_inv_def client_defs Let_def spinning_def drained_def wake_dm_def stat_defs
  show ?thesis
  proof (cases "client s i")
    case (Wake_Poll k)
    then show ?thesis using inv w by (auto simp: defs)
  next
    case (Wake_Set k)
    then show ?thesis using inv w by (auto simp: defs)
  qed (use inv in \<open>auto simp: defs\<close>)
qed

lemma complete_inv:
  assumes "ring_inv i s" "insert_inv i s" "wait_inv i s"
  shows "ring_inv i (dm_step depth Complete s) \<and> insert_inv i (dm_step depth Complete s) \<and>
    wait_inv i (dm_step depth Complete s)"
proof (intro conjI)
  show "ring_inv i (dm_step depth Complete s)"
    using assms(1) by (simp add: ring_inv_def Let_def)
  show "insert_inv i (dm_step depth Complete s)"
    using assms(2) by (simp add: insert_inv_def)
  show "wait_inv i (dm_step depth Complete s)"
  proof (cases "completed s < length (started s)")
    case True
    then have "completed s \<noteq> length (started s)" by simp
    then show ?thesis using wait_invD [OF assms(3)] True unfolding wait_inv_def Let_def by simp
  qed (use assms(3) in simp)
qed

lemma call_inv:
  assumes "ring_inv i s" "insert_inv i s" "wait_inv i s"
  shows "ring_inv i (dm_step depth (Call i pc) s) \<and> insert_inv i (dm_step depth (Call i pc) s) \<and>
    wait_inv i (dm_step depth (Call i pc) s)"
proof (cases "client s i = C_Out \<and> is_call pc")
  case True
  then have pc: "(\<exists>r. pc = M_Poll r) \<or> pc \<in> {Wake_Poll C_Out, Wake_Poll W_Fill, R_Lock, E_Request}"
    by (auto simp: is_call_def dm_call_defs split: client_pc.splits)
  have "ring_inv i (goto i pc s)"
    using True pc by (intro ring_same [OF assms(1)]) (auto simp: goto_def)
  moreover have "insert_inv i (goto i pc s)"
    using pc by (auto simp: goto_def insert_inv_def inserting_def wake_ok_def)
  moreover have "\<not> drained pc" "\<not> spinning pc" "pc \<notin> {W_Lock, W_Pvalid, W_Request, W_Release}"
    using pc by (auto simp: drained_def spinning_def)
  then have "wait_inv i (goto i pc s)"
    using wait_invD [OF assms(3)] by (simp add: goto_def wait_inv_def)
  ultimately show ?thesis using True by simp
qed (use assms in auto)

lemma dm_reach_inv:
  assumes "dm_reach depth {i} s"
  shows "ring_inv i s \<and> insert_inv i s \<and> wait_inv i s"
  using assms
proof (induction rule: dm_reach.induct)
  case dm_reach_init
  show ?case
    by (simp add: ring_inv_def insert_inv_def wait_inv_def dm_sys0_def dm_zero_def lag_def inserting_def
        wake_ok_def drained_def spinning_def)
next
  case (dm_reach_core s)
  then show ?case using ring_core insert_core wait_core by simp
next
  case (dm_reach_complete s)
  then show ?case using complete_inv by blast
next
  case (dm_reach_client s j)
  then show ?case using ring_client insert_client wait_client by simp
next
  case (dm_reach_call s j pc)
  then show ?case using call_inv by simp
qed


section \<open>Runs\<close>

lemma dm_reach_step:
  assumes "dm_reach depth H s" "case e of Client i \<Rightarrow> i \<in> H | Call i _ \<Rightarrow> i \<in> H | _ \<Rightarrow> True"
  shows "dm_reach depth H (dm_step depth e s)"
  using assms dm_reach_core dm_reach_complete dm_reach_client dm_reach_call by (cases e) auto

lemma dm_reach_run:
  assumes "dm_reach depth H s" "list_all (\<lambda>e. case e of Client i \<Rightarrow> i \<in> H | Call i _ \<Rightarrow> i \<in> H | _ \<Rightarrow> True) es"
  shows "dm_reach depth H (dm_run depth es s)"
  using assms by (induction es arbitrary: s) (auto simp: dm_run_def intro: dm_reach_step)

text \<open>
  C4: The task ring is a FIFO. With one client and in every interleaving with the data mover core
  and the DMA: the transfers started so far are the requests submitted so far in their order, less
  at most four that wait in the ring; none is lost, repeated or overtaken, and the client's and the
  core's indices and counter never get out of step.
\<close>

theorem dm_ring_fifo:
  assumes "dm_reach depth {i} s"
  shows "started s = map call_of (take (length (started s)) (submitted s)) \<and>
    length (started s) \<le> length (submitted s) \<and> length (submitted s) \<le> length (started s) + 4 \<and>
    (\<forall>j < length (submitted s) - length (started s).
       start_task (queue (dmt s) ! ((length (started s) + j) mod 4)) = call_of (submitted s ! (length (started s) + j)))"
proof -
  note inv = ring_invD [OF conjunct1 [OF dm_reach_inv [OF assms]]]
  show ?thesis
    using inv by auto
qed



text \<open>A run of one client: a copy, \<open>dm_wait\<close> up to its last loop, and the exit of that loop.\<close>

definition copy_and_wait :: "dm_ev list" where
  "copy_and_wait =
     replicate 5 Core @ Call 0 (dm_memcpy_async 0x1000 0x2000 64) # replicate 6 (Client 0) @
     Call 0 dm_wait # replicate 2 (Client 0) @ replicate 12 Core @ replicate 7 (Client 0) @
     Complete # replicate 8 Core @ [Client 0]"

lemma copy_and_wait_reach: "dm_reach 8 {0} (dm_run 8 copy_and_wait dm_sys0)"
  by (rule dm_reach_run [OF dm_reach_init]) (simp add: copy_and_wait_def list_all_iff)

lemma copy_and_wait_result:
  "(let s = dm_run 8 copy_and_wait dm_sys0
    in (client s 0, submitted s, core_pc s)) = (W_Release, [Memcpy 0x1000 0x2000 64], D_Clear)"
  by code_simp


theorem dm_ring_fifo_witness:
  "(let s = dm_run 8 copy_and_wait dm_sys0 in started s = [Oned 0x2000 0x1000 64 0])"
proof -
  have "length (started (dm_run 8 copy_and_wait dm_sys0)) = 1" by code_simp
  then show ?thesis
    using dm_ring_fifo [OF copy_and_wait_reach] copy_and_wait_result by (simp add: Let_def)
qed

text \<open>
  C35: \<open>dm_exit\<close> can hang its caller: it sets the exit request before it waits for the core to sleep.
  A core that is awake, as it is when \<open>dm_wait\<close> has just returned, sees the request and leaves
  \<open>dm_main\<close> without sleeping again; then no step of the core, of the client or of the DMA changes
  anything, and the client waits for ever.
\<close>

theorem dm_exit_deadlock:
  "\<exists>s. dm_reach 8 {0} s \<and> core_pc s = D_Done \<and> client s 0 = Wake_Poll C_Out \<and>
     dm_step 8 Core s = s \<and> dm_step 8 (Client 0) s = s \<and> dm_step 8 Complete s = s"
proof -
  let ?es = "copy_and_wait @ [Client 0, Core, Call 0 dm_exit, Client 0] @ replicate 8 Core"
  let ?s = "dm_run 8 ?es dm_sys0"
  have "(core_pc ?s, client ?s 0, dm_wfi (dmt ?s), completed ?s = length (started ?s)) = (D_Done, Wake_Poll C_Out, 0, True)"
    by code_simp
  then have s: "core_pc ?s = D_Done" "client ?s 0 = Wake_Poll C_Out" "dm_wfi (dmt ?s) = 0"
      "completed ?s = length (started ?s)"
    by (simp_all del: dm_step.simps)
  have "dm_reach 8 {0} ?s"
    by (rule dm_reach_run [OF dm_reach_init]) (simp add: copy_and_wait_def list_all_iff)
  moreover have "dm_step 8 Core ?s = ?s" "dm_step 8 (Client 0) ?s = ?s" "dm_step 8 Complete ?s = ?s"
    using s by (simp_all add: dm_main_def client_step_def Let_def)
  ultimately show ?thesis using s by blast
qed

text \<open>
  Two clients overflow the ring: both see three tasks before either takes the mutex, which is
  taken after the poll, and both insert. The fifth request overwrites the first, which is never
  started: the core starts the fifth in its place.
\<close>

theorem dm_ring_overflow:
  "\<exists>s. dm_reach 8 {0, 1} s \<and> queue_fill (dmt s) = 5 \<and> length (submitted s) = 5 \<and>
     started (dm_run 8 (replicate 6 Core) s) = [call_of (submitted s ! 4)] \<and>
     call_of (submitted s ! 4) \<noteq> call_of (submitted s ! 0)"
proof -
  let ?copy = "\<lambda>i. Call i (dm_memcpy_async (of_nat i) 0 4)"
  let ?es = "[?copy 0] @ replicate 6 (Client 0) @ [?copy 0] @ replicate 6 (Client 0) @ [?copy 0] @
    replicate 6 (Client 0) @ [?copy 0, ?copy 1, Client 0, Client 1] @ replicate 5 (Client 0) @ replicate 5 (Client 1)"
  let ?s = "dm_run 8 ?es dm_sys0"
  have "(queue_fill (dmt ?s), length (submitted ?s), started (dm_run 8 (replicate 6 Core) ?s),
      call_of (submitted ?s ! 4), call_of (submitted ?s ! 0)) = (5, 5, [Oned 0 1 4 0], Oned 0 1 4 0, Oned 0 0 4 0)"
    by code_simp
  moreover have "dm_reach 8 {0, 1} ?s"
    by (rule dm_reach_run [OF dm_reach_init]) (simp add: list_all_iff)
  ultimately show ?thesis by (intro exI [of _ ?s]) (simp only: prod.inject, simp)
qed

end
