(* ===== verification/Kmp.thy ===== *)
theory Kmp
  imports Barrier
begin

text \<open>
  The OpenMP entry points that the compiler calls (\<open>sw/runtime/src/omp/kmp.c\<close>): forking a team,
  the wrapper that calls the outlined function, and static loop scheduling. Integers are 32-bit
  words, the C conversions between signed and unsigned are the identity on them; the signed
  division is that of the machine.
\<close>

section \<open>Data\<close>

definition KMP_FORK_MAX_NARGS :: u32 where "KMP_FORK_MAX_NARGS = 12"

record omp_team_t =
  nbThreads :: u8
  loop_epoch :: u32
  loop_is_setup :: u32
  core_epoch :: "u32 list"

record omp_t =
  plainTeam :: omp_team_t
  numThreads :: u32
  maxThreads :: u32
  kmpc_barrier :: u32

text \<open>\<open>omp_init\<close> on core 0: the argument array, the runtime structure, the barrier, the profile record.\<close>

record omp_env =
  omp_alloc :: snrt_allocator_t
  kmpc_args :: u32
  omp_p :: "hart \<Rightarrow> u32"
  omp_p_global :: u32
  omp_data :: omp_t
  omp_barrier :: snrt_barrier_t
  omp_prof :: u32

text \<open>The structure is 108 bytes with the static thread count undefined, the barrier 8.\<close>

definition omp_init :: "snrt_cfg \<Rightarrow> hart \<Rightarrow> omp_env \<Rightarrow> omp_env option" where
  "omp_init c h e =
     (if snrt_cluster_core_idx c h = 0 then
        (let (args, a) = snrt_l1_alloc (4 * KMP_FORK_MAX_NARGS) (omp_alloc e);
             (p, a) = snrt_l1_alloc 108 a;
             nbCores = snrt_cluster_compute_core_num c;
             (b, a) = snrt_l1_alloc 8 a;
             (prof, a) = snrt_l1_alloc 4 a
         in Some (e\<lparr>omp_alloc := a, kmpc_args := args, omp_p := (omp_p e)(h := p), omp_p_global := p,
              omp_data := \<lparr>plainTeam = \<lparr>nbThreads = ucast nbCores, loop_epoch = 0, loop_is_setup = 0,
                                        core_epoch = replicate 16 0\<rparr>,
                           numThreads = nbCores, maxThreads = nbCores, kmpc_barrier = b\<rparr>,
              omp_barrier := \<lparr>b_cnt = 0, b_iteration = 0\<rparr>, omp_prof := prof\<rparr>))
      else if omp_p_global e = 0 then None
      else Some (e\<lparr>omp_p := (omp_p e)(h := omp_p_global e)\<rparr>))"

definition omp_get_thread_num :: "snrt_cfg \<Rightarrow> hart \<Rightarrow> u32" where
  "omp_get_thread_num c h = snrt_cluster_core_idx c h"

definition omp_get_num_threads :: "snrt_cfg \<Rightarrow> u32" where
  "omp_get_num_threads c = snrt_cluster_compute_core_num c"

text \<open>The barrier of the team: the partial barrier over all its threads.\<close>

definition kmpc_barrier_call :: "omp_t \<Rightarrow> hart \<Rightarrow> pb_sys \<Rightarrow> pb_sys" where
  "kmpc_barrier_call omp h s = pb_access (numThreads omp) h s"

section \<open>Forking\<close>

text \<open>
  The calls of the outlined function that the switch makes: the argument lists, in order. A case
  without \<open>break\<close> continues with the next one. With more than twelve arguments the routine exits.
\<close>

datatype micro_event = ExitCall | MicroCall "u32 list"

function micro_switch :: "nat \<Rightarrow> u32 list \<Rightarrow> micro_event list" where
  "micro_switch argc p_argv =
     (if argc \<le> 7 then [MicroCall (take argc p_argv)]
      else if argc \<le> 11 then MicroCall (take argc p_argv) # micro_switch (argc + 1) p_argv
      else if argc = 12 then [MicroCall (take 12 p_argv)]
      else [ExitCall, MicroCall []])"

  by pat_completeness auto

termination micro_switch
  by (relation "measure (\<lambda>(argc, _). 12 - argc)") auto

declare micro_switch.simps [simp del]

definition microtask_wrapper :: "u32 \<Rightarrow> u32 list \<Rightarrow> micro_event list" where
  "microtask_wrapper argc args = micro_switch (unat argc) (drop 1 args)"

text \<open>
  The fork: the words it stores into the argument array, one address and value each, and whether
  it runs the team (on core 0) or exits (nested parallelism on a worker).
\<close>

datatype fork_result = ParallelRegion u32 | NestedExit

definition kmpc_fork_call :: "snrt_cfg \<Rightarrow> hart \<Rightarrow> omp_env \<Rightarrow> u32 \<Rightarrow> u32 list \<Rightarrow> (u32 \<times> u32) list \<times> fork_result" where
  "kmpc_fork_call c h e microtask va =
     ((kmpc_args e, microtask) # map (\<lambda>i. (kmpc_args e + 4 * of_nat i, va ! (i - 1))) [1..<length va + 1],
      if snrt_cluster_core_idx c h \<noteq> 0 then NestedExit else ParallelRegion (numThreads (omp_data e)))"

section \<open>Static scheduling\<close>

definition kmp_sch_static_chunked :: u32 where "kmp_sch_static_chunked = 33"
definition kmp_sch_static :: u32 where "kmp_sch_static = 34"

record loop_bounds =
  plastiter :: "u32 option"
  plower :: u32
  pupper :: u32
  pstride :: u32

datatype kmp_error = NullPointer

text \<open>The remainder of the machine's signed division.\<close>

definition rv_rem :: "u32 \<Rightarrow> u32 \<Rightarrow> u32" where
  "rv_rem a b = a - b * rv_div a b"

definition kmpc_for_static_init_4 ::
  "omp_team_t \<Rightarrow> u32 \<Rightarrow> u32 \<Rightarrow> u32 \<Rightarrow> u32 \<Rightarrow> loop_bounds \<Rightarrow> kmp_error + loop_bounds" where
  "kmpc_for_static_init_4 team threadNum sched incr chunk b =
     (let loopSize = rv_div (pupper b - plower b) incr + 1;
          globalUpper = pupper b;
          nb = ucast (nbThreads team) :: u32
      in if sched = kmp_sch_static_chunked then
           (let span = incr * chunk;
                stride = span * nb;
                lower = plower b + span * threadNum;
                upper = lower + span - incr;
                beginLastChunk = globalUpper - rv_rem globalUpper span
            in case plastiter b of
                 None \<Rightarrow> Inl NullPointer
               | Some _ \<Rightarrow>
                   Inr \<lparr>plastiter = Some (if rv_rem (beginLastChunk - lower) stride = 0 then 1 else 0),
                        plower = lower, pupper = upper, pstride = stride\<rparr>)
         else if sched = kmp_sch_static then
           (let chunk = loopSize div nb;
                leftOver = loopSize - chunk * nb;
                more = (threadNum <s leftOver);
                chunk' = (if more then chunk + 1 else chunk);
                lower = (if more then plower b + threadNum * chunk' * incr
                         else plower b + threadNum * chunk' * incr + leftOver);
                upper = lower + chunk' * incr - incr
            in Inr \<lparr>plastiter = (case plastiter b of None \<Rightarrow> None
                        | Some _ \<Rightarrow> Some (if upper = globalUpper \<and> lower \<le>s globalUpper then 1 else 0)),
                    plower = lower, pupper = upper, pstride = loopSize\<rparr>)
         else Inr b)"

definition kmpc_for_static_init_4u ::
  "omp_team_t \<Rightarrow> u32 \<Rightarrow> u32 \<Rightarrow> u32 \<Rightarrow> u32 \<Rightarrow> loop_bounds \<Rightarrow> kmp_error + loop_bounds" where
  "kmpc_for_static_init_4u team threadNum schedtype incr chunk b =
     kmpc_for_static_init_4 team threadNum schedtype incr chunk b"


section \<open>Correctness of the fork\<close>

lemma micro_switch_length:
  "8 \<le> argc \<Longrightarrow> argc \<le> 12 \<Longrightarrow> length (micro_switch argc p) = 13 - argc"
proof (induction "12 - argc" arbitrary: argc)
  case 0
  then show ?case by (simp add: micro_switch.simps)
next
  case (Suc n)
  then have "length (micro_switch (argc + 1) p) = 12 - argc" by (subst Suc.hyps(1)) auto
  then show ?case using Suc by (subst micro_switch.simps) auto
qed

text \<open>
  C36: The wrapper calls the outlined function exactly once, with its arguments, exactly for up to
  seven arguments or twelve: the cases for eight to eleven have no \<open>break\<close> and call it again.
\<close>

theorem microtask_once_iff:
  "microtask_wrapper argc args = [MicroCall (take (unat argc) (drop 1 args))] \<longleftrightarrow>
     unat argc \<le> 7 \<or> unat argc = 12"
proof -
  consider "unat argc \<le> 7" | "8 \<le> unat argc" "unat argc \<le> 11" | "unat argc = 12" | "12 < unat argc" by linarith
  then show ?thesis
  proof cases
    case 2
    then have "length (microtask_wrapper argc args) = 13 - unat argc"
      by (simp add: microtask_wrapper_def micro_switch_length)
    then have "length (microtask_wrapper argc args) \<noteq> length [MicroCall (take (unat argc) (drop 1 args))]"
      using 2 by simp
    then have "microtask_wrapper argc args \<noteq> [MicroCall (take (unat argc) (drop 1 args))]" by metis
    then show ?thesis using 2 by simp
  qed (simp_all add: microtask_wrapper_def micro_switch.simps)
qed

text \<open>The stores of the fork on a memory of words, and the words that the wrapper reads.\<close>

definition store_words :: "(u32 \<times> u32) list \<Rightarrow> (u32 \<Rightarrow> u32) \<Rightarrow> u32 \<Rightarrow> u32" where
  "store_words ws m = fold (\<lambda>(a, v) m. m(a := v)) ws m"

definition read_args :: "(u32 \<Rightarrow> u32) \<Rightarrow> u32 \<Rightarrow> nat \<Rightarrow> u32 list" where
  "read_args m p n = map (\<lambda>i. m (p + 4 * of_nat i)) [0..<n]"

lemma store_words_other: "a \<notin> fst ` set ws \<Longrightarrow> store_words ws m a = m a"
  by (induction ws arbitrary: m) (auto simp: store_words_def)

lemma store_words_at:
  "distinct (map fst ws) \<Longrightarrow> (a, v) \<in> set ws \<Longrightarrow> store_words ws m a = v"
proof (induction ws arbitrary: m)
  case (Cons w ws)
  then show ?case
    using store_words_other [of a ws "m(a := v)"]
    by (cases w) (force simp: store_words_def)
qed simp

lemma args_distinct:
  assumes "i < 2 ^ 30" "j < 2 ^ 30"
  shows "p + 4 * of_nat i = p + (4 * of_nat j :: u32) \<longleftrightarrow> i = j"
proof
  assume "p + 4 * of_nat i = p + (4 * of_nat j :: u32)"
  then have "of_nat (4 * i) = (of_nat (4 * j) :: u32)" by simp
  then have "4 * i = 4 * j" by (rule word_of_nat_inj) (use assms in simp_all)
  then show "i = j" by simp
qed simp

lemma fork_writes:
  "fst (kmpc_fork_call c h e microtask va) =
     map (\<lambda>i. (kmpc_args e + 4 * of_nat i, (microtask # va) ! i)) [0..<length va + 1]"
  by (simp add: kmpc_fork_call_def upt_conv_Cons nth_Cons' del: upt_Suc)


lemma read_stored:
  assumes "length xs < 2 ^ 30"
  shows "read_args (store_words (map (\<lambda>i. (p + 4 * of_nat i, xs ! i)) [0..<length xs]) m) p (length xs) = xs"
proof (rule nth_equalityI)
  fix j assume j: "j < length (read_args (store_words (map (\<lambda>i. (p + 4 * of_nat i, xs ! i)) [0..<length xs]) m) p (length xs))"
  have "store_words (map (\<lambda>i. (p + 4 * of_nat i, xs ! i)) [0..<length xs]) m (p + 4 * of_nat j) = xs ! j"
  proof (rule store_words_at)
    show "distinct (map fst (map (\<lambda>i. (p + 4 * of_nat i, xs ! i)) [0..<length xs]))"
      using assms args_distinct [of _ _ p] by (auto simp: distinct_map inj_on_def o_def)
  qed (use j in \<open>auto simp: read_args_def\<close>)
  then show "read_args (store_words (map (\<lambda>i. (p + 4 * of_nat i, xs ! i)) [0..<length xs]) m) p (length xs) ! j = xs ! j"
    using j by (simp add: read_args_def)
qed (simp add: read_args_def)

text \<open>
  A fork on core 0 with up to seven shared variables: what the wrapper of every thread reads
  from the argument array is the outlined function with exactly the arguments of the fork, and the
  team is run with the number of threads of the runtime.
\<close>

theorem fork_passes_arguments:
  assumes "snrt_cluster_core_idx c h = 0" "length va \<le> 7"
  shows "case kmpc_fork_call c h e microtask va of (ws, r) \<Rightarrow>
    (let args = read_args (store_words ws m) (kmpc_args e) (length va + 1) in
     r = ParallelRegion (numThreads (omp_data e)) \<and> hd args = microtask \<and>
     microtask_wrapper (of_nat (length va)) args = [MicroCall va])"
proof -
  have r: "read_args (store_words (fst (kmpc_fork_call c h e microtask va)) m) (kmpc_args e) (length va + 1) = microtask # va"
    using read_stored [of "microtask # va" "kmpc_args e" m] assms(2) unfolding fork_writes by simp
  have "unat (of_nat (length va) :: u32) = length va"
    using assms(2) by (intro unat_of_nat_u32) simp
  then have "microtask_wrapper (of_nat (length va)) (microtask # va) = [MicroCall va]"
    using assms(2) by (simp add: microtask_wrapper_def micro_switch.simps)
  moreover have "snd (kmpc_fork_call c h e microtask va) = ParallelRegion (numThreads (omp_data e))"
    using assms(1) by (simp add: kmpc_fork_call_def)
  ultimately show ?thesis
    using r by (auto simp: Let_def split: prod.splits)
qed

lemma image_subset_inj:
  assumes "inj_on f U" "A \<subseteq> U" "B \<subseteq> U"
  shows "f ` A \<subseteq> f ` B \<longleftrightarrow> A \<subseteq> B"
  using assms unfolding inj_on_def by blast

text \<open>
  C38: The stores of the fork stay in the array that \<open>omp_init\<close> allocates, of twelve words, exactly
  for up to eleven arguments: with twelve, the number the wrapper and the constant
  \<open>KMP_FORK_MAX_NARGS\<close> allow, the last one is written behind the array, since the first word holds
  the function.
\<close>

theorem fork_stores_in_array_iff:
  assumes "length va < 1000"
  shows "fst ` set (fst (kmpc_fork_call c h e microtask va)) \<subseteq>
      (\<lambda>i. kmpc_args e + 4 * of_nat i) ` {..<unat KMP_FORK_MAX_NARGS} \<longleftrightarrow> length va \<le> 11"
proof -
  have "fst ` set (fst (kmpc_fork_call c h e microtask va)) = (\<lambda>i. kmpc_args e + 4 * of_nat i) ` {..<length va + 1}"
    unfolding fork_writes by (simp add: image_image lessThan_atLeast0 del: upt_Suc)
  moreover have "inj_on (\<lambda>i. kmpc_args e + 4 * of_nat i) {..<1001}"
    using args_distinct [of _ _ "kmpc_args e"] by (auto simp: inj_on_def)
  ultimately have "fst ` set (fst (kmpc_fork_call c h e microtask va)) \<subseteq>
      (\<lambda>i. kmpc_args e + 4 * of_nat i) ` {..<unat KMP_FORK_MAX_NARGS} \<longleftrightarrow> {..<length va + 1} \<subseteq> {..<12}"
    using assms by (simp add: KMP_FORK_MAX_NARGS_def image_subset_inj [of _ "{..<1001}"])
  then show ?thesis by auto
qed


section \<open>Correctness of static scheduling\<close>

text \<open>The first iteration of thread \<open>t\<close> when \<open>N\<close> iterations are divided over \<open>T\<close> threads.\<close>

definition first_iter :: "nat \<Rightarrow> nat \<Rightarrow> nat \<Rightarrow> nat" where
  "first_iter N T t = t * (N div T) + min t (N mod T)"

lemma first_iter_0 [simp]: "first_iter N T 0 = 0"
  by (simp add: first_iter_def)

lemma first_iter_T: "0 < T \<Longrightarrow> first_iter N T T = N"
  by (simp add: first_iter_def min.absorb2 less_imp_le)

lemma first_iter_Suc: "first_iter N T (Suc t) = first_iter N T t + N div T + (if t < N mod T then 1 else 0)"
  by (simp add: first_iter_def min_def)

lemma rv_div_1: "rv_div a 1 = a"
  by (simp add: rv_div_def sgn_mult_abs mult_sgn_abs)

lemma sless_of_nat:
  assumes "i < 2147483648" "j < 2147483648"
  shows "(of_nat i :: u32) <s of_nat j \<longleftrightarrow> i < j"
  using assms by (simp add: word_sless_alt sint_small unat_of_nat_u32)

lemma div_of_nat:
  assumes "i < 4294967296" "j < 4294967296"
  shows "(of_nat i :: u32) div of_nat j = of_nat (i div j)"
  using assms by (simp add: word_arith_nat_div unat_of_nat_u32)

lemma static_init_bounds:
  assumes nb: "unat (nbThreads team) = T" "0 < T" and t: "t < T"
    and N: "pupper b - plower b = of_nat (N - 1)" "0 < N" "N < 2147483648"
  obtains pl where "kmpc_for_static_init_4 team (of_nat t) kmp_sch_static 1 chunk b = Inr
    \<lparr>plastiter = pl, plower = plower b + of_nat (first_iter N T t),
     pupper = plower b + of_nat (first_iter N T (Suc t)) - 1, pstride = of_nat N\<rparr>"
proof -
  have T: "T < 256" using nb(1) unat_u8_bound [of "nbThreads team"] by simp
  have nbw: "ucast (nbThreads team) = (of_nat T :: u32)"
    unfolding nb(1) [symmetric] by simp
  have size: "rv_div (pupper b - plower b) 1 + 1 = of_nat N"
    using of_nat_Suc [of "N - 1", where 'a = u32] N by (simp add: rv_div_1 add.commute)
  have q: "of_nat N div of_nat T = (of_nat (N div T) :: u32)" using N T by (intro div_of_nat) simp_all
  have r: "of_nat N - of_nat (N div T) * of_nat T = (of_nat (N mod T) :: u32)"
    by (simp add: minus_div_mult_eq_mod [symmetric] of_nat_diff)
  have more: "(of_nat t :: u32) <s of_nat (N mod T) \<longleftrightarrow> t < N mod T"
    using t T nb(2) mod_less_divisor [of T N] by (intro sless_of_nat) linarith+
  have "\<exists>pl. kmpc_for_static_init_4 team (of_nat t) kmp_sch_static 1 chunk b = Inr
    \<lparr>plastiter = pl, plower = plower b + of_nat (first_iter N T t),
     pupper = plower b + of_nat (first_iter N T (Suc t)) - 1, pstride = of_nat N\<rparr>"
    unfolding kmpc_for_static_init_4_def Let_def nbw size q r more first_iter_Suc first_iter_def
    by (cases "t < N mod T")
      (simp_all add: kmp_sch_static_def kmp_sch_static_chunked_def min_def algebra_simps)
  then show thesis using that by blast
qed

text \<open>
  C37: Static scheduling of a loop with increment 1. For a non-empty loop of fewer than \<open>2^31\<close>
  iterations and a team of any size: the intervals from the lower to the upper bounds that the
  threads of the team get cover every iteration of the loop exactly once.
\<close>

theorem kmp_static_partition:
  assumes "nbThreads team \<noteq> 0" "unat (pupper b - plower b) < 2147483647" "i \<le> unat (pupper b - plower b)"
  shows "\<exists>!t. t < unat (nbThreads team) \<and>
    (case kmpc_for_static_init_4 team (of_nat t) kmp_sch_static 1 chunk b of
       Inl _ \<Rightarrow> False
     | Inr b' \<Rightarrow> unat (plower b' - plower b) \<le> i \<and> i < unat (pupper b' + 1 - plower b))"
proof -
  define T where "T = unat (nbThreads team)"
  define N where "N = unat (pupper b - plower b) + 1"
  have T: "0 < T" using assms(1) by (simp add: T_def unat_gt_0)
  have N: "pupper b - plower b = of_nat (N - 1)" "0 < N" "N < 2147483648"
    using assms(2) by (simp_all add: N_def)
  have le: "first_iter N T t \<le> N" if "t \<le> T" for t
  proof -
    have "first_iter N T t \<le> first_iter N T T"
      unfolding first_iter_def by (intro add_mono mult_le_mono1 min.mono order_refl that)
    then show ?thesis using first_iter_T [OF T] by simp
  qed
  have range: "(case kmpc_for_static_init_4 team (of_nat t) kmp_sch_static 1 chunk b of Inl _ \<Rightarrow> False
      | Inr b' \<Rightarrow> unat (plower b' - plower b) \<le> i \<and> i < unat (pupper b' + 1 - plower b)) \<longleftrightarrow>
      first_iter N T t \<le> i \<and> i < first_iter N T (Suc t)" if t: "t < T" for t
  proof -
    obtain pl where "kmpc_for_static_init_4 team (of_nat t) kmp_sch_static 1 chunk b = Inr
        \<lparr>plastiter = pl, plower = plower b + of_nat (first_iter N T t),
         pupper = plower b + of_nat (first_iter N T (Suc t)) - 1, pstride = of_nat N\<rparr>"
      by (rule static_init_bounds [OF T_def [symmetric] T t N])
    then show ?thesis
      using le [of t] le [of "Suc t"] t N(3) by (simp add: unat_of_nat_u32)
  qed
  have "\<exists>!t. t < T \<and> first_iter N T t \<le> i \<and> i < first_iter N T (Suc t)"
    by (rule interval_partition) (use assms(3) first_iter_T [OF T] in \<open>simp_all add: first_iter_Suc N_def\<close>)
  moreover have "(t < T \<and> first_iter N T t \<le> i \<and> i < first_iter N T (Suc t)) \<longleftrightarrow>
      t < T \<and> (case kmpc_for_static_init_4 team (of_nat t) kmp_sch_static 1 chunk b of Inl _ \<Rightarrow> False
      | Inr b' \<Rightarrow> unat (plower b' - plower b) \<le> i \<and> i < unat (pupper b' + 1 - plower b))" for t
    using range by blast
  ultimately show ?thesis unfolding T_def [symmetric] by (simp only:)
qed

text \<open>
  With another increment the bounds of the threads behind the first ones are wrong: \<open>leftOver\<close> is
  added without the increment. The loop \<open>0, 2, 4, 6, 8\<close> on two threads: the second starts at 5.
\<close>

lemma kmp_static_incr2:
  "kmpc_for_static_init_4 \<lparr>nbThreads = 2, loop_epoch = 0, loop_is_setup = 0, core_epoch = []\<rparr> 1 kmp_sch_static 2 0
     \<lparr>plastiter = None, plower = 0, pupper = 8, pstride = 2\<rparr> =
   Inr \<lparr>plastiter = None, plower = 5, pupper = 7, pstride = 5\<rparr>"
  by code_simp

lemma chunk_round:
  fixes n m t k T i :: nat
  assumes "0 < n" "0 < m"
  shows "(n * m * t + k * (n * m * T) \<le> i * n \<and> i * n \<le> n * m * t + n * m - n + k * (n * m * T)) \<longleftrightarrow>
    i div m = k * T + t"
proof -
  define a where "a = k * T + t"
  have 1: "n * m * t + k * (n * m * T) = n * (m * a)" by (simp add: a_def algebra_simps)
  obtain m' where m': "m = Suc m'" using assms(2) gr0_conv_Suc by blast
  have 2: "n * m * t + n * m - n + k * (n * m * T) = n * (m * a + m - 1)"
    using 1 unfolding m' by (simp add: algebra_simps)
  have "n * (m * a) \<le> i * n \<longleftrightarrow> m * a \<le> i" "i * n \<le> n * (m * a + m - 1) \<longleftrightarrow> i \<le> m * a + m - 1"
    using assms(1) by (simp_all add: mult.commute [of i n])
  moreover have "m * a \<le> i \<and> i \<le> m * a + m - 1 \<longleftrightarrow> i div m = a"
  proof
    show "i div m = a" if "m * a \<le> i \<and> i \<le> m * a + m - 1"
      using that assms(2) by (intro div_nat_eqI) (auto simp: mult.commute)
    show "m * a \<le> i \<and> i \<le> m * a + m - 1" if "i div m = a"
    proof -
      have "i = m * a + i mod m" using that mult_div_mod_eq [of m i] by simp
      moreover have "i mod m < m" using assms(2) by simp
      ultimately show ?thesis by linarith
    qed
  qed
  ultimately show ?thesis unfolding 1 2 a_def by simp
qed

text \<open>
  C29: Static scheduling with a chunk size. When the strides fit into 32 bits: iteration \<open>i\<close> of the
  loop, at \<open>i * incr\<close> from the lower bound, lies in round \<open>k\<close> of thread \<open>t\<close>, its bounds moved by
  \<open>k\<close> strides, exactly when \<open>i div chunk = k * nbThreads + t\<close>: every iteration belongs to one
  thread and one round, and the chunks go round the team.
\<close>

theorem kmp_static_chunked_rounds:
  assumes "0 < unat incr" "0 < unat chunk" "unat incr * unat chunk * unat (nbThreads team) < 2 ^ 32"
    "t < unat (nbThreads team)" "plastiter b \<noteq> None"
  shows "case kmpc_for_static_init_4 team (of_nat t) kmp_sch_static_chunked incr chunk b of
      Inl _ \<Rightarrow> False
    | Inr b' \<Rightarrow>
        (unat (plower b' - plower b) + k * unat (pstride b') \<le> i * unat incr \<and>
         i * unat incr \<le> unat (pupper b' - plower b) + k * unat (pstride b')) \<longleftrightarrow>
        i div unat chunk = k * unat (nbThreads team) + t"
proof -
  define T where "T = unat (nbThreads team)"
  define n where "n = unat incr"
  define m where "m = unat chunk"
  note d = T_def [symmetric] n_def [symmetric] m_def [symmetric]
  have pos: "0 < n" "0 < m" "t < T" "n * m * T < 2 ^ 32" using assms by (simp_all add: T_def n_def m_def)
  have inc: "incr = of_nat n" and ch: "chunk = of_nat m" by (simp_all add: n_def m_def)
  have nbw: "ucast (nbThreads team) = (of_nat T :: u32)"
    unfolding T_def by simp
  have le1: "n * m * t + n * m \<le> n * m * T"
    using pos(3) mult_le_mono2 [of "t + 1" T "n * m"] by (simp add: distrib_left)
  have nm: "n \<le> n * m" using pos by simp
  have u: "unat (of_nat (n * m * t) :: u32) = n * m * t" "unat (of_nat (n * m * t + n * m - n) :: u32) = n * m * t + n * m - n"
      "unat (of_nat (n * m * T) :: u32) = n * m * T"
    using le1 pos(4) by (intro unat_of_nat_u32; simp)+
  obtain pl where "kmpc_for_static_init_4 team (of_nat t) kmp_sch_static_chunked incr chunk b = Inr
      \<lparr>plastiter = pl, plower = plower b + of_nat (n * m * t),
       pupper = plower b + of_nat (n * m * t) + of_nat (n * m) - of_nat n, pstride = of_nat (n * m * T)\<rparr>"
    using assms(5) by (auto simp: kmpc_for_static_init_4_def Let_def nbw inc ch)
  moreover have "plower b + of_nat (n * m * t) + of_nat (n * m) - of_nat n - plower b = (of_nat (n * m * t + n * m - n) :: u32)"
  proof -
    obtain m' where m': "m = Suc m'" using pos(2) gr0_conv_Suc by blast
    show ?thesis unfolding m' by (simp add: algebra_simps)
  qed
  ultimately show ?thesis
    using u chunk_round [OF pos(1,2), of t k T i] by (simp add: d)
qed


section \<open>Instances\<close>

definition sample_env :: omp_env where
  "sample_env = \<lparr>omp_alloc = \<lparr>a_base = 0, a_end = 0, a_next = 0\<rparr>, kmpc_args = 0x10000100, omp_p = (\<lambda>_. 0x10000130),
     omp_p_global = 0x10000130,
     omp_data = \<lparr>plainTeam = \<lparr>nbThreads = 8, loop_epoch = 0, loop_is_setup = 0, core_epoch = []\<rparr>,
       numThreads = 8, maxThreads = 8, kmpc_barrier = 0\<rparr>,
     omp_barrier = \<lparr>b_cnt = 0, b_iteration = 0\<rparr>, omp_prof = 0\<rparr>"

theorem fork_passes_arguments_witness:
  "case kmpc_fork_call sample_cfg 9 sample_env 0x80000000 [7, 5] of (ws, r) \<Rightarrow>
    (let args = read_args (store_words ws (\<lambda>_. 0)) (kmpc_args sample_env) (length [7 :: u32, 5] + 1) in
     r = ParallelRegion (numThreads (omp_data sample_env)) \<and> hd args = 0x80000000 \<and>
     microtask_wrapper (of_nat (length [7 :: u32, 5])) args = [MicroCall [7, 5]])"
  by (rule fork_passes_arguments) (simp_all add: team_defs sample_cfg_def)

theorem fork_stores_in_array_iff_witness:
  "\<not> fst ` set (fst (kmpc_fork_call sample_cfg 9 sample_env 0x80000000 (replicate 12 0))) \<subseteq>
      (\<lambda>i. kmpc_args sample_env + 4 * of_nat i) ` {..<unat KMP_FORK_MAX_NARGS}"
  using fork_stores_in_array_iff [where va = "replicate 12 0" and e = sample_env] by simp

definition sample_loop :: loop_bounds where
  "sample_loop = \<lparr>plastiter = Some 0, plower = 3, pupper = 12, pstride = 1\<rparr>"

theorem kmp_static_partition_witness:
  "\<exists>!t. t < 4 \<and>
    (case kmpc_for_static_init_4 \<lparr>nbThreads = 4, loop_epoch = 0, loop_is_setup = 0, core_epoch = []\<rparr> (of_nat t)
       kmp_sch_static 1 0 sample_loop of
       Inl _ \<Rightarrow> False
     | Inr b' \<Rightarrow> unat (plower b' - plower sample_loop) \<le> 7 \<and> 7 < unat (pupper b' + 1 - plower sample_loop))"
  using kmp_static_partition [of "\<lparr>nbThreads = 4, loop_epoch = 0, loop_is_setup = 0, core_epoch = []\<rparr>" sample_loop 7 0]
  by (simp add: sample_loop_def)

theorem kmp_static_chunked_rounds_witness:
  "case kmpc_for_static_init_4 \<lparr>nbThreads = 4, loop_epoch = 0, loop_is_setup = 0, core_epoch = []\<rparr> (of_nat 1)
       kmp_sch_static_chunked 1 2 sample_loop of
      Inl _ \<Rightarrow> False
    | Inr b' \<Rightarrow> unat (plower b' - plower sample_loop) + 0 * unat (pstride b') \<le> 2 * unat (1 :: u32) \<and>
        2 * unat (1 :: u32) \<le> unat (pupper b' - plower sample_loop) + 0 * unat (pstride b')"
  using kmp_static_chunked_rounds [of 1 2 "\<lparr>nbThreads = 4, loop_epoch = 0, loop_is_setup = 0, core_epoch = []\<rparr>" 1
      sample_loop 0 2]
  by (simp add: sample_loop_def split: sum.splits)

end
