(* ===== verification/Eu.thy ===== *)
theory Eu
  imports Irq
begin

text \<open>
  The event unit of the OpenMP runtime (\<open>sw/runtime/src/omp/eu.h\<close>, \<open>omp.h\<close>, \<open>omp.c\<close>): core 0
  dispatches a function to a number of threads, wakes the workers, runs its own part and waits
  for all. Every access to the shared structure is one step and the cores interleave in any
  order. The variant with the cluster-local interrupts is modelled, the default of the header.
\<close>

section \<open>Data\<close>

record eu_t =
  workers_in_loop :: u32
  exit_flag :: u32
  workers_mutex :: u32
  workers_wfi :: u32
  e_fn :: u32
  e_data :: u32
  e_argc :: u32
  e_nthreads :: u32
  e_fini_count :: u32

text \<open>A function with its argument count and data.\<close>

type_synonym job = "u32 \<times> u32 \<times> u32"

datatype worker_pc =
    L_Enter | L_Exit | L_Cmp | L_Call | L_Fini | L_Wfi0 | L_Wfi1 | L_Wfi2 | L_Wfi3 | L_Done

datatype master_pc =
    B_Wait
  | M_Out
  | P_Scratch job u32 | P_Wait u32 job u32 | P_Push job u32
  | R_Read | R_Zero u32 | R_Own u32 | R_Loop | R_Wait u32 | R_Clear
  | K_Scratch master_pc | K_Wait u32 master_pc | K_Set master_pc
  | X_Guard | X_Run | X_Scratch | X_Wait u32 | X_Flag | X_Done

record eu_sys =
  eu_p :: eu_t
  mcip :: "nat \<Rightarrow> bool"
  worker :: "nat \<Rightarrow> worker_pc"
  master :: master_pc
  ran :: "nat \<Rightarrow> job list"
  dispatched :: "(job \<times> u32) list"

definition wk_to :: "nat \<Rightarrow> worker_pc \<Rightarrow> eu_sys \<Rightarrow> eu_sys" where
  "wk_to i pc s = s\<lparr>worker := (worker s)(i := pc)\<rparr>"

definition ms_to :: "master_pc \<Rightarrow> eu_sys \<Rightarrow> eu_sys" where
  "ms_to pc s = s\<lparr>master := pc\<rparr>"

definition eu_upd :: "(eu_t \<Rightarrow> eu_t) \<Rightarrow> eu_sys \<Rightarrow> eu_sys" where
  "eu_upd f s = s\<lparr>eu_p := f (eu_p s)\<rparr>"

definition call_job :: "nat \<Rightarrow> eu_sys \<Rightarrow> eu_sys" where
  "call_job i s = s\<lparr>ran := (ran s)(i := ran s i @ [(e_fn (eu_p s), e_argc (eu_p s), e_data (eu_p s))])\<rparr>"

section \<open>The workers\<close>

fun worker_wfi :: "nat \<Rightarrow> worker_pc \<Rightarrow> eu_sys \<Rightarrow> eu_sys" where
  "worker_wfi i L_Wfi0 s = wk_to i L_Wfi1 (eu_upd (\<lambda>e. e\<lparr>workers_wfi := workers_wfi e + 1\<rparr>) s)"
| "worker_wfi i L_Wfi1 s = (if mcip s i then wk_to i L_Wfi2 s else s)"
| "worker_wfi i L_Wfi2 s = wk_to i L_Wfi3 (s\<lparr>mcip := (mcip s)(i := False)\<rparr>)"
| "worker_wfi i L_Wfi3 s = wk_to i L_Exit (eu_upd (\<lambda>e. e\<lparr>workers_wfi := workers_wfi e - 1\<rparr>) s)"
| "worker_wfi i _ s = s"

definition eu_event_loop :: "nat \<Rightarrow> eu_sys \<Rightarrow> eu_sys" where
  "eu_event_loop i s =
     (let e = eu_p s in
      case worker s i of
        L_Enter \<Rightarrow> wk_to i L_Exit (eu_upd (\<lambda>e. e\<lparr>workers_in_loop := workers_in_loop e + 1\<rparr>) s)
      | L_Exit \<Rightarrow> wk_to i (if exit_flag e \<noteq> 0 then L_Done else L_Cmp) s
      | L_Cmp \<Rightarrow> wk_to i (if of_nat i < e_nthreads e then L_Call else L_Fini) s
      | L_Call \<Rightarrow> wk_to i L_Fini (call_job i s)
      | L_Fini \<Rightarrow> wk_to i L_Wfi0 (eu_upd (\<lambda>e. e\<lparr>e_fini_count := e_fini_count e + 1\<rparr>) s)
      | L_Done \<Rightarrow> s
      | pc \<Rightarrow> worker_wfi i pc s)"

section \<open>The master\<close>

text \<open>The wake-up mask: all compute cores but core 0.\<close>

definition wake_mask :: "nat \<Rightarrow> u32" where
  "wake_mask numcores = NOT 1 AND (push_bit numcores 1 - 1)"

fun wake_workers :: "nat \<Rightarrow> master_pc \<Rightarrow> eu_sys \<Rightarrow> eu_sys" where
  "wake_workers n (K_Scratch k) s = ms_to (K_Wait (workers_in_loop (eu_p s)) k) s"
| "wake_workers n (K_Wait scratch k) s = (if workers_wfi (eu_p s) \<noteq> scratch then s else ms_to (K_Set k) s)"
| "wake_workers n (K_Set k) s = ms_to k (s\<lparr>mcip := (\<lambda>i. mcip s i \<or> bit (wake_mask n) i)\<rparr>)"
| "wake_workers n _ s = s"

fun eu_dispatch_push :: "master_pc \<Rightarrow> eu_sys \<Rightarrow> eu_sys" where
  "eu_dispatch_push (P_Scratch j nt) s = ms_to (P_Wait (workers_in_loop (eu_p s)) j nt) s"
| "eu_dispatch_push (P_Wait scratch j nt) s =
     (if workers_wfi (eu_p s) \<noteq> scratch then s else ms_to (P_Push j nt) s)"
| "eu_dispatch_push (P_Push j nt) s =
     ms_to R_Read (eu_upd (\<lambda>e. e\<lparr>e_fn := fst j, e_argc := fst (snd j), e_data := snd (snd j), e_nthreads := nt\<rparr>) s
       \<lparr>dispatched := dispatched s @ [(j, nt)]\<rparr>)"
| "eu_dispatch_push _ s = s"

fun eu_run_empty :: "master_pc \<Rightarrow> eu_sys \<Rightarrow> eu_sys" where
  "eu_run_empty R_Read s = ms_to (if e_nthreads (eu_p s) = 0 then M_Out else R_Zero (e_nthreads (eu_p s))) s"
| "eu_run_empty (R_Zero scratch) s =
     ms_to (if scratch > 1 then K_Scratch (R_Own scratch) else R_Own scratch) (eu_upd (\<lambda>e. e\<lparr>e_fini_count := 0\<rparr>) s)"
| "eu_run_empty (R_Own scratch) s =
     ms_to (if scratch > 1 then R_Loop else R_Clear) (if 0 < e_nthreads (eu_p s) then call_job 0 s else s)"
| "eu_run_empty R_Loop s = ms_to (R_Wait (workers_in_loop (eu_p s))) s"
| "eu_run_empty (R_Wait scratch) s = (if e_fini_count (eu_p s) \<noteq> scratch then s else ms_to R_Clear s)"
| "eu_run_empty R_Clear s = ms_to M_Out (eu_upd (\<lambda>e. e\<lparr>e_nthreads := 0\<rparr>) s)"
| "eu_run_empty _ s = s"

text \<open>
  \<open>eu_exit\<close>: its guard calls \<open>eu_run_empty\<close> when there are no threads, where it returns at once.
\<close>

fun eu_exit :: "master_pc \<Rightarrow> eu_sys \<Rightarrow> eu_sys" where
  "eu_exit X_Guard s = ms_to (if e_nthreads (eu_p s) = 0 then X_Run else X_Scratch) s"
| "eu_exit X_Run s = (if e_nthreads (eu_p s) = 0 then ms_to X_Scratch s else s)"
| "eu_exit X_Scratch s = ms_to (X_Wait (workers_in_loop (eu_p s))) s"
| "eu_exit (X_Wait scratch) s = (if workers_wfi (eu_p s) \<noteq> scratch then s else ms_to X_Flag s)"
| "eu_exit X_Flag s = ms_to (K_Scratch X_Done) (eu_upd (\<lambda>e. e\<lparr>exit_flag := 1\<rparr>) s)"
| "eu_exit _ s = s"

text \<open>The wait of core 0 in \<open>snrt_omp_bootstrap\<close>, and the steps of the master by its position.\<close>

definition snrt_omp_bootstrap :: "nat \<Rightarrow> eu_sys \<Rightarrow> eu_sys" where
  "snrt_omp_bootstrap n s = (if workers_wfi (eu_p s) \<noteq> of_nat n - 1 then s else ms_to M_Out s)"

definition master_step :: "nat \<Rightarrow> eu_sys \<Rightarrow> eu_sys" where
  "master_step n s =
     (case master s of
        B_Wait \<Rightarrow> snrt_omp_bootstrap n s
      | M_Out \<Rightarrow> s
      | P_Scratch j nt \<Rightarrow> eu_dispatch_push (master s) s
      | P_Wait sc j nt \<Rightarrow> eu_dispatch_push (master s) s
      | P_Push j nt \<Rightarrow> eu_dispatch_push (master s) s
      | K_Scratch k \<Rightarrow> wake_workers n (master s) s
      | K_Wait sc k \<Rightarrow> wake_workers n (master s) s
      | K_Set k \<Rightarrow> wake_workers n (master s) s
      | R_Read \<Rightarrow> eu_run_empty (master s) s
      | R_Zero sc \<Rightarrow> eu_run_empty (master s) s
      | R_Own sc \<Rightarrow> eu_run_empty (master s) s
      | R_Loop \<Rightarrow> eu_run_empty (master s) s
      | R_Wait sc \<Rightarrow> eu_run_empty (master s) s
      | R_Clear \<Rightarrow> eu_run_empty (master s) s
      | _ \<Rightarrow> eu_exit (master s) s)"

text \<open>A call of \<open>parallelRegion\<close>.\<close>

definition parallelRegion :: "job \<Rightarrow> u32 \<Rightarrow> eu_sys \<Rightarrow> eu_sys" where
  "parallelRegion j num_threads s = ms_to (P_Scratch j num_threads) s"

definition eu_init_state :: eu_sys where
  "eu_init_state = \<lparr>eu_p = \<lparr>workers_in_loop = 0, exit_flag = 0, workers_mutex = 0, workers_wfi = 0, e_fn = 0,
       e_data = 0, e_argc = 0, e_nthreads = 0, e_fini_count = 0\<rparr>,
     mcip = (\<lambda>_. False), worker = (\<lambda>_. L_Enter), master = B_Wait, ran = (\<lambda>_. []), dispatched = []\<rparr>"

text \<open>\<open>n\<close> compute cores: core 0 is the master, the cores from 1 on are workers.\<close>

inductive eu_reach :: "nat \<Rightarrow> eu_sys \<Rightarrow> bool" for n where
  eu_reach_init: "eu_reach n eu_init_state"
| eu_reach_worker: "eu_reach n s \<Longrightarrow> 1 \<le> i \<Longrightarrow> i < n \<Longrightarrow> eu_reach n (eu_event_loop i s)"
| eu_reach_master: "eu_reach n s \<Longrightarrow> eu_reach n (master_step n s)"
| eu_reach_call: "eu_reach n s \<Longrightarrow> master s = M_Out \<Longrightarrow> eu_reach n (parallelRegion j nt s)"
| eu_reach_exit: "eu_reach n s \<Longrightarrow> master s = M_Out \<Longrightarrow> eu_reach n (ms_to X_Guard s)"


section \<open>The invariant\<close>

text \<open>The phases of a dispatch, by the position of the master.\<close>

datatype phase = Boot | Idle | Armed | Awake | Collected | Exiting

fun phase_of :: "master_pc \<Rightarrow> phase" where
  "phase_of B_Wait = Boot"
| "phase_of R_Read = Armed"
| "phase_of (R_Zero _) = Armed"
| "phase_of (R_Own sc) = (if sc > 1 then Awake else Armed)"
| "phase_of R_Loop = Awake"
| "phase_of (R_Wait _) = Awake"
| "phase_of R_Clear = Collected"
| "phase_of (K_Scratch k) = (if k = X_Done then Idle else Armed)"
| "phase_of (K_Wait _ k) = (if k = X_Done then Idle else Armed)"
| "phase_of (K_Set k) = (if k = X_Done then Idle else Armed)"
| "phase_of X_Done = Exiting"
| "phase_of _ = Idle"

definition crew :: "nat \<Rightarrow> nat set" where
  "crew n = {1..<n}"

lemma crew_finite [simp]: "finite (crew n)"
  by (simp add: crew_def)

definition in_wfi :: "worker_pc \<Rightarrow> bool" where
  "in_wfi pc \<longleftrightarrow> pc \<in> {L_Wfi1, L_Wfi2, L_Wfi3}"

definition at_rest :: "eu_sys \<Rightarrow> nat \<Rightarrow> bool" where
  "at_rest s i \<longleftrightarrow> (worker s i = L_Wfi0 \<or> worker s i = L_Wfi1) \<and> \<not> mcip s i"

definition before_call :: "worker_pc \<Rightarrow> bool" where
  "before_call pc \<longleftrightarrow> pc \<in> {L_Wfi1, L_Wfi2, L_Wfi3, L_Exit, L_Cmp, L_Call}"

text \<open>The jobs a core has to run, of a list of dispatches.\<close>

definition jobs :: "(job \<times> u32) list \<Rightarrow> nat \<Rightarrow> job list" where
  "jobs J i = map fst (filter (\<lambda>(j, nt). of_nat i < nt) J)"

lemma jobs_snoc: "jobs (J @ [(j, nt)]) i = jobs J i @ (if of_nat i < nt then [j] else [])"
  by (simp add: jobs_def)

definition eu_job :: "eu_t \<Rightarrow> job" where
  "eu_job e = (e_fn e, e_argc e, e_data e)"

definition counts_ok :: "nat \<Rightarrow> eu_sys \<Rightarrow> bool" where
  "counts_ok n s \<longleftrightarrow>
     workers_wfi (eu_p s) = of_nat (card {i \<in> crew n. in_wfi (worker s i)}) \<and>
     workers_in_loop (eu_p s) = of_nat (card {i \<in> crew n. worker s i \<noteq> L_Enter}) \<and>
     (master s \<noteq> B_Wait \<longrightarrow> (\<forall>i\<in>crew n. worker s i \<noteq> L_Enter))"

text \<open>The positions of the workers in each phase, and what they have run.\<close>

definition workers_ok :: "nat \<Rightarrow> eu_sys \<Rightarrow> bool" where
  "workers_ok n s \<longleftrightarrow>
     (case phase_of (master s) of
        Boot \<Rightarrow> \<forall>i\<in>crew n. worker s i \<in> {L_Enter, L_Exit, L_Cmp, L_Fini} \<and> \<not> mcip s i \<or> at_rest s i
      | Awake \<Rightarrow>
          (\<forall>i\<in>crew n. at_rest s i \<or> worker s i = L_Fini \<or>
             before_call (worker s i) \<and> (worker s i = L_Wfi1 \<longrightarrow> mcip s i)) \<and>
          (\<forall>i\<in>crew n. worker s i \<notin> {L_Wfi1, L_Wfi2} \<longrightarrow> \<not> mcip s i) \<and>
          (\<forall>i\<in>crew n. worker s i = L_Call \<longrightarrow> of_nat i < e_nthreads (eu_p s)) \<and>
          e_fini_count (eu_p s) = of_nat (card {i \<in> crew n. at_rest s i})
      | Exiting \<Rightarrow> \<forall>i\<in>crew n. worker s i \<noteq> L_Call
      | _ \<Rightarrow> \<forall>i\<in>crew n. at_rest s i)"

definition exit_ok :: "eu_sys \<Rightarrow> bool" where
  "exit_ok s \<longleftrightarrow> (exit_flag (eu_p s) \<noteq> 0 \<longrightarrow>
     master s = X_Done \<or> master s = K_Scratch X_Done \<or> master s = K_Set X_Done \<or> (\<exists>sc. master s = K_Wait sc X_Done))"

definition own_done :: "master_pc \<Rightarrow> bool" where
  "own_done pc = (case pc of R_Loop \<Rightarrow> True | R_Wait _ \<Rightarrow> True | _ \<Rightarrow> False)"

definition ran_ok :: "nat \<Rightarrow> eu_sys \<Rightarrow> bool" where
  "ran_ok n s \<longleftrightarrow>
     (let e = eu_p s; J = dispatched s in
      if phase_of (master s) \<in> {Armed, Awake}
      then \<exists>J'. J = J' @ [(eu_job e, e_nthreads e)] \<and>
        ran s 0 = (if own_done (master s) then jobs J 0 else jobs J' 0) \<and>
        (\<forall>i\<in>crew n. ran s i = (if phase_of (master s) = Awake \<and> (at_rest s i \<or> worker s i = L_Fini)
                                 then jobs J i else jobs J' i))
      else (\<forall>i<n. ran s i = jobs J i) \<and> (phase_of (master s) \<noteq> Collected \<longrightarrow> e_nthreads e = 0))"

text \<open>The local variables of the master.\<close>

fun cont_ok :: "eu_t \<Rightarrow> master_pc \<Rightarrow> bool" where
  "cont_ok e (R_Own sc) \<longleftrightarrow> sc > 1 \<and> sc = e_nthreads e \<and> e_fini_count e = 0"
| "cont_ok e X_Done \<longleftrightarrow> True"
| "cont_ok e _ \<longleftrightarrow> False"

fun master_ok :: "nat \<Rightarrow> eu_sys \<Rightarrow> master_pc \<Rightarrow> bool" where
  "master_ok n s (R_Zero sc) \<longleftrightarrow> sc = e_nthreads (eu_p s) \<and> sc \<noteq> 0"
| "master_ok n s (R_Own sc) \<longleftrightarrow> sc = e_nthreads (eu_p s) \<and> sc \<noteq> 0"
| "master_ok n s (R_Wait sc) \<longleftrightarrow> sc = of_nat (n - 1)"
| "master_ok n s (K_Scratch k) \<longleftrightarrow> cont_ok (eu_p s) k"
| "master_ok n s (K_Wait sc k) \<longleftrightarrow> cont_ok (eu_p s) k \<and> sc = of_nat (n - 1)"
| "master_ok n s (K_Set k) \<longleftrightarrow> cont_ok (eu_p s) k \<and> (\<forall>i\<in>crew n. worker s i = L_Wfi1)"
| "master_ok n s _ \<longleftrightarrow> True"

definition eu_inv :: "nat \<Rightarrow> eu_sys \<Rightarrow> bool" where
  "eu_inv n s \<longleftrightarrow> counts_ok n s \<and> workers_ok n s \<and> exit_ok s \<and> ran_ok n s \<and> master_ok n s (master s)"

text \<open>The conditions by phase.\<close>

lemma workers_ok_rest:
  "phase_of (master s) \<in> {Idle, Armed, Collected} \<Longrightarrow> workers_ok n s \<longleftrightarrow> (\<forall>i\<in>crew n. at_rest s i)"
  by (auto simp: workers_ok_def)

lemma ran_ok_armed:
  assumes "phase_of (master s) = Armed"
  shows "ran_ok n s \<longleftrightarrow> (\<exists>J'. dispatched s = J' @ [(eu_job (eu_p s), e_nthreads (eu_p s))] \<and>
    ran s 0 = jobs J' 0 \<and> (\<forall>i\<in>crew n. ran s i = jobs J' i))"
proof -
  have "\<not> own_done (master s)" using assms by (cases "master s") (simp_all add: own_done_def)
  then show ?thesis using assms by (simp add: ran_ok_def Let_def)
qed

lemma ran_ok_awake:
  assumes "phase_of (master s) = Awake"
  shows "ran_ok n s \<longleftrightarrow> (\<exists>J'. dispatched s = J' @ [(eu_job (eu_p s), e_nthreads (eu_p s))] \<and>
    ran s 0 = (if own_done (master s) then jobs (dispatched s) 0 else jobs J' 0) \<and>
    (\<forall>i\<in>crew n. ran s i = (if at_rest s i \<or> worker s i = L_Fini then jobs (dispatched s) i else jobs J' i)))"
  using assms by (simp add: ran_ok_def Let_def)

lemma ran_ok_other:
  assumes "phase_of (master s) \<notin> {Armed, Awake}"
  shows "ran_ok n s \<longleftrightarrow> (\<forall>i<n. ran s i = jobs (dispatched s) i) \<and>
    (phase_of (master s) \<noteq> Collected \<longrightarrow> e_nthreads (eu_p s) = 0)"
  using assms by (simp add: ran_ok_def)

lemma eu_inv_init: "eu_inv n eu_init_state"
  by (simp add: eu_inv_def counts_ok_def workers_ok_def exit_ok_def ran_ok_def eu_init_state_def in_wfi_def jobs_def)

section \<open>The workers keep it\<close>

lemma card_upd_in:
  assumes "i \<in> A" "finite A" "P x" "\<not> P (f i)"
  shows "card {j \<in> A. P ((f(i := x)) j)} = card {j \<in> A. P (f j)} + 1"
proof -
  have "{j \<in> A. P ((f(i := x)) j)} = insert i {j \<in> A. P (f j)}" using assms by auto
  then show ?thesis using assms by simp
qed

lemma card_upd_out:
  assumes "i \<in> A" "finite A" "\<not> P x" "P (f i)"
  shows "card {j \<in> A. P (f j)} = card {j \<in> A. P ((f(i := x)) j)} + 1"
  using card_upd_in [of i A P "f i" "f(i := x)"] assms by simp

lemma card_upd_same:
  assumes "P x = P (f i)"
  shows "{j \<in> A. P ((f(i := x)) j)} = {j \<in> A. P (f j)}"
  using assms by auto

lemmas wk_defs = eu_event_loop_def wk_to_def eu_upd_def call_job_def

lemma in_wfi_simps [simp]:
  "in_wfi L_Wfi1" "in_wfi L_Wfi2" "in_wfi L_Wfi3" "\<not> in_wfi L_Enter" "\<not> in_wfi L_Exit" "\<not> in_wfi L_Cmp"
  "\<not> in_wfi L_Call" "\<not> in_wfi L_Fini" "\<not> in_wfi L_Wfi0" "\<not> in_wfi L_Done"
  by (simp_all add: in_wfi_def)

text \<open>The counters after a worker has moved to \<open>pc\<close>.\<close>

lemma counts_move:
  assumes "counts_ok n s" "i \<in> crew n" "worker s' = (worker s)(i := pc)" "pc \<noteq> L_Enter" "master s' = master s"
    and "workers_wfi (eu_p s') + of_bool (in_wfi (worker s i)) = workers_wfi (eu_p s) + of_bool (in_wfi pc)"
    and "workers_in_loop (eu_p s') = workers_in_loop (eu_p s) + of_bool (worker s i = L_Enter)"
  shows "counts_ok n s'"
proof -
  have wfi: "card {j \<in> crew n. in_wfi (worker s' j)} + of_bool (in_wfi (worker s i)) =
      card {j \<in> crew n. in_wfi (worker s j)} + of_bool (in_wfi pc)"
    unfolding assms(3)
    using card_upd_in [of i "crew n" in_wfi pc "worker s"] card_upd_out [of i "crew n" in_wfi pc "worker s"]
      card_upd_same [of in_wfi pc "worker s" i "crew n"] assms(2)
    by (cases "in_wfi pc"; cases "in_wfi (worker s i)") simp_all
  have loop: "card {j \<in> crew n. worker s' j \<noteq> L_Enter} = card {j \<in> crew n. worker s j \<noteq> L_Enter} + of_bool (worker s i = L_Enter)"
    unfolding assms(3)
    using card_upd_in [of i "crew n" "\<lambda>pc. pc \<noteq> L_Enter" pc "worker s"]
      card_upd_same [of "\<lambda>pc. pc \<noteq> L_Enter" pc "worker s" i "crew n"] assms(2,4)
    by (cases "worker s i = L_Enter") simp_all
  have "workers_wfi (eu_p s') + of_bool (in_wfi (worker s i)) =
      of_nat (card {j \<in> crew n. in_wfi (worker s' j)}) + of_bool (in_wfi (worker s i))"
    using assms(1,6) arg_cong [OF wfi, where f = "of_nat :: nat \<Rightarrow> u32"] by (simp add: counts_ok_def)
  moreover have "workers_in_loop (eu_p s') = of_nat (card {j \<in> crew n. worker s' j \<noteq> L_Enter})"
    using assms(1,7) loop by (simp add: counts_ok_def)
  ultimately show ?thesis
    using assms(1,3-5) by (simp add: counts_ok_def)
qed

lemma counts_worker:
  assumes "counts_ok n s" "i \<in> crew n"
  shows "counts_ok n (eu_event_loop i s)"
proof (cases "worker s i = L_Done \<or> worker s i = L_Wfi1 \<and> \<not> mcip s i")
  case True
  then show ?thesis using assms(1) by (auto simp: eu_event_loop_def)
next
  case False
  have "\<exists>pc. worker (eu_event_loop i s) = (worker s)(i := pc) \<and> pc \<noteq> L_Enter \<and>
    master (eu_event_loop i s) = master s \<and>
    workers_wfi (eu_p (eu_event_loop i s)) + of_bool (in_wfi (worker s i)) = workers_wfi (eu_p s) + of_bool (in_wfi pc) \<and>
    workers_in_loop (eu_p (eu_event_loop i s)) = workers_in_loop (eu_p s) + of_bool (worker s i = L_Enter)"
    using False by (cases "worker s i") (auto simp: wk_defs)
  then show ?thesis using counts_move [OF assms] by blast
qed


text \<open>What a step of a worker leaves alone.\<close>

lemma worker_frame:
  "master (eu_event_loop i s) = master s" "dispatched (eu_event_loop i s) = dispatched s"
  "exit_flag (eu_p (eu_event_loop i s)) = exit_flag (eu_p s)"
  "e_nthreads (eu_p (eu_event_loop i s)) = e_nthreads (eu_p s)"
  "eu_job (eu_p (eu_event_loop i s)) = eu_job (eu_p s)"
  by (cases "worker s i"; simp add: wk_defs eu_job_def)+

lemma worker_frame_other:
  assumes "j \<noteq> i"
  shows "worker (eu_event_loop i s) j = worker s j" "mcip (eu_event_loop i s) j = mcip s j"
    "ran (eu_event_loop i s) j = ran s j" "at_rest (eu_event_loop i s) j = at_rest s j"
  using assms by (cases "worker s i"; simp add: wk_defs at_rest_def)+

lemma worker_fini_count:
  "e_fini_count (eu_p (eu_event_loop i s)) = e_fini_count (eu_p s) + of_bool (worker s i = L_Fini)"
  by (cases "worker s i") (simp_all add: wk_defs)

lemma exit_worker: "exit_ok s \<Longrightarrow> exit_ok (eu_event_loop i s)"
  by (simp add: exit_ok_def worker_frame)

text \<open>At rest, a worker stays at rest until it is woken.\<close>

lemma at_rest_worker: "at_rest s i \<Longrightarrow> at_rest (eu_event_loop i s) i"
  by (auto simp: at_rest_def wk_defs)

lemma workers_rest:
  assumes "\<forall>i\<in>crew n. at_rest s i"
  shows "\<forall>j\<in>crew n. at_rest (eu_event_loop i s) j"
  using assms at_rest_worker worker_frame_other(4) by metis

lemma exit_flag_phase: "exit_ok s \<Longrightarrow> phase_of (master s) \<notin> {Idle, Exiting} \<Longrightarrow> exit_flag (eu_p s) = 0"
  by (auto simp: exit_ok_def)

lemma nthreads_phase: "ran_ok n s \<Longrightarrow> phase_of (master s) \<in> {Boot, Idle, Exiting} \<Longrightarrow> e_nthreads (eu_p s) = 0"
  by (auto simp: ran_ok_def Let_def)

text \<open>The awake worker, one at a time.\<close>

definition awake_ok :: "eu_sys \<Rightarrow> nat \<Rightarrow> bool" where
  "awake_ok s i \<longleftrightarrow> (at_rest s i \<or> worker s i = L_Fini \<or>
       before_call (worker s i) \<and> (worker s i = L_Wfi1 \<longrightarrow> mcip s i)) \<and>
     (worker s i \<notin> {L_Wfi1, L_Wfi2} \<longrightarrow> \<not> mcip s i) \<and>
     (worker s i = L_Call \<longrightarrow> of_nat i < e_nthreads (eu_p s))"

lemma workers_ok_awake:
  "phase_of (master s) = Awake \<Longrightarrow> workers_ok n s \<longleftrightarrow>
     (\<forall>i\<in>crew n. awake_ok s i) \<and> e_fini_count (eu_p s) = of_nat (card {i \<in> crew n. at_rest s i})"
  by (auto simp: workers_ok_def awake_ok_def)

lemma awake_worker:
  assumes "awake_ok s i" "exit_flag (eu_p s) = 0"
  shows "awake_ok (eu_event_loop i s) i"
    and "at_rest (eu_event_loop i s) i \<longleftrightarrow> at_rest s i \<or> worker s i = L_Fini"
  using assms by (cases "worker s i"; auto simp: awake_ok_def before_call_def at_rest_def wk_defs)+

lemma awake_other:
  assumes "awake_ok s j" "j \<noteq> i"
  shows "awake_ok (eu_event_loop i s) j"
  using assms by (simp add: awake_ok_def worker_frame worker_frame_other)

lemma workers_worker:
  assumes inv: "eu_inv n s" and i: "i \<in> crew n"
  shows "workers_ok n (eu_event_loop i s)"
proof -
  have w: "workers_ok n s" and x: "exit_ok s" and r: "ran_ok n s" using inv by (simp_all add: eu_inv_def)
  show ?thesis
  proof (cases "phase_of (master s)")
    case Boot
    then have z: "exit_flag (eu_p s) = 0" "e_nthreads (eu_p s) = 0"
      using exit_flag_phase [OF x] nthreads_phase [OF r] by simp_all
    have "worker (eu_event_loop i s) i \<in> {L_Enter, L_Exit, L_Cmp, L_Fini} \<and> \<not> mcip (eu_event_loop i s) i \<or>
        at_rest (eu_event_loop i s) i"
      using w Boot i z by (auto simp: workers_ok_def at_rest_def wk_defs)
    then have "worker (eu_event_loop i s) j \<in> {L_Enter, L_Exit, L_Cmp, L_Fini} \<and> \<not> mcip (eu_event_loop i s) j \<or>
        at_rest (eu_event_loop i s) j" if "j \<in> crew n" for j
    proof (cases "j = i")
      case False
      show ?thesis
        unfolding worker_frame_other [OF False] using w Boot that by (simp add: workers_ok_def)
    qed simp
    then show ?thesis using Boot by (simp add: workers_ok_def worker_frame)
  next
    case Awake
    have a: "\<forall>j\<in>crew n. awake_ok s j" and f: "e_fini_count (eu_p s) = of_nat (card {i \<in> crew n. at_rest s i})"
      using w Awake by (simp_all add: workers_ok_awake)
    have z: "exit_flag (eu_p s) = 0" using exit_flag_phase [OF x] Awake by simp
    have a': "\<forall>j\<in>crew n. awake_ok (eu_event_loop i s) j"
      using a awake_worker(1) [OF _ z] awake_other by metis
    have rest: "{j \<in> crew n. at_rest (eu_event_loop i s) j} =
        (if worker s i = L_Fini then insert i {j \<in> crew n. at_rest s j} else {j \<in> crew n. at_rest s j})"
    proof -
      have "at_rest (eu_event_loop i s) j \<longleftrightarrow> at_rest s j \<or> j = i \<and> worker s i = L_Fini" for j
        using awake_worker(2) [of s i] a i z worker_frame_other(4) [of j i s] by (cases "j = i") auto
      then show ?thesis using i by auto
    qed
    have "i \<notin> {j \<in> crew n. at_rest s j}" if "worker s i = L_Fini" using that by (simp add: at_rest_def)
    then have "card {j \<in> crew n. at_rest (eu_event_loop i s) j} = card {j \<in> crew n. at_rest s j} + of_bool (worker s i = L_Fini)"
      using rest by simp
    then show ?thesis
      using a' f Awake by (simp add: workers_ok_awake worker_frame worker_fini_count)
  next
    case Exiting
    then have "e_nthreads (eu_p s) = 0" using nthreads_phase [OF r] by simp
    then have "worker (eu_event_loop i s) i \<noteq> L_Call"
      using w Exiting i by (cases "worker s i") (auto simp: workers_ok_def wk_defs)
    then show ?thesis
      using w Exiting worker_frame_other(1) [of _ i s] by (simp add: workers_ok_def worker_frame) metis
  qed (use w workers_rest in \<open>simp_all add: workers_ok_def worker_frame\<close>)
qed


text \<open>A worker is at the call of the function in the awake phase only.\<close>

lemma call_awake:
  assumes "workers_ok n s" "i \<in> crew n" "worker s i = L_Call"
  shows "phase_of (master s) = Awake"
  using assms by (cases "phase_of (master s)") (auto simp: workers_ok_def at_rest_def)

lemma ran_no_call: "worker s i \<noteq> L_Call \<Longrightarrow> ran (eu_event_loop i s) = ran s"
  by (cases "worker s i") (simp_all add: wk_defs)

lemma ran_worker_awake:
  assumes a: "awake_ok s i" and z: "exit_flag (eu_p s) = 0" and J: "J = J' @ [(eu_job (eu_p s), e_nthreads (eu_p s))]"
    and r: "ran s i = (if at_rest s i \<or> worker s i = L_Fini then jobs J i else jobs J' i)"
  shows "ran (eu_event_loop i s) i =
    (if at_rest (eu_event_loop i s) i \<or> worker (eu_event_loop i s) i = L_Fini then jobs J i else jobs J' i)"
  using a z r
  by (cases "worker s i")
    (auto simp: awake_ok_def before_call_def at_rest_def wk_defs J jobs_snoc eu_job_def)

lemma ran_worker:
  assumes inv: "eu_inv n s" and i: "i \<in> crew n"
  shows "ran_ok n (eu_event_loop i s)"
proof -
  have w: "workers_ok n s" and x: "exit_ok s" and r: "ran_ok n s" using inv by (simp_all add: eu_inv_def)
  have i0: "i \<noteq> 0" using i by (simp add: crew_def)
  show ?thesis
  proof (cases "phase_of (master s) = Awake")
    case True
    obtain J' where J: "dispatched s = J' @ [(eu_job (eu_p s), e_nthreads (eu_p s))]"
      and r0: "ran s 0 = (if own_done (master s) then jobs (dispatched s) 0 else jobs J' 0)"
      and rj: "\<And>j. j \<in> crew n \<Longrightarrow> ran s j = (if at_rest s j \<or> worker s j = L_Fini then jobs (dispatched s) j else jobs J' j)"
      using r True by (auto simp: ran_ok_awake)
    have z: "exit_flag (eu_p s) = 0" using exit_flag_phase [OF x] True by simp
    have "awake_ok s i" using w True i by (simp add: workers_ok_awake)
    from ran_worker_awake [OF this z J rj [OF i]] worker_frame_other [of _ i s] rj
    have "ran (eu_event_loop i s) j = (if at_rest (eu_event_loop i s) j \<or> worker (eu_event_loop i s) j = L_Fini
        then jobs (dispatched s) j else jobs J' j)" if "j \<in> crew n" for j
      using that by (cases "j = i") auto
    then show ?thesis
      using True J r0 worker_frame_other(3) [of 0 i s] i0
      by (auto simp: ran_ok_awake worker_frame)
  next
    case False
    then have "ran (eu_event_loop i s) = ran s" using call_awake [OF w i] ran_no_call by metis
    then show ?thesis
      using r False by (cases "phase_of (master s) = Armed") (simp_all add: ran_ok_armed ran_ok_other worker_frame)
  qed
qed

lemma master_ok_worker:
  assumes inv: "eu_inv n s" and i: "i \<in> crew n"
  shows "master_ok n (eu_event_loop i s) (master s)"
proof -
  have m: "master_ok n s (master s)" and w: "workers_ok n s" using inv by (simp_all add: eu_inv_def)
  have f: "e_fini_count (eu_p (eu_event_loop i s)) = e_fini_count (eu_p s)" if "phase_of (master s) \<in> {Idle, Armed}"
  proof -
    have "at_rest s i" using w that i by (auto simp: workers_ok_def)
    then show ?thesis by (auto simp: worker_fini_count at_rest_def)
  qed
  have c: "cont_ok (eu_p (eu_event_loop i s)) k = cont_ok (eu_p s) k" if "phase_of (master s) \<in> {Idle, Armed}" for k
    using f [OF that] by (cases k) (simp_all add: worker_frame)
  show ?thesis
  proof (cases "master s")
    case (K_Set k)
    have "\<forall>j\<in>crew n. worker s j = L_Wfi1 \<and> at_rest s j"
      using m w K_Set by (simp add: workers_ok_rest)
    then have "\<forall>j\<in>crew n. worker (eu_event_loop i s) j = L_Wfi1"
      using i worker_frame_other(1) [of _ i s] by (auto simp: at_rest_def wk_defs)
    then show ?thesis using m c K_Set by auto
  qed (use m c in \<open>auto simp: worker_frame\<close>)
qed

lemma eu_inv_worker: "eu_inv n s \<Longrightarrow> i \<in> crew n \<Longrightarrow> eu_inv n (eu_event_loop i s)"
  using counts_worker workers_worker exit_worker ran_worker master_ok_worker
  unfolding eu_inv_def worker_frame(1) by blast


section \<open>The master keeps it\<close>

lemma crew_card [simp]: "card (crew n) = n - 1"
  by (simp add: crew_def)

lemma in_loop_value:
  assumes "counts_ok n s" "master s \<noteq> B_Wait"
  shows "workers_in_loop (eu_p s) = of_nat (n - 1)"
proof -
  have "{i \<in> crew n. worker s i \<noteq> L_Enter} = crew n" using assms by (auto simp: counts_ok_def)
  then show ?thesis using assms by (simp add: counts_ok_def)
qed

lemma card_full:
  assumes "of_nat (card {i \<in> crew n. P i}) = (of_nat (n - 1) :: u32)" "n < 32"
  shows "\<forall>i\<in>crew n. P i"
proof -
  have le: "card {i \<in> crew n. P i} \<le> n - 1" using card_mono [of "crew n" "{i \<in> crew n. P i}"] by auto
  have "card {i \<in> crew n. P i} = n - 1"
    by (rule word_of_nat_inj [OF assms(1)]) (use le assms(2) in simp_all)
  then have "{i \<in> crew n. P i} = crew n" using card_subset_eq [of "crew n" "{i \<in> crew n. P i}"] by auto
  then show ?thesis by auto
qed

lemma all_in_wfi:
  assumes "counts_ok n s" "workers_wfi (eu_p s) = of_nat (n - 1)" "n < 32"
  shows "\<forall>i\<in>crew n. in_wfi (worker s i)"
proof (rule card_full [OF _ assms(3)])
  show "of_nat (card {i \<in> crew n. in_wfi (worker s i)}) = (of_nat (n - 1) :: u32)"
    using assms(1,2) unfolding counts_ok_def by metis
qed

lemma bit_wake_mask:
  assumes "n < 32" "1 \<le> i" "i < n"
  shows "bit (wake_mask n) i"
proof -
  have "push_bit n 1 - 1 = (mask n :: u32)" by (simp add: mask_eq_exp_minus_1 push_bit_eq_mult)
  then show ?thesis
    using assms by (simp add: wake_mask_def bit_and_iff bit_not_iff bit_mask_iff bit_1_iff)
qed

lemma ms_to_sel:
  "eu_p (ms_to pc s) = eu_p s" "mcip (ms_to pc s) = mcip s" "worker (ms_to pc s) = worker s"
  "master (ms_to pc s) = pc" "ran (ms_to pc s) = ran s" "dispatched (ms_to pc s) = dispatched s"
  "at_rest (ms_to pc s) = at_rest s"
  by (simp_all add: ms_to_def at_rest_def fun_eq_iff)

text \<open>A step of the master within a phase.\<close>

lemma master_move:
  assumes inv: "eu_inv n s" and ne: "master s \<noteq> B_Wait" "pc \<noteq> B_Wait"
    and ph: "phase_of pc = phase_of (master s)" "own_done pc = own_done (master s)"
    and x: "exit_ok (ms_to pc s)" and m: "master_ok n s pc"
  shows "eu_inv n (ms_to pc s)"
proof -
  have "at_rest (ms_to pc s) = at_rest s" by (simp add: at_rest_def ms_to_def fun_eq_iff)
  moreover have "master_ok n (ms_to pc s) pc = master_ok n s pc" by (cases pc) (simp_all add: ms_to_def)
  moreover have "counts_ok n (ms_to pc s)" using inv ne by (simp add: eu_inv_def counts_ok_def ms_to_def)
  moreover have "workers_ok n (ms_to pc s)"
    using inv ph(1) calculation(1)
    by (cases "phase_of (master s)") (simp_all add: eu_inv_def workers_ok_def ms_to_def)
  moreover have "ran_ok n (ms_to pc s)"
    using inv unfolding eu_inv_def ran_ok_def Let_def ms_to_sel ph by blast
  ultimately show ?thesis
    using x m by (simp add: eu_inv_def ms_to_def)
qed

lemma exit_flag_zero: "exit_ok s \<Longrightarrow> phase_of (master s) \<noteq> Exiting \<Longrightarrow>
  (\<And>k. master s \<noteq> K_Scratch k \<and> master s \<noteq> K_Set k) \<Longrightarrow> (\<And>sc k. master s \<noteq> K_Wait sc k) \<Longrightarrow> exit_flag (eu_p s) = 0"
  by (auto simp: exit_ok_def)

lemma exit_ok_move: "exit_flag (eu_p s) = 0 \<Longrightarrow> exit_ok (ms_to pc s)"
  by (simp add: exit_ok_def ms_to_def)

lemma eu_inv_call:
  assumes "eu_inv n s" "master s = M_Out"
  shows "eu_inv n (parallelRegion j nt s)" "eu_inv n (ms_to X_Guard s)"
proof -
  have "exit_flag (eu_p s) = 0" using assms exit_flag_zero [of s] by (simp add: eu_inv_def)
  then show "eu_inv n (parallelRegion j nt s)" "eu_inv n (ms_to X_Guard s)"
    unfolding parallelRegion_def using assms by (auto intro!: master_move exit_ok_move simp: own_done_def)
qed

text \<open>The steps that change the phase.\<close>

lemma boot_step:
  assumes "eu_inv n s" "master s = B_Wait" "1 \<le> n" "n < 32"
  shows "eu_inv n (snrt_omp_bootstrap n s)"
proof (cases "workers_wfi (eu_p s) = of_nat n - 1")
  case True
  have c: "counts_ok n s" and w: "workers_ok n s" and r: "ran_ok n s" and x: "exit_ok s"
    using assms(1) by (simp_all add: eu_inv_def)
  have "workers_wfi (eu_p s) = of_nat (n - 1)" using True assms(3) by (simp add: of_nat_diff)
  then have all: "\<forall>i\<in>crew n. in_wfi (worker s i)" by (rule all_in_wfi [OF c _ assms(4)])
  then have rest: "\<forall>i\<in>crew n. at_rest s i" using w assms(2) by (fastforce simp: workers_ok_def)
  have "worker s i \<noteq> L_Enter" if "i \<in> crew n" for i using all that by (metis in_wfi_simps(4))
  then have "counts_ok n (ms_to M_Out s)" using c by (simp add: counts_ok_def ms_to_def)
  moreover have "workers_ok n (ms_to M_Out s)" using rest by (simp add: workers_ok_rest ms_to_def at_rest_def)
  moreover have "ran_ok n (ms_to M_Out s)" using r assms(2) by (simp add: ran_ok_other ms_to_def)
  moreover have "exit_ok (ms_to M_Out s)" using x assms(2) by (simp add: exit_ok_def ms_to_def)
  ultimately show ?thesis using True by (simp add: snrt_omp_bootstrap_def eu_inv_def ms_to_def)
qed (use assms in \<open>simp add: snrt_omp_bootstrap_def\<close>)


lemma at_rest_wfi:
  assumes "\<forall>i\<in>crew n. at_rest s i" "counts_ok n s" "workers_wfi (eu_p s) = of_nat (n - 1)" "n < 32"
  shows "\<forall>i\<in>crew n. worker s i = L_Wfi1"
  using all_in_wfi [OF assms(2-4)] assms(1) by (metis at_rest_def in_wfi_simps(9))

lemma eu_invD:
  assumes "eu_inv n s"
  shows "counts_ok n s" "workers_ok n s" "exit_ok s" "ran_ok n s" "master_ok n s (master s)"
  using assms by (simp_all add: eu_inv_def)

lemma below_crew: "1 \<le> n \<Longrightarrow> i < n \<longleftrightarrow> i = 0 \<or> i \<in> crew n"
  by (auto simp: crew_def)

text \<open>Steps of the master that keep the workers and their counters.\<close>

lemma counts_keep:
  assumes "counts_ok n s" "worker s' = worker s" "workers_wfi (eu_p s') = workers_wfi (eu_p s)"
    "workers_in_loop (eu_p s') = workers_in_loop (eu_p s)" "master s \<noteq> B_Wait"
  shows "counts_ok n s'"
  using assms by (simp add: counts_ok_def)

lemma exit_keep:
  assumes "exit_ok s" "exit_flag (eu_p s') = exit_flag (eu_p s)" "phase_of (master s) \<notin> {Idle, Exiting}"
  shows "exit_ok s'"
  using exit_flag_phase [OF assms(1,3)] assms(2) by (simp add: exit_ok_def)

lemma rest_keep:
  assumes "workers_ok n s" "worker s' = worker s" "mcip s' = mcip s"
    "phase_of (master s) \<in> {Idle, Armed, Collected}" "phase_of (master s') \<in> {Idle, Armed, Collected}"
  shows "workers_ok n s'"
  using assms by (simp add: workers_ok_rest at_rest_def)

lemma push_step:
  assumes inv: "eu_inv n s" and p: "master s = P_Push j nt" and n: "1 \<le> n"
    and s': "s' = eu_dispatch_push (master s) s"
  shows "eu_inv n s'"
proof -
  have f: "master s' = R_Read" "worker s' = worker s" "mcip s' = mcip s" "ran s' = ran s"
    "dispatched s' = dispatched s @ [(j, nt)]" "eu_job (eu_p s') = j" "e_nthreads (eu_p s') = nt"
    "workers_wfi (eu_p s') = workers_wfi (eu_p s)" "workers_in_loop (eu_p s') = workers_in_loop (eu_p s)"
    "exit_flag (eu_p s') = exit_flag (eu_p s)"
    unfolding s' p by (simp_all add: ms_to_def eu_upd_def eu_job_def)
  have "exit_flag (eu_p s) = 0" using exit_flag_zero [OF eu_invD(3) [OF inv]] p by simp
  then have "exit_ok s'" using f by (simp add: exit_ok_def)
  moreover have "ran_ok n s'"
    using eu_invD(4) [OF inv] p f n by (simp add: ran_ok_armed ran_ok_other below_crew)
  moreover have "workers_ok n s'" using eu_invD(2) [OF inv] f p by (simp add: rest_keep)
  moreover have "counts_ok n s'" using eu_invD(1) [OF inv] f p by (simp add: counts_keep)
  ultimately show ?thesis using f by (simp add: eu_inv_def)
qed

lemma read_step:
  assumes inv: "eu_inv n s" and p: "master s = R_Read" and n: "1 \<le> n"
  shows "eu_inv n (eu_run_empty (master s) s)"
proof (cases "e_nthreads (eu_p s) = 0")
  case True
  define s' where "s' = ms_to M_Out s"
  note f = ms_to_sel [of M_Out s, folded s'_def]
  have "exit_ok s'" by (rule exit_keep [OF eu_invD(3) [OF inv]]) (simp_all add: p f)
  moreover have "ran_ok n s'"
    using eu_invD(4) [OF inv] p f n True by (auto simp: ran_ok_armed ran_ok_other below_crew jobs_snoc)
  moreover have "workers_ok n s'" using eu_invD(2) [OF inv] f p by (simp add: rest_keep)
  moreover have "counts_ok n s'" using eu_invD(1) [OF inv] f p by (simp add: counts_keep)
  ultimately have "eu_inv n s'" using f by (simp add: eu_inv_def)
  then show ?thesis using True p by (simp add: s'_def)
next
  case False
  have "exit_ok (ms_to (R_Zero (e_nthreads (eu_p s))) s)"
    by (rule exit_keep [OF eu_invD(3) [OF inv]]) (simp_all add: p ms_to_sel)
  then have "eu_inv n (ms_to (R_Zero (e_nthreads (eu_p s))) s)"
    using False p by (intro master_move [OF inv]) (simp_all add: own_done_def)
  then show ?thesis using False p by simp
qed

lemma zero_step:
  assumes inv: "eu_inv n s" and p: "master s = R_Zero sc" and s': "s' = eu_run_empty (master s) s"
  shows "eu_inv n s'"
proof -
  let ?pc = "if sc > 1 then K_Scratch (R_Own sc) else R_Own sc"
  have m: "sc = e_nthreads (eu_p s)" "sc \<noteq> 0" using eu_invD(5) [OF inv] unfolding p by auto
  have f: "master s' = ?pc" "worker s' = worker s" "mcip s' = mcip s" "ran s' = ran s"
    "dispatched s' = dispatched s" "eu_job (eu_p s') = eu_job (eu_p s)" "e_nthreads (eu_p s') = e_nthreads (eu_p s)"
    "workers_wfi (eu_p s') = workers_wfi (eu_p s)" "workers_in_loop (eu_p s') = workers_in_loop (eu_p s)"
    "exit_flag (eu_p s') = exit_flag (eu_p s)" "e_fini_count (eu_p s') = 0"
    unfolding s' p by (simp_all add: ms_to_def eu_upd_def eu_job_def)
  have ph: "phase_of (master s') = Armed" by (simp add: f)
  have "exit_ok s'" by (rule exit_keep [OF eu_invD(3) [OF inv]]) (simp_all add: p f)
  moreover have "workers_ok n s'" using eu_invD(2) [OF inv] f p ph by (simp add: rest_keep)
  moreover have "counts_ok n s'" using eu_invD(1) [OF inv] f p by (simp add: counts_keep)
  moreover have "ran_ok n s'" using eu_invD(4) [OF inv] p ph f by (simp add: ran_ok_armed)
  moreover have "master_ok n s' (master s')" unfolding f(1) using f m by simp
  ultimately show ?thesis by (simp add: eu_inv_def)
qed


lemma own_step:
  assumes inv: "eu_inv n s" and p: "master s = R_Own sc" and n: "1 \<le> n" "n < 32"
    and s': "s' = eu_run_empty (master s) s"
  shows "eu_inv n s'"
proof -
  have m: "e_nthreads (eu_p s) = sc" "sc \<noteq> 0" using eu_invD(5) [OF inv] unfolding p by auto
  have f: "master s' = (if sc > 1 then R_Loop else R_Clear)" "worker s' = worker s" "mcip s' = mcip s"
    "ran s' = (ran s)(0 := ran s 0 @ [eu_job (eu_p s)])" "dispatched s' = dispatched s" "eu_p s' = eu_p s"
    unfolding s' p using m by (simp_all add: ms_to_def call_job_def eu_job_def word_gt_0)
  have r: "at_rest s' = at_rest s" by (simp add: at_rest_def f fun_eq_iff)
  have "exit_ok s'" by (rule exit_keep [OF eu_invD(3) [OF inv]]) (simp_all add: p f)
  moreover have "counts_ok n s'" using eu_invD(1) [OF inv] f p by (simp add: counts_keep)
  moreover have "workers_ok n s' \<and> ran_ok n s'"
  proof (cases "sc > 1")
    case True
    then have ph: "phase_of (master s) = Awake" "phase_of (master s') = Awake" "own_done (master s')" "\<not> own_done (master s)"
      using p f by (simp_all add: own_done_def)
    have "workers_ok n s'"
      using eu_invD(2) [OF inv] ph f r by (simp add: workers_ok_awake awake_ok_def)
    moreover have "ran_ok n s'"
      using eu_invD(4) [OF inv] ph f r m
      by (auto simp: ran_ok_awake jobs_snoc crew_def word_gt_0)
    ultimately show ?thesis by simp
  next
    case False
    have sc: "sc = 1"
    proof (rule unsigned_word_eqI)
      have "0 < unat sc" using m by (simp add: unat_gt_0)
      then show "unat sc = unat (1 :: u32)" using False by (simp add: word_less_nat_alt)
    qed
    then have ph: "phase_of (master s) = Armed" "phase_of (master s') = Collected" using p f by simp_all
    have lt: "\<not> of_nat i < (1 :: u32)" if "i \<in> crew n" for i
    proof -
      have "unat (of_nat i :: u32) = i" using that n by (intro unat_of_nat_u32) (auto simp: crew_def)
      then show ?thesis using that by (simp add: word_less_nat_alt crew_def)
    qed
    have "workers_ok n s'" using eu_invD(2) [OF inv] f ph by (simp add: rest_keep)
    moreover have "ran_ok n s'"
    proof -
      obtain J' where J: "dispatched s = J' @ [(eu_job (eu_p s), e_nthreads (eu_p s))]"
        and r0: "ran s 0 = jobs J' 0" and rj: "\<forall>i\<in>crew n. ran s i = jobs J' i"
        using eu_invD(4) [OF inv] ph(1) by (auto simp: ran_ok_armed)
      have "ran s' i = jobs (dispatched s') i" if "i < n" for i
      proof (cases "i = 0")
        case True
        then show ?thesis using r0 J m sc by (simp add: f jobs_snoc)
      next
        case False
        then have "i \<in> crew n" using that by (simp add: crew_def)
        then show ?thesis using rj J m sc lt False by (simp add: f jobs_snoc)
      qed
      then show ?thesis using ph by (simp add: ran_ok_other)
    qed
    ultimately show ?thesis by simp
  qed
  moreover have "master_ok n s' (master s')" by (simp add: f)
  ultimately show ?thesis by (simp add: eu_inv_def)
qed

lemma wait_step:
  assumes inv: "eu_inv n s" and p: "master s = R_Wait sc" and n: "1 \<le> n" "n < 32"
    and fin: "e_fini_count (eu_p s) = sc"
  shows "eu_inv n (ms_to R_Clear s)"
proof -
  define s' where "s' = ms_to R_Clear s"
  note f = ms_to_sel [of R_Clear s, folded s'_def]
  have sc: "sc = of_nat (n - 1)" using eu_invD(5) [OF inv] p by simp
  have ph: "phase_of (master s) = Awake" "own_done (master s)" "phase_of (master s') = Collected"
    using p f by (simp_all add: own_done_def)
  have "e_fini_count (eu_p s) = of_nat (card {i \<in> crew n. at_rest s i})"
    using eu_invD(2) [OF inv] ph by (simp add: workers_ok_awake)
  then have rest: "\<forall>i\<in>crew n. at_rest s i"
    using card_full [OF _ n(2), of "at_rest s"] fin sc by metis
  have "exit_ok s'" by (rule exit_keep [OF eu_invD(3) [OF inv]]) (simp_all add: p f)
  moreover have "counts_ok n s'" using eu_invD(1) [OF inv] f p by (simp add: counts_keep)
  moreover have "workers_ok n s'" using rest f ph by (simp add: workers_ok_rest)
  moreover have "ran_ok n s'"
    using eu_invD(4) [OF inv] ph f rest n by (auto simp: ran_ok_awake ran_ok_other below_crew)
  ultimately show ?thesis using f by (simp add: eu_inv_def s'_def [symmetric])
qed

lemma clear_step:
  assumes inv: "eu_inv n s" and p: "master s = R_Clear" and s': "s' = eu_run_empty (master s) s"
  shows "eu_inv n s'"
proof -
  have f: "master s' = M_Out" "worker s' = worker s" "mcip s' = mcip s" "ran s' = ran s"
    "dispatched s' = dispatched s" "e_nthreads (eu_p s') = 0"
    "workers_wfi (eu_p s') = workers_wfi (eu_p s)" "workers_in_loop (eu_p s') = workers_in_loop (eu_p s)"
    "exit_flag (eu_p s') = exit_flag (eu_p s)"
    unfolding s' p by (simp_all add: ms_to_def eu_upd_def)
  have "exit_ok s'" by (rule exit_keep [OF eu_invD(3) [OF inv]]) (simp_all add: p f)
  moreover have "counts_ok n s'" using eu_invD(1) [OF inv] f p by (simp add: counts_keep)
  moreover have "workers_ok n s'" using eu_invD(2) [OF inv] f p by (simp add: rest_keep)
  moreover have "ran_ok n s'" using eu_invD(4) [OF inv] p f by (simp add: ran_ok_other)
  ultimately show ?thesis using f by (simp add: eu_inv_def)
qed


lemma wake_step:
  assumes inv: "eu_inv n s" and p: "master s = K_Set k" and n: "1 \<le> n" "n < 32"
    and s': "s' = wake_workers n (master s) s"
  shows "eu_inv n s'"
proof -
  have m: "cont_ok (eu_p s) k" "\<forall>i\<in>crew n. worker s i = L_Wfi1" using eu_invD(5) [OF inv] unfolding p by auto
  have f: "master s' = k" "worker s' = worker s" "ran s' = ran s" "dispatched s' = dispatched s" "eu_p s' = eu_p s"
    "\<forall>i\<in>crew n. mcip s' i"
    unfolding s' p using bit_wake_mask [OF n(2)] by (simp_all add: ms_to_def crew_def)
  have c: "counts_ok n s'" using eu_invD(1) [OF inv] f p by (simp add: counts_keep)
  show ?thesis
  proof (cases k)
    case (R_Own sc)
    have k: "sc > 1" "sc = e_nthreads (eu_p s)" "e_fini_count (eu_p s) = 0" using m(1) R_Own by auto
    have ph: "phase_of (master s) = Armed" "phase_of (master s') = Awake" "\<not> own_done (master s')"
      using p R_Own f k by (simp_all add: own_done_def)
    have no_rest: "\<not> at_rest s' i" if "i \<in> crew n" for i using f that by (simp add: at_rest_def)
    then have empty: "{i \<in> crew n. at_rest s' i} = {}" by auto
    have "exit_ok s'" by (rule exit_keep [OF eu_invD(3) [OF inv]]) (simp_all add: p f R_Own)
    moreover have "workers_ok n s'"
      unfolding workers_ok_awake [OF ph(2)] empty using m(2) f k by (simp add: awake_ok_def before_call_def)
    moreover have "ran_ok n s'"
      using eu_invD(4) [OF inv] ph f no_rest m(2) by (simp add: ran_ok_armed ran_ok_awake)
    moreover have "master_ok n s' (master s')" using R_Own f k by auto
    ultimately show ?thesis using c by (simp add: eu_inv_def)
  next
    case X_Done
    have "workers_ok n s'" using m(2) f X_Done by (simp add: workers_ok_def)
    moreover have "ran_ok n s'" using eu_invD(4) [OF inv] p f X_Done by (simp add: ran_ok_other)
    moreover have "exit_ok s'" using f X_Done by (simp add: exit_ok_def)
    ultimately show ?thesis using c f X_Done by (simp add: eu_inv_def)
  qed (use m in simp_all)
qed

lemma flag_step:
  assumes inv: "eu_inv n s" and p: "master s = X_Flag" and s': "s' = eu_exit (master s) s"
  shows "eu_inv n s'"
proof -
  have f: "master s' = K_Scratch X_Done" "worker s' = worker s" "mcip s' = mcip s" "ran s' = ran s"
    "dispatched s' = dispatched s" "e_nthreads (eu_p s') = e_nthreads (eu_p s)"
    "workers_wfi (eu_p s') = workers_wfi (eu_p s)" "workers_in_loop (eu_p s') = workers_in_loop (eu_p s)"
    unfolding s' p by (simp_all add: ms_to_def eu_upd_def)
  have "exit_ok s'" by (simp add: exit_ok_def f)
  moreover have "counts_ok n s'" using eu_invD(1) [OF inv] f p by (simp add: counts_keep)
  moreover have "workers_ok n s'" using eu_invD(2) [OF inv] f p by (simp add: rest_keep)
  moreover have "ran_ok n s'" using eu_invD(4) [OF inv] p f by (simp add: ran_ok_other)
  ultimately show ?thesis using f by (simp add: eu_inv_def)
qed

lemma eu_inv_master:
  assumes inv: "eu_inv n s" and n: "1 \<le> n" "n < 32"
  shows "eu_inv n (master_step n s)"
proof -
  note loop = in_loop_value [OF eu_invD(1) [OF inv]]
  have z: "exit_flag (eu_p s) = 0" if "phase_of (master s) \<noteq> Exiting"
    "\<And>k. master s \<noteq> K_Scratch k \<and> master s \<noteq> K_Set k" "\<And>sc k. master s \<noteq> K_Wait sc k"
    using exit_flag_zero [OF eu_invD(3) [OF inv]] that by simp
  note mv = master_move [OF inv] exit_ok_move
  show ?thesis
  proof (cases "master s")
    case B_Wait
    then show ?thesis using boot_step [OF inv] n by (simp add: master_step_def)
  next
    case (P_Push j nt)
    then show ?thesis using push_step [OF inv _ n(1) refl] by (simp add: master_step_def)
  next
    case (P_Scratch j nt)
    then show ?thesis using mv z by (auto simp: master_step_def own_done_def)
  next
    case (P_Wait sc j nt)
    then show ?thesis using mv z inv by (auto simp: master_step_def own_done_def)
  next
    case R_Read
    then show ?thesis using read_step [OF inv] n by (simp add: master_step_def)
  next
    case (R_Zero sc)
    then show ?thesis using zero_step [OF inv _ refl] by (simp add: master_step_def)
  next
    case (R_Own sc)
    then show ?thesis using own_step [OF inv _ n refl] by (simp add: master_step_def)
  next
    case R_Loop
    then show ?thesis using mv z loop by (auto simp: master_step_def own_done_def)
  next
    case (R_Wait sc)
    then show ?thesis using wait_step [OF inv _ n] inv by (auto simp: master_step_def)
  next
    case R_Clear
    then show ?thesis using clear_step [OF inv _ refl] by (simp add: master_step_def)
  next
    case (K_Scratch k)
    have "exit_ok (ms_to (K_Wait (workers_in_loop (eu_p s)) k) s)"
      using eu_invD(3) [OF inv] K_Scratch by (auto simp: exit_ok_def ms_to_def)
    then show ?thesis
      using master_move [OF inv] eu_invD(5) [OF inv] loop K_Scratch by (auto simp: master_step_def own_done_def)
  next
    case (K_Wait sc k)
    have m: "cont_ok (eu_p s) k" "sc = of_nat (n - 1)" using eu_invD(5) [OF inv] unfolding K_Wait by auto
    have x: "exit_ok (ms_to (K_Set k) s)"
      using eu_invD(3) [OF inv] K_Wait by (auto simp: exit_ok_def ms_to_def)
    have "\<forall>i\<in>crew n. at_rest s i" using eu_invD(2) [OF inv] K_Wait by (simp add: workers_ok_rest)
    then have "workers_wfi (eu_p s) = sc \<Longrightarrow> \<forall>i\<in>crew n. worker s i = L_Wfi1"
      using at_rest_wfi [OF _ eu_invD(1) [OF inv] _ n(2)] m by blast
    then show ?thesis
      using master_move [OF inv] inv x m K_Wait by (auto simp: master_step_def own_done_def)
  next
    case (K_Set k)
    then show ?thesis using wake_step [OF inv _ n refl] by (simp add: master_step_def)
  next
    case X_Flag
    then show ?thesis using flag_step [OF inv _ refl] by (simp add: master_step_def)
  next
    case X_Guard
    then show ?thesis using mv z by (auto simp: master_step_def own_done_def)
  next
    case X_Run
    then show ?thesis using mv z inv by (auto simp: master_step_def own_done_def)
  next
    case X_Scratch
    then show ?thesis using mv z by (auto simp: master_step_def own_done_def)
  next
    case (X_Wait sc)
    then show ?thesis using mv z inv by (auto simp: master_step_def own_done_def)
  qed (use inv in \<open>simp_all add: master_step_def\<close>)
qed

lemma eu_reach_inv:
  assumes "eu_reach n s" "1 \<le> n" "n < 32"
  shows "eu_inv n s"
  using assms
proof (induction rule: eu_reach.induct)
  case (eu_reach_worker s i)
  then show ?case by (intro eu_inv_worker) (simp_all add: crew_def)
qed (simp_all add: eu_inv_init eu_inv_master eu_inv_call)


section \<open>Properties\<close>


text \<open>
  The event structure is stable while it is used: whenever a worker is about to call the
  function of the event, in every interleaving, the function, its arguments and the number of
  threads in the structure are those of the last dispatch, and the worker is one of its threads.
\<close>

theorem eu_call_current:
  assumes "eu_reach n s" "1 \<le> n" "n < 32" "1 \<le> i" "i < n" "worker s i = L_Call"
  shows "dispatched s \<noteq> [] \<and> of_nat i < e_nthreads (eu_p s) \<and>
    last (dispatched s) = ((e_fn (eu_p s), e_argc (eu_p s), e_data (eu_p s)), e_nthreads (eu_p s))"
proof -
  have inv: "eu_inv n s" by (rule eu_reach_inv [OF assms(1-3)])
  have i: "i \<in> crew n" using assms by (simp add: crew_def)
  have ph: "phase_of (master s) = Awake" by (rule call_awake [OF eu_invD(2) [OF inv] i assms(6)])
  have "awake_ok s i" using eu_invD(2) [OF inv] ph i by (simp add: workers_ok_awake)
  moreover obtain J' where "dispatched s = J' @ [(eu_job (eu_p s), e_nthreads (eu_p s))]"
    using eu_invD(4) [OF inv] ph by (auto simp: ran_ok_awake)
  ultimately show ?thesis using assms(6) by (auto simp: awake_ok_def eu_job_def)
qed

section \<open>Instances\<close>

text \<open>A run of two workers: the boot, then one region on all three cores, with its steps.\<close>

datatype eu_ev = EMaster | EWorker nat | EFork job u32

fun eu_step :: "eu_ev \<Rightarrow> eu_sys \<Rightarrow> eu_sys" where
  "eu_step EMaster s = master_step 3 s"
| "eu_step (EWorker i) s = (if i = 1 \<or> i = 2 then eu_event_loop i s else s)"
| "eu_step (EFork j nt) s = (if master s = M_Out then parallelRegion j nt s else s)"

definition eu_run :: "eu_ev list \<Rightarrow> eu_sys \<Rightarrow> eu_sys" where
  "eu_run = fold eu_step"

lemma eu_reach_run: "eu_reach 3 s \<Longrightarrow> eu_reach 3 (eu_run es s)"
proof (induction es arbitrary: s)
  case (Cons e es)
  have "eu_reach 3 (eu_step e s)"
    using Cons.prems by (cases e) (auto intro: eu_reach_master eu_reach_worker eu_reach_call)
  then show ?case using Cons.IH by (simp add: eu_run_def)
qed (simp add: eu_run_def)

definition region_run :: "eu_ev list" where
  "region_run = replicate 5 (EWorker 1) @ replicate 6 (EWorker 2) @ [EMaster, EFork (100, 2, 300) 3] @
     replicate 8 EMaster @ replicate 5 (EWorker 1)"


lemma in_region_values:
  "(let s = eu_run region_run eu_init_state
    in (worker s 1, e_fn (eu_p s), e_argc (eu_p s), e_data (eu_p s), e_nthreads (eu_p s))) = (L_Call, 100, 2, 300, 3)"
  by code_simp



theorem eu_call_current_witness:
  "(let s = eu_run region_run eu_init_state
    in worker s 1 = L_Call \<and> last (dispatched s) = ((100, 2, 300), 3))"
  using eu_call_current [OF eu_reach_run [OF eu_reach_init, of region_run], of 1] in_region_values
  by (simp add: Let_def)

end
