(* ===== verification/Prng.thy ===== *)
theory Prng
  imports Snrt_Prelude
begin

text \<open>
  The pseudo-random number generators of \<open>sw/kernels/misc/prng\<close>: the linear congruential
  generator (\<open>lcg.h\<close>) and its leapfrog split over several generators, SplitMix64
  (\<open>splitmix64.h\<close>) and xoshiro128+ with its jump function (\<open>xoshiro128p.h\<close>). A generator
  is a record; an operation that updates it through a pointer returns the updated record.
  The lemmas show that the leapfrog generators interleave to the sequence of the single
  generator, and that the jump function is \<open>2 ^ 64\<close> calls of the next function: the state
  update is linear over GF(2), so that a sum of iterated states is a polynomial in the
  update, evaluated here by kernel computation.
\<close>

section \<open>Linear congruential generator\<close>

definition LCG_A :: u32 where "LCG_A = 1664525"
definition LCG_C :: u32 where "LCG_C = 1013904223"

record lcg_t =
  lcg_state :: u32
  lcg_A :: u32
  lcg_C :: u32

definition lcg_init_default :: "u32 \<Rightarrow> lcg_t" where
  "lcg_init_default seed = \<lparr>lcg_state = seed, lcg_A = LCG_A, lcg_C = LCG_C\<rparr>"

definition lcg_init :: "u32 \<Rightarrow> u32 \<Rightarrow> u32 \<Rightarrow> lcg_t" where
  "lcg_init seed A C = \<lparr>lcg_state = seed, lcg_A = A, lcg_C = C\<rparr>"

definition lcg_next :: "lcg_t \<Rightarrow> u32 \<times> lcg_t" where
  "lcg_next lcg =
     (let lcg' = lcg\<lparr>lcg_state := lcg_state lcg * lcg_A lcg + lcg_C lcg\<rparr>
      in (lcg_state lcg', lcg'))"

text \<open>The two loops of \<open>lcg_init_n\<close>; the array \<open>lcg\<close> of the caller is a list.\<close>

fun leap_params :: "u32 \<Rightarrow> nat \<Rightarrow> u32 \<times> u32 \<Rightarrow> u32 \<times> u32" where
  "leap_params A 0 (Ap, Cp) = (Ap, Cp)"
| "leap_params A (Suc p) (Ap, Cp) = leap_params A p (Ap * A, Cp + Ap)"

fun leap_seeds :: "u32 \<times> u32 \<Rightarrow> nat \<Rightarrow> nat \<Rightarrow> lcg_t \<Rightarrow> lcg_t list \<Rightarrow> lcg_t list" where
  "leap_seeds AC i 0 lcg0 lcg = lcg"
| "leap_seeds AC i (Suc k) lcg0 lcg =
     (let (x, lcg0') = lcg_next lcg0
      in leap_seeds AC (Suc i) k lcg0' (lcg[i := lcg_init x (fst AC) (snd AC)]))"

definition lcg_init_n :: "u32 \<Rightarrow> u32 \<Rightarrow> u32 \<Rightarrow> u32 \<Rightarrow> lcg_t list \<Rightarrow> lcg_t list" where
  "lcg_init_n seed A C n lcg =
     (let (Ap, Cp) = leap_params A (unat n) (1, 0); Cp = Cp * C
      in leap_seeds (Ap, Cp) 0 (unat n) (lcg_init seed A C) lcg)"

definition lcg_init_n_default :: "u32 \<Rightarrow> u32 \<Rightarrow> lcg_t list \<Rightarrow> lcg_t list" where
  "lcg_init_n_default seed n lcg = lcg_init_n seed LCG_A LCG_C n lcg"

section \<open>SplitMix64\<close>

record splitmix64_t =
  sp64_state :: u64

definition splitmix64_init :: "u64 \<Rightarrow> splitmix64_t" where
  "splitmix64_init seed = \<lparr>sp64_state = seed\<rparr>"

definition splitmix64_next :: "splitmix64_t \<Rightarrow> u64 \<times> splitmix64_t" where
  "splitmix64_next sp64 =
     (let sp64' = sp64\<lparr>sp64_state := sp64_state sp64 + 0x9e3779b97f4a7c15\<rparr>;
          z = sp64_state sp64';
          z = (z XOR drop_bit 30 z) * 0xbf58476d1ce4e5b9;
          z = (z XOR drop_bit 27 z) * 0x94d049bb133111eb
      in (z XOR drop_bit 31 z, sp64'))"

section \<open>xoshiro128+\<close>

text \<open>The state array \<open>s[4]\<close> is a record of its four words.\<close>

record xoshiro128p_t =
  xs0 :: u32
  xs1 :: u32
  xs2 :: u32
  xs3 :: u32

definition xoshiro128p_init :: "u32 \<Rightarrow> xoshiro128p_t" where
  "xoshiro128p_init seed =
     (let sp64 = splitmix64_init (ucast seed);
          (a, sp64) = splitmix64_next sp64;
          (b, sp64) = splitmix64_next sp64;
          (c, sp64) = splitmix64_next sp64;
          (d, sp64) = splitmix64_next sp64
      in \<lparr>xs0 = ucast a, xs1 = ucast b, xs2 = ucast c, xs3 = ucast d\<rparr>)"

definition xoshiro128p_copy :: "xoshiro128p_t \<Rightarrow> xoshiro128p_t \<Rightarrow> xoshiro128p_t" where
  "xoshiro128p_copy target source =
     target\<lparr>xs0 := xs0 source, xs1 := xs1 source, xs2 := xs2 source, xs3 := xs3 source\<rparr>"

definition xoshiro128p_next :: "xoshiro128p_t \<Rightarrow> u32 \<times> xoshiro128p_t" where
  "xoshiro128p_next x =
     (let result = xs0 x + xs3 x;
          t = push_bit 9 (xs1 x);
          x = x\<lparr>xs2 := xs2 x XOR xs0 x\<rparr>;
          x = x\<lparr>xs3 := xs3 x XOR xs1 x\<rparr>;
          x = x\<lparr>xs1 := xs1 x XOR xs2 x\<rparr>;
          x = x\<lparr>xs0 := xs0 x XOR xs3 x\<rparr>;
          x = x\<lparr>xs2 := xs2 x XOR t\<rparr>;
          x = x\<lparr>xs3 := push_bit 11 (xs3 x) OR drop_bit (32 - 11) (xs3 x)\<rparr>
      in (result, x))"

definition JUMP :: "u32 list" where
  "JUMP = [0x8764000b, 0xf542d2d3, 0x6fa035c3, 0x77f2db5b]"

text \<open>
  One iteration of the inner loop of the jump function for bit \<open>b\<close> of the word \<open>w\<close>: the
  accumulators are updated when the bit is set, the generator always advances.
\<close>

definition jump_step :: "u32 \<Rightarrow> nat \<Rightarrow> xoshiro128p_t \<times> xoshiro128p_t \<Rightarrow> xoshiro128p_t \<times> xoshiro128p_t" where
  "jump_step w b = (\<lambda>(acc, x).
     (if w AND push_bit b 1 \<noteq> 0
      then \<lparr>xs0 = xs0 acc XOR xs0 x, xs1 = xs1 acc XOR xs1 x,
            xs2 = xs2 acc XOR xs2 x, xs3 = xs3 acc XOR xs3 x\<rparr>
      else acc,
      snd (xoshiro128p_next x)))"

definition xoshiro128p_jump :: "xoshiro128p_t \<Rightarrow> xoshiro128p_t" where
  "xoshiro128p_jump x =
     (let acc = \<lparr>xs0 = 0, xs1 = 0, xs2 = 0, xs3 = 0\<rparr>;
          (acc, x) = fold (\<lambda>i. fold (jump_step (JUMP ! i)) [0..<32]) [0..<length JUMP] (acc, x)
      in x\<lparr>xs0 := xs0 acc, xs1 := xs1 acc, xs2 := xs2 acc, xs3 := xs3 acc\<rparr>)"

text \<open>
  The loop of \<open>xoshiro128p_init_n\<close> over the generators \<open>1 \<le> i < n\<close>; \<open>i\<close> is converted to
  unsigned in the comparison with \<open>n\<close>.
\<close>

definition init_n_body :: "nat \<Rightarrow> xoshiro128p_t list \<Rightarrow> xoshiro128p_t list" where
  "init_n_body i xs =
     (let xs = xs[i := xoshiro128p_copy (xs ! i) (xs ! (i - 1))]
      in xs[i := xoshiro128p_jump (xs ! i)])"

definition xoshiro128p_init_n :: "u32 \<Rightarrow> u32 \<Rightarrow> xoshiro128p_t list \<Rightarrow> xoshiro128p_t list" where
  "xoshiro128p_init_n seed n xs =
     fold init_n_body [1..<unat n] (xs[0 := xoshiro128p_init seed])"

section \<open>Leapfrog sequences\<close>

text \<open>Advancing a generator is its state component of the next function.\<close>

abbreviation lcg_advance :: "lcg_t \<Rightarrow> lcg_t" where
  "lcg_advance g \<equiv> snd (lcg_next g)"

lemma lcg_next_simps [simp]:
  "lcg_state (lcg_advance g) = lcg_state g * lcg_A g + lcg_C g"
  "lcg_A (lcg_advance g) = lcg_A g" "lcg_C (lcg_advance g) = lcg_C g"
  "fst (lcg_next g) = lcg_state (lcg_advance g)"
  by (simp_all add: lcg_next_def Let_def)

lemma lcg_advance_params [simp]:
  "lcg_A ((lcg_advance ^^ k) g) = lcg_A g" "lcg_C ((lcg_advance ^^ k) g) = lcg_C g"
  by (induction k) simp_all

lemma lcg_advance_swap: "lcg_advance ((lcg_advance ^^ k) g) = (lcg_advance ^^ k) (lcg_advance g)"
  using funpow_swap1 [of lcg_advance k g] by simp

lemma leap_params_eq:
  "leap_params A n (Ap, Cp) = (Ap * A ^ n, Cp + Ap * (\<Sum>j<n. A ^ j))"
  by (induction n arbitrary: Ap Cp)
    (simp_all add: sum.lessThan_Suc_shift algebra_simps sum_distrib_left del: sum.lessThan_Suc)

text \<open>Advancing by \<open>n\<close> steps is one step of a generator with the leapfrog parameters.\<close>

lemma lcg_advance_n:
  "lcg_state ((lcg_advance ^^ n) g) =
     lcg_state g * lcg_A g ^ n + (\<Sum>j<n. lcg_A g ^ j) * lcg_C g"
proof (induction n)
  case (Suc n)
  have "(\<Sum>j<Suc n. lcg_A g ^ j) = 1 + lcg_A g * (\<Sum>j<n. lcg_A g ^ j)"
    by (simp add: sum.lessThan_Suc_shift sum_distrib_left del: sum.lessThan_Suc)
  with Suc show ?case by (simp add: algebra_simps del: sum.lessThan_Suc)
qed simp

lemma leap_seeds_length [simp]: "length (leap_seeds AC i k g lcg) = length lcg"
  by (induction k arbitrary: i g lcg) (simp_all add: split_beta Let_def)

lemma leap_seeds_nth:
  assumes "i + k \<le> length lcg" "j < i + k"
  shows "leap_seeds AC i k g lcg ! j =
    (if j < i then lcg ! j
     else lcg_init (lcg_state ((lcg_advance ^^ (j + 1 - i)) g)) (fst AC) (snd AC))"
  using assms
proof (induction k arbitrary: i g lcg)
  case (Suc k)
  have "leap_seeds AC i (Suc k) g lcg ! j =
      leap_seeds AC (Suc i) k (lcg_advance g)
        (lcg[i := lcg_init (lcg_state (lcg_advance g)) (fst AC) (snd AC)]) ! j"
    by (simp add: split_beta Let_def)
  moreover have "j + 1 - i = Suc (j + 1 - Suc i)" if "i < j" using that by simp
  ultimately show ?case using Suc.prems
    by (subst (asm) Suc.IH)
      (auto simp: lcg_advance_swap nth_list_update less_Suc_eq simp del: lcg_next_simps(1))
qed simp

text \<open>
  C40: The generators that \<open>lcg_init_n\<close> sets up split the sequence of the single generator by
  leapfrogging: after \<open>k\<close> calls of \<open>lcg_next\<close> generator \<open>i\<close> of \<open>n\<close> holds element
  \<open>i + 1 + k * n\<close> of the sequence of \<open>lcg_init seed A C\<close>, for every seed and parameters.
\<close>

theorem lcg_leapfrog:
  assumes "unat n \<le> length lcg" "i < unat n"
  shows "lcg_state (((\<lambda>g. snd (lcg_next g)) ^^ k) (lcg_init_n seed A C n lcg ! i)) =
    lcg_state (((\<lambda>g. snd (lcg_next g)) ^^ (i + 1 + k * unat n)) (lcg_init seed A C))"
proof -
  let ?n = "unat n" and ?g = "lcg_init seed A C"
  let ?P = "(A ^ ?n, (\<Sum>j<?n. A ^ j) * C)"
  define h where "h = lcg_init (lcg_state ((lcg_advance ^^ (i + 1)) ?g)) (fst ?P) (snd ?P)"
  have init: "lcg_init_n seed A C n lcg ! i = h"
    using assms leap_seeds_nth [of 0 ?n lcg i ?P ?g]
    by (simp add: lcg_init_n_def leap_params_eq h_def del: funpow.simps)
  have "lcg_state ((lcg_advance ^^ k) h) = lcg_state ((lcg_advance ^^ (i + 1 + k * ?n)) ?g)"
  proof (induction k)
    case 0
    show ?case by (simp add: h_def lcg_init_def)
  next
    case (Suc k)
    have "lcg_state ((lcg_advance ^^ Suc k) h) =
        lcg_state ((lcg_advance ^^ k) h) * A ^ ?n + (\<Sum>j<?n. A ^ j) * C"
      by (simp add: h_def lcg_init_def)
    also have "\<dots> = lcg_state ((lcg_advance ^^ ?n) ((lcg_advance ^^ (i + 1 + k * ?n)) ?g))"
      unfolding Suc.IH
      by (subst lcg_advance_n [of ?n]) (simp add: lcg_init_def del: funpow.simps)
    also have "\<dots> = lcg_state ((lcg_advance ^^ (i + 1 + Suc k * ?n)) ?g)"
      by (simp only: funpow_add [THEN fun_cong, unfolded comp_apply, symmetric])
        (simp add: ac_simps)
    finally show ?case .
  qed
  then show ?thesis by (simp only: init)
qed

theorem lcg_leapfrog_witness:
  "lcg_state (((\<lambda>g. snd (lcg_next g)) ^^ 5)
     (lcg_init_n 42 LCG_A LCG_C 3 (replicate 3 (lcg_init_default 0)) ! 2)) =
   lcg_state (((\<lambda>g. snd (lcg_next g)) ^^ (2 + 1 + 5 * unat (3 :: u32))) (lcg_init 42 LCG_A LCG_C))"
  by (rule lcg_leapfrog) simp_all

section \<open>The state update of xoshiro128+ is linear\<close>

text \<open>
  States form a vector space over GF(2) with the word-wise exclusive or as addition. A list of
  bits is a polynomial, lowest coefficient first; \<open>poly_at\<close> evaluates it at the state update.
\<close>

definition xzero :: xoshiro128p_t where
  "xzero = \<lparr>xs0 = 0, xs1 = 0, xs2 = 0, xs3 = 0\<rparr>"

definition xadd :: "xoshiro128p_t \<Rightarrow> xoshiro128p_t \<Rightarrow> xoshiro128p_t" where
  "xadd x y = \<lparr>xs0 = xs0 x XOR xs0 y, xs1 = xs1 x XOR xs1 y,
    xs2 = xs2 x XOR xs2 y, xs3 = xs3 x XOR xs3 y\<rparr>"

abbreviation xadvance :: "xoshiro128p_t \<Rightarrow> xoshiro128p_t" where
  "xadvance x \<equiv> snd (xoshiro128p_next x)"

definition rotl11 :: "u32 \<Rightarrow> u32" where
  "rotl11 w = push_bit 11 w OR drop_bit 21 w"

fun poly_at :: "bool list \<Rightarrow> xoshiro128p_t \<Rightarrow> xoshiro128p_t" where
  "poly_at [] x = xzero"
| "poly_at (b # bs) x = xadd (if b then x else xzero) (poly_at bs (xadvance x))"

lemma xoshiro_state_eqI:
  "xs0 x = xs0 y \<Longrightarrow> xs1 x = xs1 y \<Longrightarrow> xs2 x = xs2 y \<Longrightarrow> xs3 x = xs3 y
    \<Longrightarrow> x = (y :: xoshiro128p_t)"
  by simp

lemma xadd_sel [simp]:
  "xs0 (xadd x y) = xs0 x XOR xs0 y" "xs1 (xadd x y) = xs1 x XOR xs1 y"
  "xs2 (xadd x y) = xs2 x XOR xs2 y" "xs3 (xadd x y) = xs3 x XOR xs3 y"
  "xs0 xzero = 0" "xs1 xzero = 0" "xs2 xzero = 0" "xs3 xzero = 0"
  by (simp_all add: xadd_def xzero_def)

lemma xadd_comm: "xadd x y = xadd y x"
  and xadd_assoc: "xadd (xadd x y) z = xadd x (xadd y z)"
  and xadd_left_comm: "xadd x (xadd y z) = xadd y (xadd x z)"
  and xadd_zero [simp]: "xadd xzero x = x" "xadd x xzero = x"
  and xadd_self [simp]: "xadd x x = xzero"
  and xadd_cancel [simp]: "xadd x (xadd x y) = y"
  by (rule xoshiro_state_eqI; simp add: ac_simps)+

lemmas xadd_ac = xadd_comm xadd_assoc xadd_left_comm

lemma rotl11_xor [simp]: "rotl11 (a XOR b) = rotl11 a XOR rotl11 b"
  by (rule bit_word_eqI) (auto simp: rotl11_def bit_simps dest: bit_imp_le_length)

lemma xadvance_sel:
  "xs0 (xadvance x) = xs0 x XOR xs1 x XOR xs3 x"
  "xs1 (xadvance x) = xs0 x XOR xs1 x XOR xs2 x"
  "xs2 (xadvance x) = xs0 x XOR xs2 x XOR push_bit 9 (xs1 x)"
  "xs3 (xadvance x) = rotl11 (xs1 x XOR xs3 x)"
  by (simp_all add: xoshiro128p_next_def Let_def rotl11_def ac_simps)

lemma xadvance_linear [simp]: "xadvance (xadd x y) = xadd (xadvance x) (xadvance y)"
  by (rule xoshiro_state_eqI) (simp_all add: xadvance_sel ac_simps push_bit_xor)

lemma xadvance_zero [simp]: "xadvance xzero = xzero"
  by (rule xoshiro_state_eqI) (simp_all add: xadvance_sel rotl11_def)

lemma poly_at_linear [simp]: "poly_at bs (xadd x y) = xadd (poly_at bs x) (poly_at bs y)"
  by (induction bs arbitrary: x y) (simp_all add: xadd_ac)

lemma poly_at_zero [simp]: "poly_at bs xzero = xzero"
  by (induction bs) simp_all

lemma poly_at_advance: "poly_at bs (xadvance x) = xadvance (poly_at bs x)"
  by (induction bs arbitrary: x) simp_all

lemma poly_at_commute: "poly_at bs (poly_at cs x) = poly_at cs (poly_at bs x)"
  by (induction bs arbitrary: x) (simp_all add: poly_at_advance)

text \<open>Sum, square and product of polynomials act as on the operators.\<close>

fun xorl :: "bool list \<Rightarrow> bool list \<Rightarrow> bool list" where
  "xorl (True # xs) (True # ys) = False # xorl xs ys"
| "xorl (True # xs) (False # ys) = True # xorl xs ys"
| "xorl (False # xs) (y # ys) = y # xorl xs ys"
| "xorl [] ys = ys"
| "xorl xs [] = xs"

fun sqp :: "bool list \<Rightarrow> bool list" where
  "sqp [] = []"
| "sqp (b # bs) = b # False # sqp bs"

fun pmul :: "bool list \<Rightarrow> bool list \<Rightarrow> bool list" where
  "pmul [] p = []"
| "pmul (True # h) p = xorl p (False # pmul h p)"
| "pmul (False # h) p = False # pmul h p"

lemma poly_at_xorl: "poly_at (xorl xs ys) x = xadd (poly_at xs x) (poly_at ys x)"
  by (induction xs ys arbitrary: x rule: xorl.induct) (simp_all add: xadd_ac)

lemma poly_at_sqp: "poly_at (sqp bs) x = poly_at bs (poly_at bs x)"
  by (induction bs arbitrary: x) (simp_all add: poly_at_advance xadd_ac)

lemma poly_at_pmul: "poly_at (pmul h p) x = poly_at h (poly_at p x)"
  by (induction h p arbitrary: x rule: pmul.induct)
    (simp_all add: poly_at_xorl poly_at_advance)

lemma poly_at_zeros: "list_all Not bs \<Longrightarrow> poly_at bs x = xzero"
  by (induction bs arbitrary: x) simp_all

section \<open>The characteristic polynomial\<close>

text \<open>
  Evaluation on bit lists: a state is four lists of 32 bits, lowest bit first, and a word is
  the Horner sum of its bits.
\<close>

type_synonym lstate = "bool list \<times> bool list \<times> bool list \<times> bool list"

fun advancel :: "lstate \<Rightarrow> lstate" where
  "advancel (a, b, c, d) =
     (let e = xorl b d; f = xorl a c
      in (xorl a e, xorl b f, xorl f (replicate 9 False @ take 23 b), drop 21 e @ take 21 e))"

fun addl :: "lstate \<Rightarrow> lstate \<Rightarrow> lstate" where
  "addl (a, b, c, d) (a', b', c', d') = (xorl a a', xorl b b', xorl c c', xorl d d')"

fun poly_atl :: "bool list \<Rightarrow> lstate \<Rightarrow> lstate" where
  "poly_atl [] x = (replicate 32 False, replicate 32 False, replicate 32 False, replicate 32 False)"
| "poly_atl (True # bs) x = addl x (poly_atl bs (advancel x))"
| "poly_atl (False # bs) x = poly_atl bs (advancel x)"

fun len32 :: "lstate \<Rightarrow> bool" where
  "len32 (a, b, c, d) \<longleftrightarrow> length a = 32 \<and> length b = 32 \<and> length c = 32 \<and> length d = 32"

definition word_of :: "bool list \<Rightarrow> u32" where
  "word_of bs = horner_sum of_bool 2 bs"

fun state_of :: "lstate \<Rightarrow> xoshiro128p_t" where
  "state_of (a, b, c, d) =
     \<lparr>xs0 = word_of a, xs1 = word_of b, xs2 = word_of c, xs3 = word_of d\<rparr>"

lemma bit_word_of: "bit (word_of bs) n \<longleftrightarrow> n < 32 \<and> n < length bs \<and> bs ! n"
  by (auto simp: word_of_def bit_horner_sum_bit_word_iff)

lemma xorl_length: "length (xorl xs ys) = max (length xs) (length ys)"
  by (induction xs ys rule: xorl.induct) simp_all

lemma xorl_nth: "length xs = length ys \<Longrightarrow> n < length ys \<Longrightarrow> xorl xs ys ! n = (xs ! n \<noteq> ys ! n)"
  by (induction xs ys arbitrary: n rule: xorl.induct) (auto simp: nth_Cons split: nat.splits)

lemma word_of_xorl: "length xs = length ys \<Longrightarrow> word_of (xorl xs ys) = word_of xs XOR word_of ys"
  by (rule bit_word_eqI) (auto simp: bit_word_of bit_simps xorl_length xorl_nth)

lemma word_of_push: "length bs = 32 \<Longrightarrow> word_of (replicate 9 False @ take 23 bs) = push_bit 9 (word_of bs)"
  by (rule bit_word_eqI) (auto simp: bit_word_of bit_simps nth_append)

lemma word_of_rot: "length bs = 32 \<Longrightarrow> word_of (drop 21 bs @ take 21 bs) = rotl11 (word_of bs)"
  by (rule bit_word_eqI)
    (auto simp: bit_word_of bit_simps nth_append rotl11_def add.commute)

lemma word_of_zeros [simp]: "word_of (replicate n False) = 0"
  by (rule bit_word_eqI) (simp add: bit_word_of)

lemma advancel_ok:
  "len32 x \<Longrightarrow> len32 (advancel x) \<and> state_of (advancel x) = xadvance (state_of x)"
  by (cases x) (auto intro!: xoshiro_state_eqI
    simp: Let_def xorl_length xadvance_sel word_of_xorl word_of_push word_of_rot ac_simps)

lemma poly_atl_ok:
  "len32 x \<Longrightarrow> len32 (poly_atl bs x) \<and> state_of (poly_atl bs x) = poly_at bs (state_of x)"
proof (induction bs x rule: poly_atl.induct)
  case (2 bs x)
  have "len32 (addl x y) \<and> state_of (addl x y) = xadd (state_of x) (state_of y)"
    if "len32 y" for y
    using 2(2) that by (cases x; cases y) (auto simp: xorl_length word_of_xorl xadd_def)
  with 2 show ?case using advancel_ok [of x] by simp
qed (use advancel_ok in \<open>auto simp: xzero_def\<close>)

fun num_bits :: "num \<Rightarrow> bool list" where
  "num_bits Num.One = [True]"
| "num_bits (Num.Bit0 n) = False # num_bits n"
| "num_bits (Num.Bit1 n) = True # num_bits n"

text \<open>
  The characteristic polynomial of the update (its coefficients as the bits of a number), and
  polynomials whose value at the first unit vector is each unit vector of the first word.
\<close>

definition bits_of :: "nat \<Rightarrow> bool list" where
  "bits_of n = (if n = 0 then [] else num_bits (num_of_nat n))"

lemma bits_of_simps: "bits_of 0 = []" "bits_of 1 = [True]" "bits_of (numeral k) = num_bits k"
  by (simp_all add: bits_of_def num_of_nat_numeral_eq)

definition charpoly :: "bool list" where
  "charpoly = bits_of 0x100fc65a2006254b11b489db6de18fc01"

definition unit_polys :: "nat list" where
  "unit_polys = [
    0x1, 0xa02531d096ba73f912037800f76b8286,
    0x282341fd666963befcf03ebce35138ee, 0x5a18bb798b0f9b3283445b89df7f7264,
    0xd59c5b02ce590d79cef05c27d1721abf, 0xf3f9b49d830bb8e61f1bc5f1e858edf0,
    0xc426bb78249ef6bced2a1d0202ac48c4, 0x641a4180a21de2fba0d1b43686855d74,
    0xf650c1bd3669430b5a238fcaaa57bfa7, 0x72b380652d14f19ff2134023cf841fbf,
    0x8244cec073eb8949b49e743cb9d761ea, 0x1e6d2bdbd7ee22ea7b7b60c82d248851,
    0x67d625858faa3eb56b038d2a75137f24, 0xb861f674b79746a00241951355b5a4eb,
    0xa1915d1fba087ba270c1ee7eaa64c2a8, 0x9fafca8f9a880d64642d0062358caa6c,
    0x542def4a0efdfdb948c05ab1989ec090, 0x4107e163da4ba91d4002fd571b42b4a5,
    0x8422319c956a13512fbbdff67e5daf90, 0xfff31c2c020713499f29158223ba102d,
    0x7d1558e0d25e86137b88173d4cb6c262, 0x3e1a8d22f9c1121fabbdd56f959a5b51,
    0xeab484d4b194776b96710c48d61c9fdd, 0xab06b76918d5ef9974a38802cd88ad27,
    0x588069f998ea1dcf7395c2c84e952b22, 0x878570a85a4477142eb21ec90cc6c158,
    0xdebfa5ae9b2402c90c834495cf56f3b7, 0x5b333e22f1a25aa622700e9558dd1109,
    0x9727b413d7fec4c64c7444d98293e1d5, 0xb6ea294defc8a4aa22b9a74ea3d0d3e4,
    0xd4c58fa726cec144316a468ac2dd5456, 0x5c681b1209e48f2f9cf5f304d5c92d78]"

definition unitl :: "nat \<Rightarrow> lstate" where
  "unitl j = (replicate j False @ True # replicate (31 - j) False,
     replicate 32 False, replicate 32 False, replicate 32 False)"

abbreviation unit_state :: "u32 \<Rightarrow> xoshiro128p_t" where
  "unit_state a \<equiv> \<lparr>xs0 = a, xs1 = 0, xs2 = 0, xs3 = 0\<rparr>"

lemma word_of_unit: "j < 32 \<Longrightarrow> word_of (replicate j False @ True # replicate (31 - j) False) = 2 ^ j"
  by (rule bit_word_eqI)
    (auto simp: bit_word_of bit_simps nth_append nth_Cons split: nat.splits)

lemma state_of_unitl: "j < 32 \<Longrightarrow> len32 (unitl j) \<and> state_of (unitl j) = unit_state (2 ^ j)"
  by (simp add: unitl_def word_of_unit)

lemma charpoly_unitl:
  "poly_atl charpoly (unitl 0) =
     (replicate 32 False, replicate 32 False, replicate 32 False, replicate 32 False)"
  unfolding charpoly_def bits_of_simps num_bits.simps by code_simp

lemma unit_polys_unitl: "map (\<lambda>q. poly_atl (bits_of q) (unitl 0)) unit_polys = map unitl [0..<32]"
  unfolding unit_polys_def list.map bits_of_simps num_bits.simps by code_simp

text \<open>The states that the characteristic polynomial annihilates are closed under the update.\<close>

definition in_ker :: "xoshiro128p_t \<Rightarrow> bool" where
  "in_ker x \<longleftrightarrow> poly_at charpoly x = xzero"

lemma in_ker_add: "in_ker x \<Longrightarrow> in_ker y \<Longrightarrow> in_ker (xadd x y)"
  by (simp add: in_ker_def)

lemma in_ker_diff: "in_ker (xadd x y) \<Longrightarrow> in_ker x \<Longrightarrow> in_ker y"
  using in_ker_add [of x "xadd x y"] by simp

lemma in_ker_advance: "in_ker x \<Longrightarrow> in_ker (xadvance x)"
  by (simp add: in_ker_def poly_at_advance)

lemma in_ker_poly: "in_ker x \<Longrightarrow> in_ker (poly_at bs x)"
  by (simp add: in_ker_def poly_at_commute [of charpoly])

lemma in_ker_unit: assumes "j < 32" shows "in_ker (unit_state (2 ^ j))"
proof -
  have "state_of (unitl 0) = unit_state 1" "len32 (unitl 0)" using state_of_unitl [of 0] by simp_all
  then have e0: "in_ker (unit_state 1)"
    using poly_atl_ok [of "unitl 0" charpoly] by (simp add: charpoly_unitl in_ker_def xzero_def)
  have len: "length unit_polys = 32" by (simp add: unit_polys_def)
  have "poly_atl (bits_of (unit_polys ! j)) (unitl 0) = unitl j"
    using arg_cong [OF unit_polys_unitl, of "\<lambda>xs. xs ! j"] assms len by simp
  then have "poly_at (bits_of (unit_polys ! j)) (unit_state 1) = unit_state (2 ^ j)"
    using poly_atl_ok [of "unitl 0" "bits_of (unit_polys ! j)"] state_of_unitl [OF assms]
      state_of_unitl [of 0] by simp
  then show ?thesis using in_ker_poly [OF e0] by metis
qed

lemma in_ker_word0: "in_ker (unit_state a)"
proof -
  have "in_ker (unit_state (take_bit n a))" if "n \<le> 32" for n
    using that
  proof (induction n)
    case 0
    then show ?case by (simp add: in_ker_def flip: xzero_def)
  next
    case (Suc n)
    have "take_bit (Suc n) a = take_bit n a XOR (if bit a n then 2 ^ n else 0)"
      by (rule bit_word_eqI) (auto simp: bit_simps less_Suc_eq)
    then have "unit_state (take_bit (Suc n) a) =
        xadd (unit_state (take_bit n a)) (if bit a n then unit_state (2 ^ n) else xzero)"
      by (simp add: xadd_def xzero_def)
    then show ?case using Suc in_ker_unit [of n] by (auto intro: in_ker_add)
  qed
  moreover have "take_bit 32 a = a"
    by (rule bit_word_eqI) (auto simp: bit_simps dest: bit_imp_le_length)
  ultimately show ?thesis by (metis order_refl)
qed

lemma shift_xor_surj: "\<exists>a :: u32. c = a XOR push_bit 9 a"
proof -
  let ?a = "c XOR push_bit 9 c XOR push_bit 18 c XOR push_bit 27 c"
  have "c = ?a XOR push_bit 9 ?a"
    by (simp add: push_bit_xor ac_simps)
  then show ?thesis by blast
qed

lemma rotl11_surj: "\<exists>a. d = rotl11 a"
proof -
  have "d = rotl11 (push_bit 21 d OR drop_bit 11 d)"
    by (rule bit_word_eqI) (auto simp: rotl11_def bit_simps dest: bit_imp_le_length)
  then show ?thesis by blast
qed

text \<open>Hence it annihilates every state.\<close>

lemma charpoly_annihilates: "poly_at charpoly x = xzero"
proof -
  have k1: "in_ker \<lparr>xs0 = 0, xs1 = a, xs2 = a, xs3 = 0\<rparr>" for a
  proof (rule in_ker_diff)
    have "xadvance (unit_state a) = xadd (unit_state a) \<lparr>xs0 = 0, xs1 = a, xs2 = a, xs3 = 0\<rparr>"
      by (rule xoshiro_state_eqI) (simp_all add: xadvance_sel rotl11_def)
    then show "in_ker (xadd (unit_state a) \<lparr>xs0 = 0, xs1 = a, xs2 = a, xs3 = 0\<rparr>)"
      using in_ker_advance [OF in_ker_word0, of a] by simp
  qed (rule in_ker_word0)
  have k2: "in_ker \<lparr>xs0 = 0, xs1 = 0, xs2 = a XOR push_bit 9 a, xs3 = rotl11 a\<rparr>" for a
  proof (rule in_ker_diff)
    have "xadvance \<lparr>xs0 = 0, xs1 = a, xs2 = a, xs3 = 0\<rparr> =
        xadd (unit_state a) \<lparr>xs0 = 0, xs1 = 0, xs2 = a XOR push_bit 9 a, xs3 = rotl11 a\<rparr>"
      by (rule xoshiro_state_eqI) (simp_all add: xadvance_sel)
    then show "in_ker (xadd (unit_state a) \<lparr>xs0 = 0, xs1 = 0, xs2 = a XOR push_bit 9 a, xs3 = rotl11 a\<rparr>)"
      using in_ker_advance [OF k1, of a] by simp
  qed (rule in_ker_word0)
  have k3: "in_ker \<lparr>xs0 = 0, xs1 = 0, xs2 = 0, xs3 = rotl11 (rotl11 a)\<rparr>" for a
  proof (rule in_ker_diff)
    let ?c = "a XOR push_bit 9 a"
    let ?y = "xadd (unit_state (rotl11 a)) \<lparr>xs0 = 0, xs1 = ?c, xs2 = ?c, xs3 = 0\<rparr>"
    have "xadvance \<lparr>xs0 = 0, xs1 = 0, xs2 = ?c, xs3 = rotl11 a\<rparr> =
        xadd ?y \<lparr>xs0 = 0, xs1 = 0, xs2 = 0, xs3 = rotl11 (rotl11 a)\<rparr>"
      by (rule xoshiro_state_eqI) (simp_all add: xadvance_sel)
    then show "in_ker (xadd ?y \<lparr>xs0 = 0, xs1 = 0, xs2 = 0, xs3 = rotl11 (rotl11 a)\<rparr>)"
      using in_ker_advance [OF k2, of a] by simp
    show "in_ker ?y" by (intro in_ker_add in_ker_word0 k1)
  qed
  have k4: "in_ker \<lparr>xs0 = 0, xs1 = 0, xs2 = 0, xs3 = d\<rparr>" for d
    using k3 rotl11_surj by metis
  have k5: "in_ker \<lparr>xs0 = 0, xs1 = 0, xs2 = c, xs3 = 0\<rparr>" for c
  proof -
    obtain a where c: "c = a XOR push_bit 9 a" using shift_xor_surj by blast
    have "\<lparr>xs0 = 0, xs1 = 0, xs2 = c, xs3 = 0\<rparr> =
        xadd \<lparr>xs0 = 0, xs1 = 0, xs2 = c, xs3 = rotl11 a\<rparr> \<lparr>xs0 = 0, xs1 = 0, xs2 = 0, xs3 = rotl11 a\<rparr>"
      by (simp add: xadd_def)
    then show ?thesis using in_ker_add [OF k2 [of a] k4 [of "rotl11 a"]] c by (simp add: xadd_def)
  qed
  have "x = xadd (unit_state (xs0 x)) (xadd \<lparr>xs0 = 0, xs1 = xs1 x, xs2 = xs1 x, xs3 = 0\<rparr>
      (xadd \<lparr>xs0 = 0, xs1 = 0, xs2 = xs1 x XOR xs2 x, xs3 = 0\<rparr> \<lparr>xs0 = 0, xs1 = 0, xs2 = 0, xs3 = xs3 x\<rparr>))"
    by (rule xoshiro_state_eqI) simp_all
  moreover have "in_ker \<dots>" by (intro in_ker_add in_ker_word0 k1 k4 k5)
  ultimately show ?thesis by (metis in_ker_def)
qed

section \<open>The jump function\<close>

text \<open>
  Squaring \<open>x\<close> 64 times modulo the characteristic polynomial gives the jump polynomial; the
  quotients of the reductions are given, so that a reduction is one product and one sum.
\<close>

definition jump_quotients :: "nat list" where
  "jump_quotients = [
    0x0, 0x0,
    0x0, 0x0,
    0x0, 0x0,
    0x1, 0x5563e71de57de4385ccb5bd3d956,
    0x542773f6b04a3c52464f255945f18f, 0x54362cb83d331c5da794a407c1004f5,
    0x115a19b7a71edb1eb120e0e74d4ef7b7, 0x154cf0a6daf3fe89ed72a20defcc49c7,
    0x547606a88c089c3eac9309faa10cb8ac, 0x5071a1fd048440766ac885da3a53cbc7,
    0x546718c8bb6262a1139df8afdf60bde9, 0x14187fc2ca3020f5757a06b68c26a877,
    0x105bf4251c1ec899420afae89a9ae6e6, 0x403a4a50ae1d756ebc9a9955ef3ac373,
    0x14186fd91046471c57b2c6086b2f7b3, 0x54670dd43a243adc19b389d834e7f2bb,
    0x110a6957dce29974300d557aa3ec1efc, 0x14182eb7915a0c412a72bbb17174f1af,
    0x110a28696c34042b2f9491f07bd19b9, 0x151d80efb20640ddea6b7802b2716571,
    0x145c466d51159029d876ed86e8c0a9ad, 0x111f30bebd4ed4be835ec00d8e413dd3,
    0x144c5da27bdc2cbb82308af7e0386d5, 0x145844c9490519a14dfc917f2ed6182d,
    0x100bd5f117619dbddc8d583f65af930d, 0x407f671b2b1f87e77b3e930327c2f8b9,
    0x101edc6dd1d646b8c3dd9aef7647c4d, 0x144c189e2a2fe53b4423b831927c3d59,
    0x5573b8ab0f16d431377c0f32a93f6d, 0x110a38378f40ed1dca66c79b812bb095,
    0x412eab4d80aaa9eade95c4b97616fe34, 0x416ec525b0e4288ef42164ddc59994,
    0x5426223ab785885eb5ec086da0273471, 0x104abe621dbfc75df46534fa79276588,
    0x51243e2bd96fd268e021219f14f5d259, 0x4469da2976d0574f453514a29666dd0,
    0x406f7dc1b017e5e8387ba701b2875147, 0x114a535cf794747883b3b8ecbd482b56,
    0x154cb18d2396b6d8b76b70df037f4a5c, 0x101f89f2075a9c197ca5bd99f68d865a,
    0x412aacaefcd74b9a83d79d4a38860bb0, 0x104fe909e3ad86b92ba238e27894fef4,
    0x5563e24acff87eb85a2fbbdb5c3ae46, 0x4439ab99c1c7a5f849f7facd59c9eb69,
    0x5164444b897f67f048c69c07a855d341, 0x406f7c953e3272d3c910978b951975b0,
    0x140d22294afd011e4c82ae0b1a6544df, 0x5071e581971bf0ab5982f65989f52f28,
    0x51755f79c2bb2ecf87b1dda3554667a4, 0x101a8ea8329a35426dd81de11a031d08,
    0x446d9ca4ca9b16e07a4e9579bab0db, 0x453d44561071b85036225ec4c06d5965,
    0x115e0a1dd1abbd083ade9be0bc289eb1, 0x1558edce0da07a8ce8e732a4b576339,
    0x406a2ea8fa16201ba99d4b5bdf61fd6d, 0x516142512fe385fab3f5b3c9fb415fb0,
    0x403e48f1b052321d157e569338097fa2, 0x4538471ad8fc7abacd3c5c8edf9bc88,
    0x5573a9b138f3480a20a466a755d0e7b, 0x5064bd7d4772313c46e54e420852104f]"

fun sq_chain :: "bool list \<Rightarrow> bool list list \<Rightarrow> bool list \<Rightarrow> bool list option" where
  "sq_chain p [] q = Some q"
| "sq_chain p (h # hs) q =
     (let s = xorl (sqp q) (pmul h p)
      in if list_all Not (drop 128 s) then sq_chain p hs (take 128 s) else None)"

definition jump_poly :: "bool list" where
  "jump_poly = concat (map (\<lambda>w. map (bit w) [0..<32]) JUMP)"

lemma poly_at_append: "poly_at (xs @ ys) x = xadd (poly_at xs x) (poly_at ys ((xadvance ^^ length xs) x))"
  by (induction xs arbitrary: x) (simp_all add: xadd_ac funpow_swap1 [where f = xadvance])

lemma sq_chain_ok:
  "sq_chain charpoly hs q = Some r \<Longrightarrow> poly_at r = (poly_at q ^^ (2 ^ length hs))"
proof (induction hs arbitrary: q)
  case (Cons h hs)
  define s where "s = xorl (sqp q) (pmul h charpoly)"
  have z: "list_all Not (drop 128 s)" and r: "sq_chain charpoly hs (take 128 s) = Some r"
    using Cons.prems by (auto simp: Let_def s_def split: if_splits)
  have "poly_at (take 128 s) x = poly_at q (poly_at q x)" for x
  proof -
    have "poly_at s x = poly_at (take 128 s) x"
      using poly_at_append [of "take 128 s" "drop 128 s" x] poly_at_zeros [OF z] by simp
    then show ?thesis
      by (simp add: s_def poly_at_xorl poly_at_sqp poly_at_pmul charpoly_annihilates)
  qed
  then have "poly_at (take 128 s) = poly_at q ^^ 2" by (auto simp: numeral_2_eq_2)
  then show ?case using Cons.IH [OF r] by (simp add: funpow_mult)
qed auto

lemma jump_poly_bits: "jump_poly = num_bits (num_of_nat 0x77f2db5b6fa035c3f542d2d38764000b) @ [False]"
  by (simp add: jump_poly_def JUMP_def upt_rec num_of_nat_numeral_eq)

lemma jump_chain: "sq_chain charpoly (map bits_of jump_quotients) [False, True] = Some jump_poly"
  unfolding charpoly_def jump_quotients_def list.map bits_of_simps num_bits.simps jump_poly_bits
    num_of_nat_numeral_eq
  by code_simp

lemma jump_step_eq:
  "b < 32 \<Longrightarrow> jump_step w b (acc, x) = (xadd (if bit w b then x else xzero) acc, xadvance x)"
  by (simp add: jump_step_def xadd_def xzero_def push_bit_eq_mult and_exp_eq_0_iff_not_bit ac_simps)

lemma fold_jump_step:
  assumes "set bs \<subseteq> {..<32}"
  shows "fold (jump_step w) bs (acc, x) =
    (xadd acc (poly_at (map (bit w) bs) x), (xadvance ^^ length bs) x)"
  using assms
  by (induction bs arbitrary: acc x)
    (simp_all add: jump_step_eq xadd_ac funpow_swap1 [where f = xadvance] split del: if_split)

lemma fold_jump_words:
  "fold (\<lambda>w. fold (jump_step w) [0..<32]) ws (acc, x) =
     (xadd acc (poly_at (concat (map (\<lambda>w. map (bit w) [0..<32]) ws)) x),
      (xadvance ^^ (32 * length ws)) x)"
proof (induction ws arbitrary: acc x)
  case (Cons w ws)
  have "fold (jump_step w) [0..<32] (acc, x) =
      (xadd acc (poly_at (map (bit w) [0..<32]) x), (xadvance ^^ 32) x)"
    by (subst fold_jump_step) auto
  then show ?case
    by (simp add: Cons.IH poly_at_append xadd_assoc funpow_add [of "32 * length ws" 32 xadvance]
      add.commute [of 32] del: upt_rec_numeral)
qed simp

lemma xoshiro128p_jump_poly: "xoshiro128p_jump x = poly_at jump_poly x"
proof -
  have "fold (\<lambda>i. fold (jump_step (JUMP ! i)) [0..<32]) [0..<length JUMP] =
      fold (\<lambda>w. fold (jump_step w) [0..<32]) JUMP"
    by (simp add: JUMP_def upt_rec [of _ 4] upt_rec [of _ "Suc _"] del: upt_rec_numeral)
  then show ?thesis
    by (simp add: xoshiro128p_jump_def fold_jump_words flip: xzero_def jump_poly_def)
qed

lemma poly_at_x: "poly_at [False, True] x = xadvance x"
  by simp

lemma jump_funpow: "xoshiro128p_jump = xadvance ^^ (2 ^ 64)"
proof -
  have len: "length (map bits_of jump_quotients) = 64" by (simp add: jump_quotients_def)
  have x: "poly_at [False, True] = xadvance" by (rule ext) (rule poly_at_x)
  have "xoshiro128p_jump = poly_at jump_poly" by (rule ext) (rule xoshiro128p_jump_poly)
  then show ?thesis using sq_chain_ok [OF jump_chain, unfolded len x] by (rule trans)
qed

text \<open>
  C39: The jump function of xoshiro128+ is equivalent to \<open>2 ^ 64\<close> calls of the next function,
  from every state, as its comment says.
\<close>

theorem xoshiro128p_jump_next:
  "xoshiro128p_jump x = ((\<lambda>x. snd (xoshiro128p_next x)) ^^ (2 ^ 64)) x"
  by (rule fun_cong [OF jump_funpow])

lemma xoshiro128p_copy_eq [simp]: "xoshiro128p_copy t x = x"
  by (simp add: xoshiro128p_copy_def)

lemma init_n_body_eq:
  "i < length xs \<Longrightarrow> 0 < i \<Longrightarrow> init_n_body i xs = xs[i := xoshiro128p_jump (xs ! (i - 1))]"
  by (simp add: init_n_body_def Let_def)

lemma init_n_fold_length [simp]: "length (fold init_n_body ns xs) = length xs"
  by (induction ns arbitrary: xs) (simp_all add: init_n_body_def Let_def)

lemma init_n_fold:
  assumes "xs \<noteq> []" "n \<le> length xs" "j < n"
  shows "fold init_n_body [1..<n] (xs[0 := g]) ! j = (xoshiro128p_jump ^^ j) g"
  using assms(2,3)
proof (induction n arbitrary: j)
  case (Suc n)
  define ys where "ys = fold init_n_body [1..<n] (xs[0 := g])"
  have IH: "ys ! k = (xoshiro128p_jump ^^ k) g" if "k < n" for k
    using Suc.IH [of k] Suc.prems that by (simp add: ys_def)
  have ys_len: "length ys = length xs" by (simp add: ys_def)
  show ?case
  proof (cases n)
    case 0
    then show ?thesis using Suc.prems assms(1) by simp
  next
    case (Suc m)
    have "fold init_n_body [1..<Suc n] (xs[0 := g]) = ys[n := xoshiro128p_jump (ys ! m)]"
    proof -
      have "fold init_n_body [1..<Suc n] (xs[0 := g]) = init_n_body n ys"
        using Suc by (simp only: ys_def upt_Suc) simp
      then show ?thesis using Suc \<open>Suc n \<le> length xs\<close> init_n_body_eq [of n ys] ys_len by simp
    qed
    then show ?thesis
      using Suc \<open>j < Suc n\<close> \<open>Suc n \<le> length xs\<close> IH [of m] IH [of j] ys_len
      by (cases "j = n") auto
  qed
qed simp

text \<open>
  C34: \<open>xoshiro128p_init_n\<close> spaces its generators by \<open>2 ^ 64\<close> elements of one sequence:
  generator \<open>i\<close> starts \<open>i * 2 ^ 64\<close> calls of the next function after the state that the seed
  gives. The array must hold the \<open>n\<close> generators.
\<close>

theorem xoshiro128p_init_n_spacing:
  assumes "unat n \<le> length xs" "i < unat n"
  shows "xoshiro128p_init_n seed n xs ! i =
    ((\<lambda>x. snd (xoshiro128p_next x)) ^^ (i * 2 ^ 64)) (xoshiro128p_init seed)"
proof -
  have "xs \<noteq> []" using assms by auto
  then have "xoshiro128p_init_n seed n xs ! i = (xoshiro128p_jump ^^ i) (xoshiro128p_init seed)"
    unfolding xoshiro128p_init_n_def by (rule init_n_fold [OF _ assms])
  also have "xoshiro128p_jump ^^ i = xadvance ^^ (i * 2 ^ 64)"
    unfolding jump_funpow funpow_mult by (subst mult.commute) (rule refl)
  finally show ?thesis .
qed

theorem xoshiro128p_init_n_spacing_witness:
  "xoshiro128p_init_n 7 4 (replicate 4 xzero) ! 3 =
    ((\<lambda>x. snd (xoshiro128p_next x)) ^^ (3 * 2 ^ 64)) (xoshiro128p_init 7)"
  by (rule xoshiro128p_init_n_spacing) simp_all

end
