(* ===== verification/Start.thy ===== *)
theory Start
  imports Alloc Dma Barrier Reduction
begin

text \<open>
  Program start (\<open>sw/runtime/src/start.c\<close>, \<open>start.h\<close>, \<open>start.S\<close>): initialisation of the
  thread-local, zero-initialised and cluster-local storage by the data mover cores, wake-up of
  the other clusters, the sequence of phases in \<open>snrt_main\<close> and the exit code. The section
  boundaries are the linker symbols of \<open>ld_syms\<close>, the phases that the preprocessor selects the
  flags of \<open>crt0_flags\<close>. The lemmas describe the memory once the DMA has settled: what it holds
  when every transfer in flight is completed.
\<close>

section \<open>Thread-local storage\<close>

text \<open>The thread pointer of a core (\<open>start.S\<close>).\<close>

definition tdata_size :: "ld_syms \<Rightarrow> u32" where
  "tdata_size ld = tdata_end ld - tdata_start ld"

definition tbss_size :: "ld_syms \<Rightarrow> u32" where
  "tbss_size ld = tbss_end ld - tbss_start ld"

definition tp_of :: "snrt_cfg \<Rightarrow> ld_syms \<Rightarrow> hart \<Rightarrow> u32" where
  "tp_of c ld h = (stack_start c ld h - tdata_size ld - tbss_size ld) AND NOT 7"

text \<open>The two loops of \<open>snrt_init_tls\<close> over the cores.\<close>

definition tls_copy :: "u32 \<Rightarrow> u32 \<Rightarrow> u32 \<Rightarrow> nat \<Rightarrow> dma_state \<Rightarrow> dma_state" where
  "tls_copy tls_ptr tls_offset sz i s =
     snd (snrt_dma_start_1d (ucast (tls_ptr + of_nat i * tls_offset)) (ucast tls_ptr) sz 0 s)"

fun tls_memsets ::
  "dma_sys \<Rightarrow> u32 \<Rightarrow> u32 \<Rightarrow> u32 \<Rightarrow> nat list \<Rightarrow> u32 list \<Rightarrow> dma_state \<Rightarrow> (u32 list \<times> dma_state) option" where
  "tls_memsets sys tls_ptr tls_offset sz [] evs s = Some (evs, s)"
| "tls_memsets sys tls_ptr tls_offset sz (i # ns) evs s =
     (case snrt_dma_memset sys (tls_ptr + of_nat i * tls_offset) 0 sz evs s of
        None \<Rightarrow> None
      | Some (evs, s) \<Rightarrow> tls_memsets sys tls_ptr tls_offset sz ns evs s)"

text \<open>
  \<open>snrt_init_tls\<close> up to the barrier, on core \<open>h\<close>; the events are the steps the DMA engine makes
  while the core polls.
\<close>

definition snrt_init_tls ::
  "dma_sys \<Rightarrow> snrt_cfg \<Rightarrow> ld_syms \<Rightarrow> hart \<Rightarrow> u32 list \<Rightarrow> dma_state \<Rightarrow> (u32 list \<times> dma_state) option" where
  "snrt_init_tls sys c ld h evs s =
     (if snrt_is_dm_core c h then
        (let sz = tdata_end ld - tdata_start ld;
             tls_ptr = tp_of c ld h;
             s = snd (snrt_dma_start_1d (ucast tls_ptr) (ucast (tdata_start ld)) sz 0 s)
         in case snrt_dma_wait_all sys 0 evs s of
              None \<Rightarrow> None
            | Some (evs, s) \<Rightarrow>
                (let tls_offset = push_bit (SNRT_LOG2_STACK_SIZE c) 1 + 8;
                     s = fold (tls_copy tls_ptr tls_offset sz) [1..<unat (snrt_cluster_core_num c)] s;
                     tls_ptr = tls_ptr + sz;
                     sz = tbss_end ld - tbss_start ld
                 in case tls_memsets sys tls_ptr tls_offset sz [0..<unat (snrt_cluster_core_num c)] evs s of
                      None \<Rightarrow> None
                    | Some (evs, s) \<Rightarrow> snrt_dma_wait_all sys 0 evs s))
      else Some (evs, s))"

section \<open>Zero-initialised and cluster-local storage\<close>

definition snrt_init_bss ::
  "dma_sys \<Rightarrow> snrt_cfg \<Rightarrow> ld_syms \<Rightarrow> hart \<Rightarrow> u32 list \<Rightarrow> dma_state \<Rightarrow> (u32 list \<times> dma_state) option" where
  "snrt_init_bss sys c ld h evs s =
     (if snrt_cluster_idx c h = 0 \<and> snrt_is_dm_core c h then
        (let sz = bss_end ld - bss_start ld
         in case snrt_dma_memset sys (bss_start ld) 0 sz evs s of
              None \<Rightarrow> None
            | Some (evs, s) \<Rightarrow> snrt_dma_wait_all sys 0 evs s)
      else Some (evs, s))"

text \<open>The data mover core initialises the storage; every core gets the pointer to it.\<close>

definition snrt_init_cls ::
  "dma_sys \<Rightarrow> snrt_cfg \<Rightarrow> ld_syms \<Rightarrow> hart \<Rightarrow> u32 list \<Rightarrow> dma_state \<Rightarrow>
   (u32 \<times> u32 list \<times> dma_state) option" where
  "snrt_init_cls sys c ld h evs s =
     (if snrt_is_dm_core c h then
        (let ptr = ucast (snrt_cls_base_addr c ld h) :: u64;
             sz = cdata_end ld - cdata_start ld;
             s = snd (snrt_dma_start_1d ptr (ucast (cdata_start ld)) sz 0 s);
             ptr = ptr + ucast sz;
             sz = cbss_end ld - cbss_start ld
         in case snrt_dma_memset sys (ucast ptr) 0 sz evs s of
              None \<Rightarrow> None
            | Some (evs, s) \<Rightarrow>
                (case snrt_dma_wait_all sys 0 evs s of
                   None \<Rightarrow> None
                 | Some (evs, s) \<Rightarrow> Some (snrt_cls_base_addr c ld h, evs, s)))
      else Some (snrt_cls_base_addr c ld h, evs, s))"

section \<open>Settled memory\<close>

definition settled :: "dma_sys \<Rightarrow> dma_state \<Rightarrow> mem" where
  "settled sys s = fold (dma_exec sys) (dm_pending s 0) (dm_mem s)"

definition fill :: "u64 \<Rightarrow> nat \<Rightarrow> u8 \<Rightarrow> mem \<Rightarrow> mem" where
  "fill p n v m = (\<lambda>b. if unat (b - p) < n then v else m b)"

text \<open>The transfer neither reads nor writes the \<open>n\<close> bytes from \<open>p\<close>.\<close>

definition spares :: "u64 \<Rightarrow> nat \<Rightarrow> dma_xfer \<Rightarrow> bool" where
  "spares p n x \<longleftrightarrow> x_rows x = 1 \<and> x_user x = 0 \<and>
     (\<forall>b. unat (b - p) < n \<longrightarrow> \<not> unat (b - x_dst x) < unat (x_size x)) \<and>
     (\<forall>b. unat (b - p) < n \<longrightarrow> \<not> unat (b - x_src x) < unat (x_size x))"

lemma exec_1d:
  "unicast sys \<Longrightarrow> x_rows x = 1 \<Longrightarrow> x_user x = 0 \<Longrightarrow>
     dma_exec sys x m = copy_bytes (x_dst x) (x_src x) (unat (x_size x)) m"
  by (simp add: dma_exec_copy)

lemma exec_fill_commute:
  assumes "unicast sys" "spares p n x"
  shows "dma_exec sys x (fill p n v m) = fill p n v (dma_exec sys x m)"
proof
  fix b
  have 1: "unat (b - x_dst x) < unat (x_size x) \<Longrightarrow> \<not> unat (b - p) < n"
    using assms(2) by (auto simp: spares_def)
  have "\<not> unat (x_src x + (b - x_dst x) - p) < n" if "unat (b - x_dst x) < unat (x_size x)"
    using assms(2) that
    by (metis (no_types, opaque_lifting) add_diff_cancel_left' spares_def)
  then show "dma_exec sys x (fill p n v m) b = fill p n v (dma_exec sys x m) b"
    using assms 1 by (auto simp: exec_1d spares_def fill_def copy_bytes_def)
qed

lemma settle_fill:
  assumes "unicast sys" "\<forall>x\<in>set xs. spares p n x"
  shows "fold (dma_exec sys) xs (fill p n v m) = fill p n v (fold (dma_exec sys) xs m)"
  using assms(2) by (induction xs arbitrary: m) (simp_all add: exec_fill_commute [OF assms(1)])

lemma settled_start_1d:
  assumes "unicast sys" "dm_user s = 0"
  shows "settled sys (snd (snrt_dma_start_1d dst src n 0 s)) = copy_bytes dst src (unat n) (settled sys s)"
  using assms by (simp add: settled_def start_1d_queues exec_1d)

text \<open>A wait leaves the settled memory, and uses one event on the channel per transfer.\<close>

lemma wait_all_count:
  assumes "only_channel 0 s" "snrt_dma_wait_all sys 0 evs s = Some (post, s')"
  shows "count_list evs 0 \<le> count_list post 0 + length (dm_pending s 0)"
  using assms
proof (induction evs arbitrary: s)
  case Nil
  then show ?case by simp
next
  case (Cons e evs)
  note st = snrt_dma_wait_all.simps [of sys 0 "e # evs" s] dmstati_simps(3) [of 0, simplified]
  show ?case
  proof (cases "dm_pending s 0")
    case Nil
    then show ?thesis using Cons.prems(2) by (simp add: st)
  next
    case (Cons x xs)
    have IH: "count_list evs 0 \<le> count_list post 0 + length (dm_pending (dma_event sys e s) 0)"
      using Cons.IH [OF only_channel_event [OF Cons.prems(1)]] Cons.prems(2) Cons by (simp add: st)
    show ?thesis
    proof (cases "e = 0")
      case True
      then show ?thesis using IH Cons by (simp add: dma_event_busy)
    next
      case False
      then show ?thesis using IH Cons.prems(1) by (simp add: only_channel_def dma_event_idle)
    qed
  qed
qed

lemma wait_settles:
  assumes "only_channel 0 s" "length (dm_pending s 0) \<le> count_list evs 0"
  shows "\<exists>post s'. snrt_dma_wait_all sys 0 evs s = Some (post, s') \<and> dm_mem s' = settled sys s \<and>
    (\<forall>c. dm_pending s' c = []) \<and> dm_user s' = dm_user s \<and>
    count_list evs 0 \<le> count_list post 0 + length (dm_pending s 0)"
  using wait_all_returns [of 0 s evs sys] wait_all_count [OF assms(1)] assms
  by (fastforce simp: settled_def)

lemma set_bytes_fill: "unat p + n \<le> 2 ^ 32 \<Longrightarrow> set_bytes p v n m = fill (ucast p) n v m"
  by (rule ext) (simp add: set_bytes_at fill_def)

text \<open>The facts that the steps of the initialisation keep.\<close>

definition dma_ready :: "dma_state \<Rightarrow> bool" where
  "dma_ready s \<longleftrightarrow> only_channel 0 s \<and> dm_user s = 0"

lemma memset_settles:
  assumes "unicast sys" "dma_ready s" "unat p + unat n \<le> 2 ^ 32"
    "\<forall>x\<in>set (dm_pending s 0). spares (ucast p) (unat n) x"
    "length (dm_pending s 0) < count_list evs 0"
  shows "\<exists>post s'. snrt_dma_memset sys p v n evs s = Some (post, s') \<and> dma_ready s' \<and>
    settled sys s' = fill (ucast p) (unat n) v (settled sys s) \<and>
    set (dm_pending s' 0) \<subseteq> set (dm_pending s 0) \<and>
    count_list evs 0 + length (dm_pending s' 0) \<le> count_list post 0 + length (dm_pending s 0) + 1"
proof (cases "n mod 64 = 0 \<and> n > 64")
  case False
  let ?s = "s\<lparr>dm_mem := set_bytes p v (unat n) (dm_mem s)\<rparr>"
  have "snrt_dma_memset sys p v n evs s = Some (evs, ?s)"
    using False by (auto simp: snrt_dma_memset_def Let_def)
  moreover have "settled sys ?s = fill (ucast p) (unat n) v (settled sys s)"
    using assms by (simp add: settled_def set_bytes_fill settle_fill)
  ultimately show ?thesis using assms(2) by (auto simp: dma_ready_def only_channel_def)
next
  case True
  define k where "k = unat n div 64"
  define s1 where "s1 = s\<lparr>dm_mem := set_bytes p v 64 (dm_mem s)\<rparr>"
  define x where "x = \<lparr>x_src = ucast p, x_dst = ucast p, x_size = 64 :: u32, x_sstr = 0, x_dstr = of_nat 64 :: u64,
      x_rows = k, x_user = 0\<rparr>"
  define s2 where "s2 = snd (snrt_dma_start_2d_ptr p p 64 64 0 (n div 64) 0 s1)"
  have "unat (n mod 64) = 0" using True by simp
  then have "unat n mod 64 = 0" by (simp only: unat_mod) simp
  moreover have "64 < unat n" using True by (simp add: word_less_nat_alt)
  ultimately have k: "k * 64 = unat n" "1 < k" by (auto simp: k_def)
  have s2: "dm_pending s2 = (dm_pending s)(0 := dm_pending s 0 @ [x])" "dm_mem s2 = dm_mem s1"
    "dm_user s2 = 0"
    using assms(2) by (simp_all add: s2_def s1_def x_def dma_ready_def snrt_dma_start_2d_ptr_def
        start_2d_queues unat_div k_def)
  have oc: "only_channel 0 s2" using assms(2) s2 by (auto simp: dma_ready_def only_channel_def)
  have "\<forall>y\<in>set (dm_pending s 0). spares (ucast p) 64 y"
    using assms(4) \<open>64 < unat n\<close> by (auto simp: spares_def)
  then have "settled sys s2 = dma_exec sys x (set_bytes p v 64 (settled sys s))"
    using k assms(3) by (simp add: settled_def s2 s1_def set_bytes_fill settle_fill [OF assms(1)])
  also have "\<dots> = fill (ucast p) (unat n) v (settled sys s)"
    unfolding x_def using memset_dma [OF assms(1), of p k v "settled sys s"] k assms(3)
    by (intro ext) (simp add: fill_def k)
  finally have st: "settled sys s2 = fill (ucast p) (unat n) v (settled sys s)" .
  obtain post s' where w: "snrt_dma_wait_all sys 0 evs s2 = Some (post, s')" "dm_mem s' = settled sys s2"
      "\<forall>c. dm_pending s' c = []" "dm_user s' = 0"
      "count_list evs 0 \<le> count_list post 0 + length (dm_pending s2 0)"
    using wait_settles [OF oc, of evs sys] assms(5) s2 by auto
  have "\<not> n < 64" using True by auto
  then have "snrt_dma_memset sys p v n evs s = Some (post, s')"
    using True w(1) by (simp add: snrt_dma_memset_def Let_def case_prod_unfold s2_def s1_def)
  then show ?thesis using w st s2 by (auto simp: dma_ready_def only_channel_def settled_def)
qed

section \<open>The loops over the cores\<close>

lemma copies_settle:
  assumes "unicast sys" "dma_ready s"
  shows "dma_ready (fold (tls_copy tp off n) ns s) \<and>
    dm_pending (fold (tls_copy tp off n) ns s) 0 = dm_pending s 0 @
      map (\<lambda>i. \<lparr>x_src = ucast tp, x_dst = ucast (tp + of_nat i * off), x_size = n, x_sstr = dm_sstr s,
        x_dstr = dm_dstr s, x_rows = 1, x_user = 0\<rparr>) ns \<and>
    settled sys (fold (tls_copy tp off n) ns s) =
      fold (\<lambda>i. copy_bytes (ucast (tp + of_nat i * off)) (ucast tp) (unat n)) ns (settled sys s)"
  using assms(2)
proof (induction ns arbitrary: s)
  case (Cons i ns)
  define s1 where "s1 = tls_copy tp off n i s"
  have "dma_ready s1" using Cons.prems
    by (auto simp: s1_def tls_copy_def start_1d_queues dma_ready_def only_channel_def)
  moreover have "settled sys s1 = copy_bytes (ucast (tp + of_nat i * off)) (ucast tp) (unat n) (settled sys s)"
    using settled_start_1d [OF assms(1)] Cons.prems by (simp add: s1_def tls_copy_def dma_ready_def)
  moreover have "dm_pending s1 0 = dm_pending s 0 @ [\<lparr>x_src = ucast tp, x_dst = ucast (tp + of_nat i * off),
      x_size = n, x_sstr = dm_sstr s, x_dstr = dm_dstr s, x_rows = 1, x_user = 0\<rparr>]"
    "dm_sstr s1 = dm_sstr s" "dm_dstr s1 = dm_dstr s"
    using Cons.prems by (simp_all add: s1_def tls_copy_def start_1d_queues dma_ready_def queue_xfer_def)
  ultimately show ?case using Cons.IH [of s1] by (simp add: s1_def)
qed simp

lemma memsets_settle:
  assumes "unicast sys" "dma_ready s"
    "\<And>i. i \<in> set ns \<Longrightarrow> unat (tp + of_nat i * off) + unat n \<le> 2 ^ 32"
    "\<And>i x. i \<in> set ns \<Longrightarrow> x \<in> set (dm_pending s 0) \<Longrightarrow> spares (ucast (tp + of_nat i * off)) (unat n) x"
    "length (dm_pending s 0) + length ns \<le> count_list evs 0"
  shows "\<exists>post s'. tls_memsets sys tp off n ns evs s = Some (post, s') \<and> dma_ready s' \<and>
    settled sys s' = fold (\<lambda>i. fill (ucast (tp + of_nat i * off)) (unat n) 0) ns (settled sys s) \<and>
    length (dm_pending s' 0) \<le> count_list post 0"
  using assms(2-5)
proof (induction ns arbitrary: s evs)
  case (Cons i ns)
  obtain post1 s1 where 1: "snrt_dma_memset sys (tp + of_nat i * off) 0 n evs s = Some (post1, s1)"
      "dma_ready s1" "settled sys s1 = fill (ucast (tp + of_nat i * off)) (unat n) 0 (settled sys s)"
      "set (dm_pending s1 0) \<subseteq> set (dm_pending s 0)"
      "count_list evs 0 + length (dm_pending s1 0) \<le> count_list post1 0 + length (dm_pending s 0) + 1"
    using memset_settles [OF assms(1) Cons.prems(1) Cons.prems(2) [of i], of evs 0] Cons.prems(3) [of i]
      Cons.prems(4) by auto
  have "\<exists>post s'. tls_memsets sys tp off n ns post1 s1 = Some (post, s') \<and> dma_ready s' \<and>
    settled sys s' = fold (\<lambda>i. fill (ucast (tp + of_nat i * off)) (unat n) 0) ns (settled sys s1) \<and>
    length (dm_pending s' 0) \<le> count_list post 0"
  proof (rule Cons.IH [OF 1(2)])
    show "length (dm_pending s1 0) + length ns \<le> count_list post1 0"
      using 1(5) Cons.prems(4) by simp
  qed (use Cons.prems(2,3) 1(4) in auto)
  then show ?case using 1 by simp
qed (auto simp: add_increasing)

section \<open>Memory rows\<close>

lemma fold_fill_rows:
  assumes "n \<le> D" "0 < D" "N * D \<le> 2 ^ 64"
  shows "fold (\<lambda>i. fill (q + of_nat (i * D)) n v) [0..<N] m b =
    (if in_rows D n 0 N (unat (b - q)) then v else m b)"
  using assms(3)
proof (induction N)
  case (Suc N)
  have "N * D + n \<le> 2 ^ 64" using Suc.prems assms(1) by simp
  from row_offset(1) [OF assms(1,2) this, of b q] show ?case
    using Suc by (auto simp: fill_def in_rows_def)
qed (simp add: in_rows_def)

text \<open>
  Offsets in a region of \<open>N\<close> rows of \<open>D\<close> bytes from \<open>t\<close>, of which the first \<open>a\<close> and the next
  \<open>n\<close> bytes are in use.
\<close>

definition rows_fit :: "nat \<Rightarrow> nat \<Rightarrow> nat \<Rightarrow> nat \<Rightarrow> bool" where
  "rows_fit N D a n \<longleftrightarrow> a + n \<le> D \<and> 0 < D \<and> N * D \<le> 4294967296 \<and> 0 < N"

lemma in_rows_at: "j < D \<Longrightarrow> in_rows D n k N (i * D + j) \<longleftrightarrow> k \<le> i \<and> i < N \<and> j < n"
  by (simp add: in_rows_def)

lemma off_in:
  assumes "rows_fit N D a n" and ij: "i < N" "j < D"
  shows "unat (t + of_nat (i * D + j) - t :: u64) = i * D + j"
proof -
  have ND: "N * D \<le> 4294967296" using assms(1) by (simp add: rows_fit_def)
  from ij have "Suc i * D \<le> N * D" by (intro mult_right_mono) simp_all
  then show ?thesis using ij ND by (simp add: unat_of_nat_u64 del: of_nat_add of_nat_mult)
qed

lemma off_tdata: "rows_fit N D a n \<Longrightarrow> i < N \<Longrightarrow> j < D \<Longrightarrow>
   in_rows D a k N (unat (t + of_nat (i * D + j) - t :: u64)) \<longleftrightarrow> k \<le> i \<and> j < a"
  by (subst off_in) (auto simp: in_rows_def)

lemma off_tbss:
  assumes fit: "rows_fit N D a n" and ij: "i < N" "j < D"
  shows "in_rows D n 0 N (unat (t + of_nat (i * D + j) - (t + of_nat a) :: u64)) \<longleftrightarrow> a \<le> j \<and> j < a + n"
proof -
  have an: "a + n \<le> D" and D0: "0 < D" and ND: "N * D \<le> 4294967296" and N0: "0 < N"
    using fit by (simp_all add: rows_fit_def)
  have le: "Suc i * D \<le> N * D" using ij by (intro mult_right_mono) simp_all
  consider "a \<le> j" | "j < a" "0 < i" | "j < a" "i = 0" by force
  then show ?thesis
  proof cases
    case 1
    then have "t + of_nat (i * D + j) - (t + of_nat a) = of_nat (i * D + (j - a))"
      by (simp add: of_nat_diff)
    then have "unat (t + of_nat (i * D + j) - (t + of_nat a)) = i * D + (j - a)"
      using le ND ij by (simp add: unat_of_nat_u64 del: of_nat_add of_nat_mult)
    moreover have "j - a < D" using ij by simp
    ultimately show ?thesis using 1 ij in_rows_at [of "j - a" D n 0 N i] by auto
  next
    case 2
    then obtain k where k: "i = Suc k" by (cases i) auto
    have "t + of_nat (i * D + j) - (t + of_nat a) = of_nat (k * D + (D + j - a))"
      using 2 k an by (simp add: of_nat_diff algebra_simps)
    moreover have "D + j - a < D" using 2 D0 by linarith
    ultimately have "unat (t + of_nat (i * D + j) - (t + of_nat a)) = k * D + (D + j - a)"
      using le ND k by (simp add: unat_of_nat_u64 del: of_nat_add of_nat_mult)
    then show ?thesis using 2 an in_rows_at [OF \<open>D + j - a < D\<close>, of n 0 N k] by auto
  next
    case 3
    let ?w = "of_nat a - of_nat j :: u64"
    have "D \<le> N * D" using N0 by simp
    then have "a \<le> N * D" using an by linarith
    then have w: "unat ?w = a - j" using 3 ND by (simp add: unat_sub_exact unat_of_nat_u64)
    have "t + of_nat (i * D + j) - (t + of_nat a) = - ?w" using 3 by simp
    moreover have "unat (- ?w) = 2 ^ 64 - (a - j)"
      using w 3 unat_sub_if' [of 0 ?w] by simp
    ultimately have u: "unat (t + of_nat (i * D + j) - (t + of_nat a)) = 2 ^ 64 - (a - j)" by simp
    have "\<not> in_rows D n 0 N (2 ^ 64 - (a - j))"
    proof
      assume "in_rows D n 0 N (2 ^ 64 - (a - j))"
      then have "2 ^ 64 - (a - j) < (N - 1) * D + n" by (rule in_rows_bound)
      also have "\<dots> \<le> N * D" using an N0 by (cases N) simp_all
      finally show False using ND \<open>a \<le> N * D\<close> by simp
    qed
    then show ?thesis using 3 u by simp
  qed
qed

lemma tls_memory:
  fixes t src :: u64 and m :: mem and N D a n i j :: nat
  assumes "i < N" "j < D" and fit: "rows_fit N D a n"
  defines "m' \<equiv> fold (\<lambda>i. fill (t + of_nat a + of_nat (i * D)) n 0) [0..<N]
      (fold (\<lambda>i. copy_bytes (t + of_nat (i * D)) t a) [1..<N] (copy_bytes t src a m))"
  shows "m' (t + of_nat (i * D + j)) =
    (if j < a then m (src + of_nat j) else if j < a + n then 0 else m (t + of_nat (i * D + j)))"
proof -
  have an: "a + n \<le> D" and D0: "0 < D" and ND: "N * D \<le> 4294967296" and N0: "0 < N"
    using fit by (simp_all add: rows_fit_def)
  let ?b = "t + of_nat (i * D + j)"
  let ?m1 = "copy_bytes t src a m"
  have N64: "N * D \<le> 2 ^ 64" using ND by simp
  have j64: "j < 18446744073709551616"
  proof -
    have "Suc i * D \<le> N * D" using assms by (intro mult_right_mono) simp_all
    then show ?thesis using assms(2) ND by simp
  qed
  have "fold (\<lambda>i. copy_bytes (t + of_nat i * of_nat D) (t + of_nat i * 0) a) [1..<N] ?m1 ?b =
      (if in_rows D a 1 N (unat (?b - t))
       then ?m1 (t + of_nat (unat (?b - t) div D) * 0 + of_nat (unat (?b - t) mod D)) else ?m1 ?b)"
  proof (rule copy_rows)
    fix r k assume "k < a"
    moreover have "k < 18446744073709551616" if "k < D" for k
      using that ND N0 by (cases N) auto
    ultimately show "\<not> in_rows D a 1 N (unat (t + of_nat r * 0 + of_nat k - t))"
      using an by (simp add: in_rows_def unat_of_nat_u64)
  qed (use an D0 N64 N0 in auto)
  then have f: "fold (\<lambda>i. copy_bytes (t + of_nat (i * D)) t a) [1..<N] ?m1 ?b =
      (if 1 \<le> i \<and> j < a then ?m1 (t + of_nat j) else ?m1 ?b)"
    using assms(1,2) in_rows_at [OF assms(2), of a 1 N i]
    unfolding off_tdata [OF fit assms(1,2)] off_in [OF fit assms(1,2)] by simp
  have 1: "?m1 (t + of_nat j) = m (src + of_nat j)" if "j < a"
    using that j64 by (intro copy_bytes_offset) simp_all
  have 2: "?m1 ?b = (if i = 0 \<and> j < a then m (src + of_nat j) else m ?b)"
  proof (cases "i = 0")
    case False
    then have "\<not> i * D + j < a" using an D0 by (cases i) auto
    then show ?thesis using False off_in [OF fit assms(1,2)] by (simp add: copy_bytes_def)
  qed (use 1 j64 in \<open>auto simp: copy_bytes_def unat_of_nat_u64\<close>)
  have "m' ?b = (if in_rows D n 0 N (unat (?b - (t + of_nat a))) then 0
      else fold (\<lambda>i. copy_bytes (t + of_nat (i * D)) t a) [1..<N] ?m1 ?b)"
    unfolding m'_def by (rule fold_fill_rows) (use an D0 N64 in auto)
  also have "\<dots> = (if a \<le> j \<and> j < a + n then 0 else if j < a then m (src + of_nat j) else m ?b)"
    unfolding off_tbss [OF fit assms(1,2)] f 2 using 1 by auto
  finally show ?thesis by auto
qed

section \<open>Thread pointers\<close>

lemma unat_and_not7: "unat ((x :: u32) AND NOT 7) = unat x - unat x mod 8"
proof -
  have 7: "(7 :: u32) = mask 3" by (simp add: mask_eq_exp_minus_1)
  have "x AND NOT 7 = push_bit 3 (drop_bit 3 x)"
    unfolding 7 by (rule bit_word_eqI) (auto simp: bit_simps bit_mask_iff)
  also have "\<dots> = 8 * (x div 8)" by (simp add: push_bit_eq_mult drop_bit_eq_div)
  finally have "unat (x AND NOT 7) = 8 * (unat x div 8)"
    using unat_u32_bound [of x] by (subst (asm) word_unat_eq_iff)
      (simp add: unat_mult_exact unat_div order_le_less_trans [OF times_div_less_eq_dividend])
  then show ?thesis by (simp add: minus_mod_eq_mult_div)
qed

lemma round_down_shift:
  assumes "(D :: nat) mod 8 = 0"
  shows "x + m * D - (x + m * D) mod 8 = x - x mod 8 + m * D"
proof -
  obtain k where "D = 8 * k" using assms by auto
  then have "(x + m * D) mod 8 = x mod 8" by (simp add: mult.left_commute [of m 8])
  then show ?thesis by simp
qed

lemma stack_slot_mod8: "3 \<le> L \<Longrightarrow> (2 ^ L + 8 :: nat) mod 8 = 0"
proof -
  assume "3 \<le> L"
  then obtain k where "L = k + 3" by (metis add.commute le_iff_add)
  then show ?thesis by (simp add: power_add)
qed

text \<open>The data mover is the last core: its thread pointer is the lowest, the others follow at a fixed distance.\<close>

lemma unat_tp_of:
  assumes "cfg_wf c" "h \<in> harts c" "h' \<in> harts c" "stacks_fit c ld h"
    "snrt_cluster_idx c h' = snrt_cluster_idx c h" "3 \<le> SNRT_LOG2_STACK_SIZE c" "SNRT_LOG2_STACK_SIZE c < 32"
    "unat (tdata_size ld) + unat (tbss_size ld) \<le> 2 ^ SNRT_LOG2_STACK_SIZE c + 8"
    "snrt_cluster_core_idx c h = SNRT_CLUSTER_CORE_NUM c - 1"
  shows "unat (tp_of c ld h') = unat (tp_of c ld h) +
    (unat (SNRT_CLUSTER_CORE_NUM c) - 1 - unat (snrt_cluster_core_idx c h')) * (2 ^ SNRT_LOG2_STACK_SIZE c + 8)"
  and "unat (tp_of c ld h) + (unat (SNRT_CLUSTER_CORE_NUM c) - 1) * (2 ^ SNRT_LOG2_STACK_SIZE c + 8) +
    unat (tdata_size ld) + unat (tbss_size ld) < 2 ^ 32"
proof -
  define N D A where "N = unat (SNRT_CLUSTER_CORE_NUM c)" and "D = (2 ^ SNRT_LOG2_STACK_SIZE c + 8 :: nat)"
    and "A = unat (tdata_size ld) + unat (tbss_size ld)"
  define K where "K = tcdm_top c h - 8 - cls_size ld - A"
  have f: "tcdm_top c h < 4294967296" "cls_size ld + 136 + D * N \<le> tcdm_top c h"
    using assms(4) by (simp_all add: stacks_fit_def N_def D_def)
  have AD: "A \<le> D" using assms(8) by (simp add: A_def D_def)
  have N0: "0 < N" using assms(1) by (simp add: cfg_wf_def N_def)
  then have DN: "D * N = D * (N - 1) + D" by (cases N) simp_all
  have K: "K + 8 + cls_size ld + A = tcdm_top c h" "D * (N - 1) \<le> K"
    using f(2) AD DN by (simp_all add: K_def)
  have tp: "unat (tp_of c ld g) = K - D * i - (K - D * i) mod 8"
    if "g \<in> harts c" "snrt_cluster_idx c g = snrt_cluster_idx c h" "i = unat (snrt_cluster_core_idx c g)" for g i
  proof -
    have "i < N" using idx_bounds(2) [OF assms(1) that(1)] that(3) by (simp add: N_def)
    then have "D * i \<le> D * (N - 1)" by (intro mult_left_mono) simp_all
    moreover have "unat (stack_start c ld g) + 8 + cls_size ld + D * i = tcdm_top c h"
      using unat_stack_start [OF assms(1,2) that(1) assms(4) that(2) assms(7)] that(3) by (simp add: D_def)
    ultimately have "unat (stack_start c ld g) = K - D * i + A" using K by linarith
    then have "unat (stack_start c ld g - tdata_size ld - tbss_size ld) = K - D * i"
      by (simp add: unat_sub_exact A_def)
    then show ?thesis unfolding tp_of_def unat_and_not7 by simp
  qed
  have last: "unat (snrt_cluster_core_idx c h) = N - 1"
    using assms(9) N0 by (simp add: N_def unat_sub_exact Suc_le_eq)
  have T: "unat (tp_of c ld h) = K - D * (N - 1) - (K - D * (N - 1)) mod 8"
    by (rule tp [OF assms(2) refl last [symmetric]])
  define i where "i = unat (snrt_cluster_core_idx c h')"
  have "i < N" using idx_bounds(2) [OF assms(1,3)] by (simp add: N_def i_def)
  then have "N - 1 = i + (N - 1 - i)" by simp
  then have "D * (N - 1) = D * i + (N - 1 - i) * D" by (metis add_mult_distrib2 mult.commute)
  then have "K - D * i = K - D * (N - 1) + (N - 1 - i) * D" using K(2) by linarith
  then have "unat (tp_of c ld h') = unat (tp_of c ld h) + (N - 1 - i) * D"
    unfolding T tp [OF assms(3,5) i_def]
    using round_down_shift [OF stack_slot_mod8 [OF assms(6)], of "K - D * (N - 1)" "N - 1 - i"]
    by (simp add: D_def)
  then show "unat (tp_of c ld h') = unat (tp_of c ld h) +
    (unat (SNRT_CLUSTER_CORE_NUM c) - 1 - unat (snrt_cluster_core_idx c h')) * (2 ^ SNRT_LOG2_STACK_SIZE c + 8)"
    by (simp only: N_def D_def i_def)
  have "unat (tp_of c ld h) \<le> K - D * (N - 1)" unfolding T by simp
  then have "unat (tp_of c ld h) + (N - 1) * D + A \<le> K + A"
    using K(2) by (simp add: mult.commute [of D])
  then have "unat (tp_of c ld h) + (N - 1) * D + unat (tdata_size ld) + unat (tbss_size ld) < 2 ^ 32"
    using K(1) f(1) by (simp add: A_def)
  then show "unat (tp_of c ld h) + (unat (SNRT_CLUSTER_CORE_NUM c) - 1) * (2 ^ SNRT_LOG2_STACK_SIZE c + 8) +
    unat (tdata_size ld) + unat (tbss_size ld) < 2 ^ 32"
    by (simp only: N_def D_def)
qed

section \<open>Initialisation of the thread-local storage\<close>

lemma tls_memory_outside:
  fixes t src :: u64 and m :: mem and N D a n :: nat
  assumes fit: "rows_fit N D a n" and out: "N * D \<le> unat (b - t)"
  shows "fold (\<lambda>i. fill (t + of_nat a + of_nat (i * D)) n 0) [0..<N]
      (fold (\<lambda>i. copy_bytes (t + of_nat (i * D)) t a) [1..<N] (copy_bytes t src a m)) b = m b"
proof -
  have an: "a + n \<le> D" "0 < D" "N * D \<le> 4294967296" "0 < N" using fit by (simp_all add: rows_fit_def)
  then have D: "D \<le> N * D" by simp
  have "copy_bytes (t + of_nat (i * D)) t a m' b = m' b" if "i < N" for i m'
  proof -
    have "Suc i * D \<le> N * D" using that by (intro mult_right_mono) simp_all
    then have le: "unat (of_nat (i * D) :: u64) + a \<le> unat (b - t)" "unat (of_nat (i * D) :: u64) = i * D"
      using out an by (simp_all add: unat_of_nat_u64 del: of_nat_mult)
    have eq: "b - (t + of_nat (i * D)) = (b - t) - of_nat (i * D)" by (simp add: algebra_simps)
    have "unat (b - (t + of_nat (i * D))) = unat (b - t) - i * D"
      unfolding eq using le by (subst unat_sub_exact) simp_all
    then have "\<not> unat (b - (t + of_nat (i * D))) < a" using le by linarith
    then show ?thesis by (rule copy_bytes_out)
  qed
  then have "fold (\<lambda>i. copy_bytes (t + of_nat (i * D)) t a) xs m' b = m' b" if "set xs \<subseteq> {..<N}" for xs m'
    using that by (induction xs arbitrary: m') simp_all
  moreover have "set [1..<N] \<subseteq> {..<N}" by auto
  ultimately have 1: "fold (\<lambda>i. copy_bytes (t + of_nat (i * D)) t a) [1..<N] m' b = m' b" for m'
    by blast
  have "\<not> unat (b - t) < a" using out an D by linarith
  then have 2: "copy_bytes t src a m b = m b" by (rule copy_bytes_out)
  have eq: "b - (t + of_nat a) = (b - t) - of_nat a" by (simp add: algebra_simps)
  have "unat (b - (t + of_nat a)) = unat (b - t) - a"
  proof -
    have "a \<le> unat (b - t)" "a < 18446744073709551616" using out an D by linarith+
    then show ?thesis unfolding eq by (subst unat_sub_exact) (simp_all add: unat_of_nat_u64)
  qed
  moreover have "(N - 1) * D + n + a \<le> N * D" using an by (cases N) simp_all
  ultimately have "\<not> in_rows D n 0 N (unat (b - (t + of_nat a)))"
    using out in_rows_bound [of D n 0 N "unat (b - (t + of_nat a))"] by linarith
  then show ?thesis
    using fold_fill_rows [of n D N "t + of_nat a"] an 1 2 by simp
qed

lemma row_spares:
  assumes fit: "rows_fit N D a n" and i: "i < N" and k: "k < N"
    and x: "x_rows x = 1" "x_user x = 0" "unat (x_size x) = a"
      "x_dst x = t + of_nat (i * D)" "x_src x = t"
  shows "spares (t + of_nat (a + k * D)) n x"
proof -
  have an: "a + n \<le> D" using fit by (simp add: rows_fit_def)
  have "\<not> unat (b - (t + of_nat (r * D))) < a" if "unat (b - (t + of_nat (a + k * D))) < n" "r < N" for b r
  proof
    define j j' where "j = unat (b - (t + of_nat (a + k * D)))" and "j' = unat (b - (t + of_nat (r * D)))"
    assume "unat (b - (t + of_nat (r * D))) < a"
    then have j: "j < n" "j' < a" using that(1) by (simp_all only: j_def j'_def)
    then have lt: "a + j < D" "j' < D" using an by linarith+
    have "of_nat j = b - (t + of_nat (a + k * D))" "of_nat j' = b - (t + of_nat (r * D))"
      by (simp_all add: j_def j'_def)
    then have b: "b = t + of_nat (k * D + (a + j))" "b = t + of_nat (r * D + j')"
      by (simp_all add: algebra_simps)
    have "k * D + (a + j) = r * D + j'"
      using off_in [OF fit k lt(1), of t] off_in [OF fit that(2) lt(2), of t] b by metis
    then have "in_rows D a 0 N (k * D + (a + j)) = in_rows D a 0 N (r * D + j')" by simp
    then show False using in_rows_at [OF lt(1)] in_rows_at [OF lt(2)] k that(2) j by simp
  qed
  from this [of _ 0] this [of _ i] i k show ?thesis using x by (auto simp: spares_def)
qed

lemma ucast_row:
  assumes "unat (off :: u32) = D" "unat tp + i * D < 4294967296"
  shows "(ucast (tp + of_nat i * off) :: u64) = ucast tp + of_nat (i * D)"
    and "unat (tp + of_nat i * off) = unat tp + i * D"
proof -
  have "of_nat i * off = (of_nat (i * D) :: u32)" by (simp flip: assms(1))
  then show "(ucast (tp + of_nat i * off) :: u64) = ucast tp + of_nat (i * D)"
    "unat (tp + of_nat i * off) = unat tp + i * D"
    using assms(2) ucast_u32_u64_of_nat [of tp "i * D"] unat_add_exact [of tp "of_nat (i * D)"]
    by (simp_all add: unat_of_nat_u32 del: of_nat_mult)
qed

text \<open>The work of the data mover core, with \<open>N\<close> cores whose storage lies \<open>D\<close> bytes apart.\<close>

lemma init_tls_settles:
  assumes sys: "unicast sys" and s: "\<forall>ch. dm_pending s ch = []" "dm_user s = 0"
    and dm: "snrt_is_dm_core c h" and L: "SNRT_LOG2_STACK_SIZE c < 31"
    and D: "D = 2 ^ SNRT_LOG2_STACK_SIZE c + 8" and N: "N = unat (SNRT_CLUSTER_CORE_NUM c)"
    and a: "a = unat (tdata_size ld)" and n: "n = unat (tbss_size ld)"
    and fit: "rows_fit N D a n" and top: "unat (tp_of c ld h) + (N - 1) * D + a + n < 2 ^ 32"
    and evs: "2 * N \<le> count_list evs 0"
  defines "t \<equiv> ucast (tp_of c ld h) :: u64"
  shows "\<exists>post s'. snrt_init_tls sys c ld h evs s = Some (post, s') \<and> (\<forall>ch. dm_pending s' ch = []) \<and>
    dm_user s' = 0 \<and>
    dm_mem s' = fold (\<lambda>i. fill (t + of_nat a + of_nat (i * D)) n 0) [0..<N]
      (fold (\<lambda>i. copy_bytes (t + of_nat (i * D)) t a) [1..<N]
        (copy_bytes t (ucast (tdata_start ld)) a (dm_mem s)))"
proof -
  define tp sz off where "tp = tp_of c ld h" and "sz = tdata_end ld - tdata_start ld"
    and "off = push_bit (SNRT_LOG2_STACK_SIZE c) (1 :: u32) + 8"
  have N0: "0 < N" "a + n \<le> D" "N * D \<le> 4294967296" using fit by (simp_all add: rows_fit_def)
  have sz: "unat sz = a" "tbss_end ld - tbss_start ld = tbss_size ld"
    by (simp_all add: a sz_def tdata_size_def tbss_size_def)
  have "(2 :: nat) ^ SNRT_LOG2_STACK_SIZE c < 2 ^ 31" using L by (intro power_strict_increasing) simp_all
  then have off: "unat off = D"
    unfolding off_def D using unat_shift_stack [of 1 "SNRT_LOG2_STACK_SIZE c"] L
    by (subst unat_add_exact) simp_all
  have row: "i * D \<le> (N - 1) * D" if "i < N" for i using that by (intro mult_right_mono) simp_all
  define s1 where "s1 = snd (snrt_dma_start_1d (ucast tp) (ucast (tdata_start ld)) sz 0 s)"
  have "only_channel 0 s1" "length (dm_pending s1 0) = 1"
    using s by (simp_all add: s1_def start_1d_queues only_channel_def)
  then obtain e1 s2 where 2: "snrt_dma_wait_all sys 0 evs s1 = Some (e1, s2)" "dm_mem s2 = settled sys s1"
      "\<forall>ch. dm_pending s2 ch = []" "dm_user s2 = dm_user s1" "count_list evs 0 \<le> count_list e1 0 + 1"
    using wait_settles [of s1 evs sys] evs N0 by auto
  have r2: "dma_ready s2" using 2 s by (simp add: dma_ready_def only_channel_def s1_def start_1d_queues)
  have m2: "settled sys s2 = copy_bytes t (ucast (tdata_start ld)) a (dm_mem s)"
    using 2 s settled_start_1d [OF sys s(2), of "ucast tp" "ucast (tdata_start ld)" sz]
    by (simp add: settled_def s1_def sz t_def tp_def)
  define s3 where "s3 = fold (tls_copy tp off sz) [1..<N] s2"
  note 3 = copies_settle [OF sys r2, of tp off sz "[1..<N]", folded s3_def]
  have lt: "unat tp + i * D + a + n < 4294967296" if "i < N" for i
  proof -
    have "unat tp + (N - 1) * D + a + n < 4294967296" using top unfolding tp_def by (simp del: One_nat_def)
    with row [OF that] show ?thesis by linarith
  qed
  have tprow: "(ucast (tp + of_nat i * off) :: u64) = t + of_nat (i * D)" if "i < N" for i
    using ucast_row(1) [OF off, of tp i] lt [OF that] by (simp add: t_def tp_def)
  have "(ucast (tp + sz) :: u64) = t + of_nat a" "unat (tp + sz) = unat tp + a"
    using ucast_row [of 1 1 tp a] lt [OF N0(1)] sz(1) [symmetric] by (simp_all add: t_def tp_def)
  then have bssrow: "(ucast (tp + sz + of_nat i * off) :: u64) = t + of_nat (a + i * D)"
      "unat (tp + sz + of_nat i * off) = unat tp + a + i * D" if "i < N" for i
    using ucast_row [OF off, of "tp + sz" i] lt [OF that] by (simp_all add: add.assoc)
  have sp: "spares (ucast (tp + sz + of_nat i * off)) n x"
    if i: "i < N" and x: "x \<in> set (dm_pending s3 0)" for i x
  proof -
    obtain k where "k < N" "x_dst x = t + of_nat (k * D)" "x_src x = t" "unat (x_size x) = a"
        "x_rows x = 1" "x_user x = 0"
      using x 3 2(3) sz(1) tprow by (auto simp: t_def tp_def)
    then show ?thesis unfolding bssrow(1) [OF i] using row_spares [OF fit _ i] by blast
  qed
  have "\<exists>post s'. tls_memsets sys (tp + sz) off (tbss_size ld) [0..<N] e1 s3 = Some (post, s') \<and>
      dma_ready s' \<and> settled sys s' = fold (\<lambda>i. fill (ucast (tp + sz + of_nat i * off))
        (unat (tbss_size ld)) 0) [0..<N] (settled sys s3) \<and> length (dm_pending s' 0) \<le> count_list post 0"
  proof (rule memsets_settle [OF sys])
    show "dma_ready s3" using 3 by simp
    show "length (dm_pending s3 0) + length [0..<N] \<le> count_list e1 0"
      using 3 2(3,5) evs N0(1) by simp
    show "unat (tp + sz + of_nat i * off) + unat (tbss_size ld) \<le> 2 ^ 32" if "i \<in> set [0..<N]" for i
      using bssrow(2) [of i] lt [of i] that by (simp flip: n)
  qed (use sp in \<open>auto simp flip: n\<close>)
  then obtain e4 s4 where 4: "tls_memsets sys (tp + sz) off (tbss_size ld) [0..<N] e1 s3 = Some (e4, s4)"
      "dma_ready s4" "length (dm_pending s4 0) \<le> count_list e4 0"
      "settled sys s4 = fold (\<lambda>i. fill (ucast (tp + sz + of_nat i * off)) n 0) [0..<N] (settled sys s3)"
    unfolding n by blast
  then obtain e5 s5 where 5: "snrt_dma_wait_all sys 0 e4 s4 = Some (e5, s5)" "dm_mem s5 = settled sys s4"
      "\<forall>ch. dm_pending s5 ch = []" "dm_user s5 = dm_user s4"
    using wait_settles [of s4 e4 sys] by (auto simp: dma_ready_def)
  have "snrt_init_tls sys c ld h evs s = Some (e5, s5)"
    using dm 2(1) 4(1) 5(1)
    by (simp add: snrt_init_tls_def Let_def snrt_cluster_core_num_def sz(2)
      tp_def sz_def off_def N s1_def s3_def)
  moreover have "settled sys s3 = fold (\<lambda>i. copy_bytes (t + of_nat (i * D)) t a) [1..<N]
        (copy_bytes t (ucast (tdata_start ld)) a (dm_mem s))"
    using 3 tprow by (auto simp: m2 sz t_def tp_def intro!: fold_cong)
  moreover have "settled sys s4 = fold (\<lambda>i. fill (t + of_nat a + of_nat (i * D)) n 0) [0..<N] (settled sys s3)"
    unfolding 4(4)
  proof (rule fold_cong)
    fix i assume "i \<in> set [0..<N]"
    then show "fill (ucast (tp + sz + of_nat i * off)) n 0 = fill (t + of_nat a + of_nat (i * D)) n 0"
      using bssrow(1) [of i] by (simp add: add.assoc)
  qed simp_all
  ultimately show ?thesis using 5 4(2) by (auto simp: dma_ready_def)
qed

text \<open>
  C12: After \<open>snrt_init_tls\<close> on the data mover core of a cluster (the last core, one per
  cluster), the thread-local storage of every core of the cluster is initialised: the bytes at
  its thread pointer are the image of the \<open>.tdata\<close> section, those after it are zero, and no byte
  outside the thread-local storages has changed. The stacks must fit the TCDM and the storage
  of a core its stack slot.
\<close>

theorem init_tls_correct:
  assumes "cfg_wf c" "h \<in> harts c" "SNRT_CLUSTER_DM_CORE_NUM c = 1" "snrt_is_dm_core c h"
    "stacks_fit c ld h" "3 \<le> SNRT_LOG2_STACK_SIZE c" "SNRT_LOG2_STACK_SIZE c < 31"
    "unat (tdata_size ld) + unat (tbss_size ld) \<le> 2 ^ SNRT_LOG2_STACK_SIZE c + 8"
    "unicast sys" "\<forall>ch. dm_pending s ch = []" "dm_user s = 0"
    "2 * unat (SNRT_CLUSTER_CORE_NUM c) \<le> count_list evs 0"
  shows "\<exists>post s'. snrt_init_tls sys c ld h evs s = Some (post, s') \<and>
     (\<forall>h' \<in> harts c. snrt_cluster_idx c h' = snrt_cluster_idx c h \<longrightarrow>
        (\<forall>j < unat (tdata_size ld).
           dm_mem s' (ucast (tp_of c ld h') + of_nat j) = dm_mem s (ucast (tdata_start ld) + of_nat j)) \<and>
        (\<forall>j < unat (tbss_size ld).
           dm_mem s' (ucast (tp_of c ld h') + of_nat (unat (tdata_size ld) + j)) = 0)) \<and>
     (\<forall>b. (\<forall>h' \<in> harts c. snrt_cluster_idx c h' = snrt_cluster_idx c h \<longrightarrow>
             \<not> unat (b - ucast (tp_of c ld h')) < unat (tdata_size ld) + unat (tbss_size ld))
        \<longrightarrow> dm_mem s' b = dm_mem s b)"
proof -
  define N D a n where "N = unat (SNRT_CLUSTER_CORE_NUM c)"
    and "D = (2 ^ SNRT_LOG2_STACK_SIZE c + 8 :: nat)"
    and "a = unat (tdata_size ld)" and "n = unat (tbss_size ld)"
  note nd = N_def D_def a_def n_def
  define t where "t = (ucast (tp_of c ld h) :: u64)"
  have N0: "0 < N" using assms(1) by (simp add: cfg_wf_def N_def)
  have last: "unat (snrt_cluster_core_idx c h) = N - 1"
    using assms(1,3,4) idx_bounds(2) [OF assms(1,2)] N0
    by (simp add: snrt_is_dm_core_def snrt_is_compute_core_def word_less_nat_alt N_def
      snrt_cluster_compute_core_num_def snrt_cluster_core_num_def snrt_cluster_dm_core_num_def unat_sub_exact)
  then have last': "snrt_cluster_core_idx c h = SNRT_CLUSTER_CORE_NUM c - 1"
    using N0 by (simp add: word_unat_eq_iff unat_sub_exact N_def)
  have L: "SNRT_LOG2_STACK_SIZE c < 32" using assms(7) by simp
  note tp = unat_tp_of [OF assms(1,2) _ assms(5) _ assms(6) L assms(8) last', folded nd]
  have top: "unat (tp_of c ld h) + (N - 1) * D + a + n < 2 ^ 32" by (rule tp(2) [OF assms(2) refl])
  have ND: "N * D \<le> 4294967296"
    using assms(5) by (simp add: stacks_fit_def N_def D_def mult.commute)
  have fit: "rows_fit N D a n" using assms(8) N0 ND by (simp add: rows_fit_def nd)
  obtain post s' where r: "snrt_init_tls sys c ld h evs s = Some (post, s')"
      "dm_mem s' = fold (\<lambda>i. fill (t + of_nat a + of_nat (i * D)) n 0) [0..<N]
        (fold (\<lambda>i. copy_bytes (t + of_nat (i * D)) t a) [1..<N]
          (copy_bytes t (ucast (tdata_start ld)) a (dm_mem s)))"
    using init_tls_settles [OF assms(9-11,4,7) D_def N_def a_def n_def fit top] assms(12)
    unfolding t_def N_def by blast
  have mem: "dm_mem s' (t + of_nat (i * D + j)) = (if j < a then dm_mem s (ucast (tdata_start ld) + of_nat j)
      else if j < a + n then 0 else dm_mem s (t + of_nat (i * D + j)))" if "i < N" "j < D" for i j
    unfolding r(2) by (rule tls_memory [OF that fit])
  have base: "(ucast (tp_of c ld h') :: u64) = t + of_nat ((N - 1 - unat (snrt_cluster_core_idx c h')) * D)"
    if "h' \<in> harts c" "snrt_cluster_idx c h' = snrt_cluster_idx c h" for h'
  proof -
    let ?m = "(N - 1 - unat (snrt_cluster_core_idx c h')) * D"
    have eq: "unat (tp_of c ld h') = unat (tp_of c ld h) + ?m" by (rule tp(1) [OF that])
    then have lt: "unat (tp_of c ld h) + ?m < 4294967296" by (metis unat_u32_bound)
    then have "tp_of c ld h' = tp_of c ld h + of_nat ?m"
      using eq by (simp add: word_unat_eq_iff unat_add_exact unat_of_nat_u32 del: of_nat_mult)
    then show ?thesis using ucast_u32_u64_of_nat [OF lt] by (simp add: t_def del: of_nat_mult)
  qed
  show ?thesis
  proof (intro exI conjI ballI allI impI)
    show "snrt_init_tls sys c ld h evs s = Some (post, s')" by (rule r)
  next
    fix h' j assume h': "h' \<in> harts c" "snrt_cluster_idx c h' = snrt_cluster_idx c h"
      and j: "j < unat (tdata_size ld)"
    let ?i = "N - 1 - unat (snrt_cluster_core_idx c h')"
    have "?i < N" "j < D" "j < a" using N0 j fit by (simp_all add: rows_fit_def a_def)
    with mem [of ?i j] show "dm_mem s' (ucast (tp_of c ld h') + of_nat j) =
        dm_mem s (ucast (tdata_start ld) + of_nat j)"
      by (simp add: base [OF h'] add.assoc)
  next
    fix h' j assume h': "h' \<in> harts c" "snrt_cluster_idx c h' = snrt_cluster_idx c h"
      and j: "j < unat (tbss_size ld)"
    let ?i = "N - 1 - unat (snrt_cluster_core_idx c h')"
    have "?i < N" "a + j < D" "j < n" using N0 j fit by (simp_all add: rows_fit_def n_def)
    with mem [of ?i "a + j"] show "dm_mem s' (ucast (tp_of c ld h') + of_nat (unat (tdata_size ld) + j)) = 0"
      by (simp add: base [OF h'] add.assoc flip: a_def)
  next
    fix b :: u64 assume out: "\<forall>h' \<in> harts c. snrt_cluster_idx c h' = snrt_cluster_idx c h \<longrightarrow>
      \<not> unat (b - ucast (tp_of c ld h')) < unat (tdata_size ld) + unat (tbss_size ld)"
    show "dm_mem s' b = dm_mem s b"
    proof (cases "N * D \<le> unat (b - t)")
      case True
      then show ?thesis unfolding r(2) by (rule tls_memory_outside [OF fit])
    next
      case False
      have D0: "0 < D" by (simp add: D_def)
      define i j where "i = unat (b - t) div D" and "j = unat (b - t) mod D"
      have ij: "i < N" "j < D" using False D0 by (simp_all add: i_def j_def div_less_iff_less_mult)
      have b: "b = t + of_nat (i * D + j)" unfolding i_def j_def by simp
      let ?k = "N - 1 - i" and ?cl = "unat (snrt_cluster_idx c h)"
      let ?h = "hart_of c ?cl ?k"
      have cl: "?cl < unat (SNRT_CLUSTER_NUM c)" by (rule idx_bounds(1) [OF assms(1,2)])
      have k: "?k < unat (SNRT_CLUSTER_CORE_NUM c)" using N0 by (simp add: N_def)
      have h: "?h \<in> harts c" "snrt_cluster_idx c ?h = snrt_cluster_idx c h"
        "unat (snrt_cluster_core_idx c ?h) = ?k"
        using unat_hart_of(2) [OF assms(1) cl k] hart_of_idx [OF assms(1) cl k] by (simp_all add: word_unat_eq_iff)
      have "N - 1 - ?k = i" using ij by simp
      then have "b - ucast (tp_of c ld ?h) = of_nat j" using base [OF h(1,2)] b h(3) by simp
      moreover have "j < 18446744073709551616"
        using ij(2) ND N0 by (cases N) auto
      ultimately have "unat (b - ucast (tp_of c ld ?h)) = j" by (simp add: unat_of_nat_u64)
      then have "\<not> j < a + n" using out h by (metis a_def n_def)
      then show ?thesis using mem [OF ij] by (simp add: b)
    qed
  qed
qed

lemma count_list_replicate_same: "count_list (replicate n x) x = n"
  by (induction n) simp_all

theorem init_tls_correct_witness:
  "\<exists>post s'. snrt_init_tls sample_sys sample_cfg sample_ld 8 (replicate 18 0) sample_dma = Some (post, s') \<and>
     (\<forall>j < 16. dm_mem s' (ucast (tp_of sample_cfg sample_ld 3) + of_nat j) = ucast (0x80010200 + of_nat j :: u64)) \<and>
     (\<forall>j < 48. dm_mem s' (ucast (tp_of sample_cfg sample_ld 3) + of_nat (16 + j)) = 0)"
proof -
  have 1: "(8 :: u32) \<in> harts sample_cfg" "(3 :: u32) \<in> harts sample_cfg" "SNRT_CLUSTER_DM_CORE_NUM sample_cfg = 1"
    "snrt_is_dm_core sample_cfg 8" "snrt_cluster_idx sample_cfg 3 = snrt_cluster_idx sample_cfg 8"
    "stacks_fit sample_cfg sample_ld 8" "3 \<le> SNRT_LOG2_STACK_SIZE sample_cfg"
    "SNRT_LOG2_STACK_SIZE sample_cfg < 31"
    "unat (tdata_size sample_ld) = 16" "unat (tbss_size sample_ld) = 48"
    by (simp_all add: stacks_fit_def tcdm_top_def cls_size_def sample_cfg_def sample_ld_def
        team_defs harts_def tdata_size_def tbss_size_def)
  have 2: "unat (tdata_size sample_ld) + unat (tbss_size sample_ld) \<le> 2 ^ SNRT_LOG2_STACK_SIZE sample_cfg + 8"
    "2 * unat (SNRT_CLUSTER_CORE_NUM sample_cfg) \<le> count_list (replicate 18 0) (0 :: u32)"
    unfolding 1 count_list_replicate_same by (simp_all add: sample_cfg_def)
  have m: "dm_mem sample_dma = ucast" "tdata_start sample_ld = 0x80010200"
    by (simp_all add: sample_dma_def sample_ld_def)
  obtain post s' where "snrt_init_tls sample_sys sample_cfg sample_ld 8 (replicate 18 0) sample_dma = Some (post, s')"
    "\<forall>j < unat (tdata_size sample_ld). dm_mem s' (ucast (tp_of sample_cfg sample_ld 3) + of_nat j) =
       dm_mem sample_dma (ucast (tdata_start sample_ld) + of_nat j)"
    "\<forall>j < unat (tbss_size sample_ld).
       dm_mem s' (ucast (tp_of sample_cfg sample_ld 3) + of_nat (unat (tdata_size sample_ld) + j)) = 0"
    using init_tls_correct [OF cfg_wf_sample 1(1,3,4,6,7,8) 2(1) sample_dma_ok(1,3,2) 2(2)] 1(2,5) by blast
  then show ?thesis unfolding 1 m by auto
qed

section \<open>The other sections\<close>

lemma ranges_apart:
  fixes b p q :: u64
  assumes "unat (b - p) < n" "unat p + n \<le> 2 ^ 64" "unat q + m \<le> 2 ^ 64"
    "unat p + n \<le> unat q \<or> unat q + m \<le> unat p"
  shows "\<not> unat (b - q) < m"
proof
  assume m: "unat (b - q) < m"
  have "unat (p + (b - p)) = unat p + unat (b - p)"
    using assms(1,2) by (intro unat_add_exact) simp
  moreover have "unat (q + (b - q)) = unat q + unat (b - q)"
    using m assms(3) by (intro unat_add_exact) simp
  ultimately show False using assms(1,4) m by simp
qed

lemma range_shift:
  assumes "a + n \<le> 2 ^ 63"
  shows "unat (b - (p + of_nat a) :: u64) < n \<longleftrightarrow> a \<le> unat (b - p) \<and> unat (b - p) < a + n"
proof -
  have eq: "b - (p + of_nat a) = (b - p) - of_nat a" by (simp add: algebra_simps)
  have a: "unat (of_nat a :: u64) = a" using assms by (intro unat_of_nat_u64) simp
  show ?thesis
  proof (cases "a \<le> unat (b - p)")
    case True
    then show ?thesis unfolding eq using a by (subst unat_sub_exact) auto
  next
    case False
    then have "unat ((b - p) - of_nat a) = unat (b - p) + 2 ^ 64 - a"
      using unat_sub_if' [of "b - p" "of_nat a"] a by simp
    then show ?thesis unfolding eq using False assms by simp
  qed
qed

text \<open>
  C1: After \<open>snrt_init_cls\<close> on the data mover core of a cluster the cluster-local storage at the
  top of the TCDM holds the image of the \<open>.cdata\<close> section followed by zeros, no other byte has
  changed, and the pointer of every core of the cluster is the base of the storage.
\<close>

theorem init_cls_correct:
  assumes "snrt_is_dm_core c h" "unicast sys" "\<forall>ch. dm_pending s ch = []" "dm_user s = 0"
    "2 \<le> count_list evs 0" "unat (snrt_cls_base_addr c ld h) + cls_size ld < 2 ^ 32"
    "unat (snrt_cls_base_addr c ld h) + cls_size ld \<le> unat (cdata_start ld) \<or>
     unat (cdata_start ld) + unat (cdata_end ld - cdata_start ld) \<le> unat (snrt_cls_base_addr c ld h)"
  shows "\<exists>post s'. snrt_init_cls sys c ld h evs s = Some (snrt_cls_base_addr c ld h, post, s') \<and>
     dm_mem s' = (\<lambda>b. let off = unat (b - ucast (snrt_cls_base_addr c ld h)) in
        if off < unat (cdata_end ld - cdata_start ld) then dm_mem s (ucast (cdata_start ld) + of_nat off)
        else if off < cls_size ld then 0 else dm_mem s b)"
proof -
  define p a n where "p = snrt_cls_base_addr c ld h" and "a = unat (cdata_end ld - cdata_start ld)"
    and "n = unat (cbss_end ld - cbss_start ld)"
  have cls: "cls_size ld = a + n" by (simp add: cls_size_def a_def n_def)
  have top: "unat p + a + n < 4294967296" using assms(6) by (simp add: cls p_def)
  let ?p = "ucast p :: u64" and ?q = "ucast p + ucast (cdata_end ld - cdata_start ld) :: u64"
  let ?src = "ucast (cdata_start ld) :: u64"
  have "(ucast (cdata_end ld - cdata_start ld) :: u64) = of_nat a"
    unfolding a_def by (simp flip: unat_ucast_u32_u64)
  then have q: "?q = ?p + of_nat a" by simp
  have uq: "(ucast (p + of_nat a) :: u64) = ?q"
    unfolding q using top by (intro ucast_u32_u64_of_nat) simp
  then have q32: "(ucast ?q :: u32) = p + of_nat a" by (metis ucast_u64_u32_id)
  have un: "unat (p + of_nat a) = unat p + a"
    using top by (subst unat_add_exact) (simp_all add: unat_of_nat_u32)
  then have uq64: "unat ?q = unat p + a" by (metis unat_ucast_u32_u64 uq)
  define s1 where "s1 = snd (snrt_dma_start_1d ?p ?src (cdata_end ld - cdata_start ld) 0 s)"
  have s1: "dma_ready s1" "settled sys s1 = copy_bytes ?p ?src a (dm_mem s)"
    "dm_pending s1 0 = [\<lparr>x_src = ?src, x_dst = ?p, x_size = cdata_end ld - cdata_start ld,
       x_sstr = dm_sstr s, x_dstr = dm_dstr s, x_rows = 1, x_user = 0\<rparr>]"
    using assms(3,4) settled_start_1d [OF assms(2,4)]
    by (simp_all add: s1_def start_1d_queues dma_ready_def only_channel_def settled_def a_def)
  have src: "\<not> unat (b - ?src) < a" if "unat (b - ?q) < n" for b
    using ranges_apart [of b ?q n ?src a] that assms(7) top uq64
      unat_u32_bound [of "cdata_start ld"] unat_u32_bound [of "cdata_end ld - cdata_start ld"]
    by (auto simp: cls a_def p_def simp del: unat_u32_bound)
  have dst: "\<not> unat (b - ?p) < a" if "unat (b - ?q) < n" for b
    using ranges_apart [of b ?q n ?p a] that top uq64 by auto
  have "\<forall>x\<in>set (dm_pending s1 0). spares ?q n x"
    using src dst by (auto simp: s1 spares_def a_def)
  then obtain e2 s2 where 2: "snrt_dma_memset sys (p + of_nat a) 0 (cbss_end ld - cbss_start ld) evs s1 = Some (e2, s2)"
      "dma_ready s2" "settled sys s2 = fill ?q n 0 (settled sys s1)" "length (dm_pending s2 0) \<le> count_list e2 0"
    using memset_settles [OF assms(2) s1(1), of "p + of_nat a" "cbss_end ld - cbss_start ld" evs 0]
      assms(5) top un uq by (auto simp: n_def s1)
  then obtain e3 s3 where 3: "snrt_dma_wait_all sys 0 e2 s2 = Some (e3, s3)" "dm_mem s3 = settled sys s2"
    using wait_settles [of s2 e2 sys] by (auto simp: dma_ready_def)
  have "snrt_init_cls sys c ld h evs s = Some (p, e3, s3)"
    using assms(1) 2(1) 3(1) by (simp add: snrt_init_cls_def Let_def s1_def q32 flip: p_def)
  moreover have "unat (b - ?q) < n \<longleftrightarrow> a \<le> unat (b - ?p) \<and> unat (b - ?p) < a + n" for b
    unfolding q by (rule range_shift) (use top in simp)
  then have "dm_mem s3 = (\<lambda>b. let off = unat (b - ?p) in if off < a then dm_mem s (?src + of_nat off)
        else if off < a + n then 0 else dm_mem s b)"
    unfolding 3(2) 2(3) s1(2) by (intro ext) (auto simp: Let_def fill_def copy_bytes_def)
  ultimately show ?thesis unfolding cls a_def [symmetric] p_def [symmetric] by blast
qed

theorem init_cls_correct_witness:
  "\<exists>post s'. snrt_init_cls sample_sys sample_cfg sample_ld 8 [0, 0] sample_dma =
       Some (snrt_cls_base_addr sample_cfg sample_ld 8, post, s') \<and>
     dm_mem s' (ucast (snrt_cls_base_addr sample_cfg sample_ld 8) + 8) = 8 \<and>
     dm_mem s' (ucast (snrt_cls_base_addr sample_cfg sample_ld 8) + 80) = 0"
proof -
  have b: "snrt_cls_base_addr sample_cfg sample_ld 8 = 0x1001FF00"
    by (simp add: snrt_cls_base_addr_def sample_cfg_def sample_ld_def team_defs)
  have z: "cls_size sample_ld = 256" by (simp add: cls_size_def sample_ld_def)
  have 1: "snrt_is_dm_core sample_cfg 8" "2 \<le> count_list [0, 0] (0 :: u32)"
    "unat (snrt_cls_base_addr sample_cfg sample_ld 8) + cls_size sample_ld < 2 ^ 32"
    "unat (snrt_cls_base_addr sample_cfg sample_ld 8) + cls_size sample_ld \<le> unat (cdata_start sample_ld) \<or>
     unat (cdata_start sample_ld) + unat (cdata_end sample_ld - cdata_start sample_ld) \<le>
       unat (snrt_cls_base_addr sample_cfg sample_ld 8)"
    unfolding b z by (simp_all add: team_defs sample_cfg_def sample_ld_def)
  from init_cls_correct [OF 1(1) sample_dma_ok(1,3,2) 1(2-4)] show ?thesis
    unfolding z by (auto simp: sample_ld_def sample_dma_def Let_def)
qed

section \<open>Phases\<close>


datatype start_op =
    ClrMcip | Callback nat | InitBss | SetCluster nat u32 | Fence | InitTls | InitCls | SetClsPtr
  | InitLibs | Main | Exit | Barrier






text \<open>The number of barriers a core passes before an operation.\<close>

definition barriers_before :: "start_op \<Rightarrow> start_op list \<Rightarrow> nat" where
  "barriers_before x xs = count_list (takeWhile (\<lambda>y. y \<noteq> x) xs) Barrier"


lemma barriers_before_simps [simp]:
  "barriers_before x [] = 0" "barriers_before x (x # xs) = 0"
  "y \<noteq> x \<Longrightarrow> barriers_before x (y # xs) = count_list [y] Barrier + barriers_before x xs"
  by (simp_all add: barriers_before_def)









section \<open>Exit code\<close>

text \<open>
  \<open>snrt_exit_default\<close> on all cores: \<open>es\<close> and \<open>o3\<close> are the order of the accesses in the
  reduction, the word written to \<open>tohost\<close> by a core is Some value or None.
\<close>

definition snrt_exit_default ::
  "snrt_cfg \<Rightarrow> red_ev list \<Rightarrow> hart list \<Rightarrow> (hart \<Rightarrow> u32) \<Rightarrow> red_state \<Rightarrow> red_state \<times> (hart \<Rightarrow> u32 option)" where
  "snrt_exit_default c es o3 exit_code s =
     (let (s, r) = snrt_global_all_to_all_reduction c es o3 exit_code s
      in (s, \<lambda>h. if snrt_global_core_idx c h = 0 then Some (push_bit 1 (r h) OR 1) else None))"

lemma tohost_word: "push_bit 1 (x :: u32) OR 1 = 2 * x + 1"
  by (simp add: push_bit_eq_mult or_one_eq mult.commute)

lemma double_eq_0: "2 * (x :: u32) = 0 \<longleftrightarrow> x = 0 \<or> x = 0x80000000"
proof
  assume "2 * x = 0"
  then have "unat (2 * x) = 0" by simp
  then have "(2 * unat x) mod 4294967296 = 0" by (simp add: unat_word_ariths)
  then obtain k where k: "2 * unat x = 4294967296 * k" by blast
  moreover have "unat x < 4294967296" by simp
  ultimately have "k < 2" by linarith
  then have "k = 0 \<or> k = 1" by auto
  with k have "unat x = 0 \<or> unat x = 2147483648" by auto
  then show "x = 0 \<or> x = 0x80000000" by (auto simp: word_unat_eq_iff)
qed auto

text \<open>
  C32: With the accumulators of the reduction at zero, the core with the lowest hart id writes
  twice the sum of the exit codes of all cores plus one to \<open>tohost\<close>, no other core writes, and
  the word is 1, success, exactly when the sum of the exit codes is 0 modulo \<open>2 ^ 31\<close>: codes
  that cancel are reported as success.
\<close>

theorem exit_code_sum:
  assumes "cfg_wf c" "SNRT_CLUSTER_DM_CORE_NUM c = 1" "reduction_order c es o3" "h \<in> harts c"
    "cluster_result s = (\<lambda>_. 0)" "reduction_result s = 0"
  shows "snd (snrt_exit_default c es o3 code s) h =
      (if h = SNRT_BASE_HARTID c then Some (2 * (\<Sum>h\<in>harts c. code h) + 1) else None) \<and>
    (snd (snrt_exit_default c es o3 code s) (SNRT_BASE_HARTID c) = Some 1 \<longleftrightarrow>
      (\<Sum>h\<in>harts c. code h) = 0 \<or> (\<Sum>h\<in>harts c. code h) = 0x80000000)"
proof -
  have v: "snd (snrt_global_all_to_all_reduction c es o3 code s) g = (\<Sum>h\<in>harts c. code h)"
    if "g \<in> harts c" for g
    using reduction_value [OF assms(1,2,3) that] assms(5,6) by simp
  have b: "SNRT_BASE_HARTID c \<in> harts c"
    using assms(1) by (auto simp: harts_def cfg_wf_def)
  have z: "snrt_global_core_idx c g = 0 \<longleftrightarrow> g = SNRT_BASE_HARTID c" for g
    by (simp add: team_defs)
  have "snd (snrt_exit_default c es o3 code s) g =
      (if g = SNRT_BASE_HARTID c then Some (2 * (\<Sum>h\<in>harts c. code h) + 1) else None)"
    if "g \<in> harts c" for g
    using v [OF that] tohost_word by (auto simp: snrt_exit_default_def case_prod_unfold Let_def z)
  then show ?thesis using assms(4) b double_eq_0 by simp
qed

theorem exit_code_sum_witness:
  "snd (snrt_exit_default small_cfg [RLocal 0, RLocal 1, RGlobal 1, RLocal 3, RLocal 2, RGlobal 3] [3, 1]
     (\<lambda>h. if h = 1 then 1 else if h = 2 then - 1 else 0)
     \<lparr>cluster_result = \<lambda>_. 0, reduction_result = 0\<rparr>) 0 = Some 1"
proof -
  have H: "harts small_cfg = {0, 1, 2, 3}"
    using set_hart_list [OF small_cfg_simps(1)] by (simp add: small_cfg_simps)
  have B: "SNRT_BASE_HARTID small_cfg = 0" by (simp add: small_cfg_def sample_cfg_def)
  have "reduction_order small_cfg [RLocal 0, RLocal 1, RGlobal 1, RLocal 3, RLocal 2, RGlobal 3] [3, 1]"
    unfolding reduction_order_def small_cfg_simps
    by (auto simp: my_cluster_def team_defs small_cfg_def sample_cfg_def)
  from exit_code_sum [OF small_cfg_simps(1,2) this, of 0 "\<lparr>cluster_result = \<lambda>_. 0, reduction_result = 0\<rparr>"
      "\<lambda>h. if h = 1 then 1 else if h = 2 then - 1 else 0"] H B
  show ?thesis by simp
qed

end
