(* ===== verification/Putchar.thy ===== *)
theory Putchar
  imports Team
begin

text \<open>
  Character output (\<open>sw/runtime/impl/putchar.c\<close>): each core collects characters in its buffer
  and hands the buffer to the host when it is full or at the end of a line. Both variants are
  modelled, the one for \<open>tohost\<close>/\<open>fromhost\<close> and the one for OpenOCD semihosting; they differ in
  the length of the buffer. The write to the host, which the first variant makes between
  acquiring and releasing the global mutex, is one step that appends the buffer to what the host
  has received. The array of buffers has one element per core of the system; an access outside
  it is the result None.
\<close>

type_synonym putc_buffer_t = "nat \<times> char list"

text \<open>The state: the buffers (number of characters in use and storage) and the host's writes, with their core.\<close>

record putc_state =
  putc_buffer :: "putc_buffer_t list"
  host_out :: "(hart \<times> string) list"

definition PUTC_BUFFER_LEN :: nat where
  "PUTC_BUFFER_LEN = 1024 - 4"

definition PUTC_BUFFER_LEN_OCD :: nat where
  "PUTC_BUFFER_LEN_OCD = 1024"

text \<open>The host is given the first \<open>sz\<close> characters of the buffer: \<open>sys_write\<close> to file descriptor 1.\<close>

definition sys_write :: "hart \<Rightarrow> nat \<Rightarrow> char list \<Rightarrow> putc_state \<Rightarrow> putc_state" where
  "sys_write h sz buf s = s\<lparr>host_out := host_out s @ [(h, take sz buf)]\<rparr>"

definition putchar_with :: "nat \<Rightarrow> hart \<Rightarrow> char \<Rightarrow> putc_state \<Rightarrow> putc_state option" where
  "putchar_with len h ch s =
     (let i = unat (snrt_hartid h) in
      if i < length (putc_buffer s) then
        (let (sz, buf) = putc_buffer s ! i in
         if sz < length buf then
           (let buf = buf[sz := ch];
                sz = sz + 1
            in if sz = len \<or> ch = CHR 0x0A
               then Some (sys_write h sz buf (s\<lparr>putc_buffer := (putc_buffer s)[i := (0, buf)]\<rparr>))
               else Some (s\<lparr>putc_buffer := (putc_buffer s)[i := (sz, buf)]\<rparr>))
         else None)
      else None)"

definition putchar :: "hart \<Rightarrow> char \<Rightarrow> putc_state \<Rightarrow> putc_state option" where
  "putchar = putchar_with PUTC_BUFFER_LEN"

definition putchar_ocd :: "hart \<Rightarrow> char \<Rightarrow> putc_state \<Rightarrow> putc_state option" where
  "putchar_ocd = putchar_with PUTC_BUFFER_LEN_OCD"

text \<open>The state at program start: one empty buffer per core.\<close>

definition putc_init :: "nat \<Rightarrow> snrt_cfg \<Rightarrow> putc_state" where
  "putc_init len c = \<lparr>putc_buffer = replicate (unat (SNRT_CLUSTER_NUM c) * unat (SNRT_CLUSTER_CORE_NUM c))
     (0, replicate len (CHR 0x00)), host_out = []\<rparr>"


section \<open>What the host receives\<close>










text \<open>
  The index is the hart id, not the index of the core in the system: with a base hart id other
  than zero some core of the system has no buffer.
\<close>

lemma putchar_base_hartid:
  assumes "cfg_wf c" "SNRT_BASE_HARTID c \<noteq> 0"
  shows "\<exists>h \<in> harts c. putchar h ch (putc_init PUTC_BUFFER_LEN c) = None"
proof -
  let ?N = "unat (SNRT_CLUSTER_NUM c) * unat (SNRT_CLUSTER_CORE_NUM c)"
  define M where "M = ?N - 1"
  let ?h = "SNRT_BASE_HARTID c + of_nat M"
  have N: "0 < ?N" "unat (SNRT_BASE_HARTID c) + ?N < 4294967296" "0 < unat (SNRT_BASE_HARTID c)"
    using assms by (auto simp: cfg_wf_def unat_gt_0)
  then have M: "unat (SNRT_BASE_HARTID c) + M < 4294967296" "?N \<le> unat (SNRT_BASE_HARTID c) + M"
      "unat (SNRT_BASE_HARTID c) + M < unat (SNRT_BASE_HARTID c) + ?N"
    by (auto simp: M_def)
  then have h: "unat ?h = unat (SNRT_BASE_HARTID c) + M"
    by (subst unat_add_exact) (simp_all add: unat_of_nat_u32)
  then have "?h \<in> harts c" using M by (auto simp: harts_def)
  moreover have "putchar ?h ch (putc_init PUTC_BUFFER_LEN c) = None"
    using h M by (simp add: putchar_def putchar_with_def putc_init_def snrt_hartid_def Let_def)
  ultimately show ?thesis by blast
qed

end
