(* ===== verification/Kernel.thy ===== *)
theory Kernel
  imports Ssr Team "HOL-Library.Multiset"
begin

text \<open>
  What the compute kernels share: the floating-point operations of the core, which are a
  parameter (a record of functions on FP64 bit patterns: no law of real arithmetic is assumed of
  them), the hardware loop \<open>frep.o\<close>, the stream registers as a source of operands, and loops that
  several cores execute in any interleaving.
\<close>

record fpu =
  fadd :: "u64 \<Rightarrow> u64 \<Rightarrow> u64"
  fmul :: "u64 \<Rightarrow> u64 \<Rightarrow> u64"
  fmadd :: "u64 \<Rightarrow> u64 \<Rightarrow> u64 \<Rightarrow> u64"

text \<open>The strides of doublewords.\<close>

lemma dptr_8 [simp]: "dptr (8 * x)" "dptr (x * 8)" "dptr 8" "dptr 64" "dptr 0"
  by (simp_all add: dptr_mod [of 8] dptr_mod [of 64] dptr_mod [of 0]) (metis dptr_dvd mult.commute)+

text \<open>\<open>frep.o\<close> repeats its body \<open>max_iter + 1\<close> times.\<close>

definition frep_iters :: "u32 \<Rightarrow> nat" where
  "frep_iters max_iter = unat max_iter + 1"

text \<open>
  The next operand of a stream, as the address it is at: an element that is read is delivered \<open>j_rep + 1\<close> times before the
  generator advances (the repetition counter of \<open>snitch_ssr.sv\<close>), one that is written once. A stream that has ended blocks.
\<close>

definition ssr_operand :: "ssr \<Rightarrow> (u32 \<times> ssr) option" where
  "ssr_operand s =
     (if j_done (active s) then None
      else Some (j_ptr (active s),
        if j_write (active s) then agen_step s
        else if rep_q s = j_rep (active s) then (agen_step s)\<lparr>rep_q := 0\<rparr>
        else s\<lparr>rep_q := rep_q s + 1\<rparr>))"

fun ssr_operands :: "nat \<Rightarrow> ssr \<Rightarrow> u32 list \<times> ssr" where
  "ssr_operands 0 s = ([], s)"
| "ssr_operands (Suc n) s =
     (case ssr_operand s of
        None \<Rightarrow> ([], s)
      | Some (a, s') \<Rightarrow> (case ssr_operands n s' of (as, s'') \<Rightarrow> (a # as, s'')))"

text \<open>
  The addresses of the next \<open>n\<close> operands of stream \<open>i\<close>; a read from a stream that has ended
  blocks for ever, the result None.
\<close>

definition ssr_pop :: "nat \<Rightarrow> nat \<Rightarrow> ssr_core \<Rightarrow> (u32 list \<times> ssr_core) option" where
  "ssr_pop n i st =
     (case ssr_operands n (ssrs st i) of
        (as, x) \<Rightarrow> if length as = n then Some (as, st\<lparr>ssrs := (ssrs st)(i := x)\<rparr>) else None)"

lemma frep_iters_dec: "n \<noteq> 0 \<Longrightarrow> frep_iters (n - 1) = unat n"
  by (simp add: frep_iters_def unat_dec [unfolded One_nat_def, simplified])

lemma ssr_operands_length: "length (fst (ssr_operands n s)) \<le> n"
  by (induction n arbitrary: s) (simp_all add: case_prod_unfold split: option.splits)

lemma ssr_operands_end: "ssr_operand s = None \<Longrightarrow> ssr_operands n s = ([], s)"
  by (cases n) simp_all

lemma ssr_operands_add:
  "ssr_operands (n + k) s =
     (let (as, s1) = ssr_operands n s; (bs, s2) = ssr_operands k s1 in (as @ bs, s2))"
proof (induction n arbitrary: s)
  case (Suc n)
  show ?case
  proof (cases "ssr_operand s")
    case None
    then show ?thesis by (simp add: ssr_operands_end)
  next
    case (Some p)
    then show ?thesis using Suc [of "snd p"] by (simp add: Let_def case_prod_unfold split: prod.splits)
  qed
qed simp

text \<open>A read stream with repetition, and one that is written.\<close>

lemma agen_step_fields:
  assumes "j_rep (shadow s) = j_rep (active s)" "j_write (shadow s) = j_write (active s)"
  shows "j_rep (active (agen_step s)) = j_rep (active s)" "j_rep (shadow (agen_step s)) = j_rep (active s)"
    "j_write (active (agen_step s)) = j_write (active s)" "j_write (shadow (agen_step s)) = j_write (active s)"
    "rep_q (agen_step s) = rep_q s"
  using assms by (simp_all add: agen_step_def load_job_def Let_def)

lemma agen_step_rep_q [simp]: "(agen_step (s\<lparr>rep_q := v\<rparr>))\<lparr>rep_q := w\<rparr> = (agen_step s)\<lparr>rep_q := w\<rparr>"
proof -
  have l: "loop_last (s\<lparr>rep_q := v\<rparr>) i = loop_last s i" for i by (simp add: loop_last_def)
  have e: "loop_enabled (s\<lparr>rep_q := v\<rparr>) i = loop_enabled s i" for i by (simp add: loop_enabled_iff l)
  show ?thesis by (simp add: agen_step_def load_job_def ssr_done_def selected_stride_def l e cong: if_cong)
qed

lemma ssr_operands_run:
  assumes "\<not> j_done (active s)" "\<not> j_write (active s)" "unat (rep_q s) + r = unat (j_rep (active s))"
  shows "ssr_operands (Suc r) s = (replicate (Suc r) (j_ptr (active s)), (agen_step s)\<lparr>rep_q := 0\<rparr>)"
  using assms
proof (induction r arbitrary: s)
  case 0
  then have "rep_q s = j_rep (active s)" by (intro unsigned_word_eqI) simp
  then show ?case using 0 by (simp add: ssr_operand_def)
next
  case (Suc r)
  then have lt: "unat (rep_q s) < unat (j_rep (active s))" by simp
  then have "rep_q s \<noteq> j_rep (active s)" by auto
  moreover have "unat (rep_q s + 1) = unat (rep_q s) + 1"
  proof -
    have "unat (rep_q s) + 1 < 4294967296" using lt unat_u32_bound [of "j_rep (active s)"] by linarith
    then show ?thesis by (subst unat_add_exact) simp_all
  qed
  ultimately show ?case
    using Suc.IH [of "s\<lparr>rep_q := rep_q s + 1\<rparr>"] Suc.prems
    by (simp add: ssr_operand_def del: ssr_operands.simps) (simp add: ssr_operand_def)
qed

lemma ssr_operands_rep:
  assumes "\<not> j_write (active s)" "rep_q s = 0" "j_rep (active s) = R" "j_rep (shadow s) = R" "\<not> j_write (shadow s)"
  shows "ssr_operands (n * Suc (unat R)) s =
    (case agen_stream n s of (as, s') \<Rightarrow> (concat (map (replicate (Suc (unat R))) as), s'))"
  using assms
proof (induction n arbitrary: s)
  case (Suc n)
  show ?case
  proof (cases "j_done (active s)")
    case True
    then show ?thesis by (simp add: ssr_operands_end ssr_operand_def del: ssr_operands.simps)
  next
    case False
    have f: "(agen_step s)\<lparr>rep_q := 0\<rparr> = agen_step s" using agen_step_fields(5) [of s] Suc.prems by simp
    have m: "Suc n * Suc (unat R) = Suc (unat R) + n * Suc (unat R)" by simp
    show ?thesis
      unfolding m ssr_operands_add
      using ssr_operands_run [OF False Suc.prems(1), of "unat R"] Suc.IH [of "agen_step s"] agen_step_fields [of s] Suc.prems False f
      by (simp add: Let_def del: ssr_operands.simps replicate_Suc mult_Suc_right split: prod.splits)
  qed
qed simp

lemma ssr_operands_write:
  assumes "j_write (active s)" "j_rep (shadow s) = j_rep (active s)" "j_write (shadow s)"
  shows "ssr_operands n s = agen_stream n s"
  using assms
proof (induction n arbitrary: s)
  case (Suc n)
  then show ?case using Suc.IH [of "agen_step s"] agen_step_fields [of s] by (simp add: ssr_operand_def)
qed simp

text \<open>Popping a stream piece by piece.\<close>

definition stream_is :: "u32 list \<Rightarrow> nat \<Rightarrow> ssr_core \<Rightarrow> bool" where
  "stream_is as i st \<longleftrightarrow> fst (ssr_operands (length as) (ssrs st i)) = as"

lemma pop_stream:
  assumes "stream_is (as @ bs) i st"
  shows "\<exists>st'. ssr_pop (length as) i st = Some (as, st') \<and> stream_is bs i st' \<and>
    (\<forall>k. k \<noteq> i \<longrightarrow> ssrs st' k = ssrs st k)"
proof -
  obtain cs s1 where 1: "ssr_operands (length as) (ssrs st i) = (cs, s1)" by force
  obtain ds s2 where 2: "ssr_operands (length bs) s1 = (ds, s2)" by force
  have l: "length cs \<le> length as" "length ds \<le> length bs"
    using ssr_operands_length [of "length as" "ssrs st i"] ssr_operands_length [of "length bs" s1] 1 2 by simp_all
  have eq: "cs @ ds = as @ bs"
    using assms ssr_operands_add [of "length as" "length bs" "ssrs st i"] 1 2 by (simp add: stream_is_def)
  then have "length cs + length ds = length as + length bs" by (metis length_append)
  with l have "length cs = length as" by linarith
  with eq have "cs = as" "ds = bs" by auto
  then show ?thesis using 1 2 by (auto simp: ssr_pop_def stream_is_def)
qed

lemma stream_is_other: "ssrs st' i = ssrs st i \<Longrightarrow> stream_is as i st' = stream_is as i st"
  by (simp add: stream_is_def)

lemma stream_is_en [simp]:
  "stream_is as i (snrt_ssr_enable st) = stream_is as i st"
  "stream_is as i (snrt_ssr_disable st) = stream_is as i st"
  by (simp_all add: stream_is_def snrt_ssr_enable_def snrt_ssr_disable_def)

text \<open>The streams of the programmed jobs.\<close>

lemma length_affine_nest: "length (affine_nest p ls) = prod_list (map fst ls)"
  by (induction ls arbitrary: p) (auto simp: length_concat comp_def sum_list_triv)

text \<open>A data mover as after reset or after a job without repetition.\<close>

definition ssr_fresh :: "ssr \<Rightarrow> bool" where
  "ssr_fresh s \<longleftrightarrow> ssr_idle s \<and> j_rep (active s) = 0 \<and> rep_q s = 0"

lemma ssr_freshD [simp, dest]: "ssr_fresh s \<Longrightarrow> ssr_idle s" "ssr_fresh s \<Longrightarrow> j_rep (active s) = 0" "ssr_fresh s \<Longrightarrow> rep_q s = 0"
  by (simp_all add: ssr_fresh_def)

lemma reset_fresh [simp]: "ssr_fresh (ssrs reset_ssr_core i)"
  by (simp add: ssr_fresh_def reset_ssr_core_def idle_ssr_def Let_def flip: reset_idle) (simp add: ssr_idle_def)

lemma job_rep [simp]:
  "j_rep (start_job w d p j) = j_rep j" "j_rep (job_1d b0 s0 j) = j_rep j" "j_rep (job_2d b0 b1 s0 s1 j) = j_rep j"
  "j_rep (job_3d b0 b1 b2 s0 s1 s2 j) = j_rep j" "j_rep (job_4d b0 b1 b2 b3 s0 s1 s2 s3 j) = j_rep j"
  "j_write (start_job w d p j) = w"
  by (simp_all add: start_job_def job_defs)

text \<open>How often a stream delivers each element.\<close>

definition stream_reps :: "bool \<Rightarrow> u32 \<Rightarrow> nat" where
  "stream_reps w R = (if w then 1 else Suc (unat R))"

lemma stream_is_job:
  assumes "ssr_idle (ssrs st i)" "rep_q (ssrs st i) = 0" "job_strides (start_job w d p j) (st4 s0 s1 s2 s3)"
  shows "stream_is (concat (map (replicate (stream_reps w (j_rep j)))
      (affine_nest p [(iters (start_job w d p j) 3, s3), (iters (start_job w d p j) 2, s2),
      (iters (start_job w d p j) 1, s1), (iters (start_job w d p j) 0, s0)]))) i
    (st\<lparr>ssrs := (ssrs st)(i := prog (start_job w d p j) (ssrs st i))\<rparr>)"
proof -
  define x where "x = prog (start_job w d p j) (ssrs st i)"
  define as where "as = affine_nest p [(iters (start_job w d p j) 3, s3), (iters (start_job w d p j) 2, s2),
      (iters (start_job w d p j) 1, s1), (iters (start_job w d p j) 0, s0)]"
  have len: "length as = iters (start_job w d p j) 0 * iters (start_job w d p j) 1 * iters (start_job w d p j) 2 * iters (start_job w d p j) 3"
    by (simp add: as_def length_affine_nest ac_simps del: affine_nest.simps)
  have "fst (agen_stream (length as) x) = as"
    using stream_job [OF assms(1,3), of "length as"] len unfolding as_def [symmetric] x_def [symmetric] by auto
  moreover have "length (concat (map (replicate (stream_reps w (j_rep j))) as)) = length as * stream_reps w (j_rep j)"
    by (simp add: length_concat comp_def sum_list_triv)
  moreover have x: "j_write (active x) = w" "j_write (shadow x) = w" "j_rep (active x) = j_rep j" "j_rep (shadow x) = j_rep j" "rep_q x = 0"
    using assms(2) by (simp_all add: x_def prog_def)
  moreover have "w \<Longrightarrow> concat (map (replicate 1) as) = as" by (induction as) simp_all
  ultimately have "fst (ssr_operands (length (concat (map (replicate (stream_reps w (j_rep j))) as))) x) =
      concat (map (replicate (stream_reps w (j_rep j))) as)"
    using ssr_operands_write [of x "length as"] ssr_operands_rep [of x "j_rep j" "length as"]
    by (cases w) (simp_all add: stream_reps_def split: prod.splits del: replicate.simps mult_Suc_right)
  then show ?thesis unfolding as_def [symmetric] x_def [symmetric] by (simp add: stream_is_def)
qed

lemma no_reps: "w \<or> R = 0 \<Longrightarrow> concat (map (replicate (stream_reps w R)) as) = as"
  by (induction as) (auto simp: stream_reps_def)

lemma stream_1d:
  assumes "ssr_fresh (ssrs st i)" "b0 \<noteq> 0" "w \<or> j_rep j = 0"
  shows "stream_is (map (\<lambda>k. p + of_nat k * s0) [0..<unat b0]) i
    (st\<lparr>ssrs := (ssrs st)(i := prog (start_job w 0 p (job_1d b0 s0 j)) (ssrs st i))\<rparr>)"
proof -
  have "affine_nest p [(unat b0, s0)] = map (\<lambda>k. p + of_nat k * s0) [0..<unat b0]"
    by (simp add: comp_def concat_map_singleton)
  then show ?thesis
    using stream_is_job [OF ssr_freshD(1,3) [OF assms(1)] strides_jobs(1) [OF assms(2), where w = w and p = p and j = j and ?s0.0 = s0
        and ?s1.0 = 0 and ?s2.0 = 0 and ?s3.0 = 0]]
    unfolding iters_jobs(1) [OF assms(2)] job_rep(2) no_reps [OF assms(3)] by (simp del: affine_nest.simps(2))
qed

lemma stream_2d:
  assumes "ssr_fresh (ssrs st i)" "b0 \<noteq> 0" "b1 \<noteq> 0" "w \<or> j_rep j = 0"
  shows "stream_is (concat (map (\<lambda>r. map (\<lambda>k. p + of_nat r * s1 + of_nat k * s0) [0..<unat b0]) [0..<unat b1])) i
    (st\<lparr>ssrs := (ssrs st)(i := prog (start_job w 1 p (job_2d b0 b1 s0 s1 j)) (ssrs st i))\<rparr>)"
proof -
  have "affine_nest p [(unat b1, s1), (unat b0, s0)] =
      concat (map (\<lambda>r. map (\<lambda>k. p + of_nat r * s1 + of_nat k * s0) [0..<unat b0]) [0..<unat b1])"
    by (simp add: comp_def concat_map_singleton)
  then show ?thesis
    using stream_is_job [OF ssr_freshD(1,3) [OF assms(1)] strides_jobs(2) [OF assms(2,3), where w = w and p = p and j = j and ?s0.0 = s0
        and ?s1.0 = s1 and ?s2.0 = 0 and ?s3.0 = 0]]
    unfolding iters_jobs(2) [OF assms(2,3)] job_rep(3) no_reps [OF assms(4)] by (simp del: affine_nest.simps(2))
qed

text \<open>A stream with more operands than are taken.\<close>

lemma stream_is_prefix: "stream_is (as @ bs) i st \<Longrightarrow> stream_is as i st"
  using pop_stream [of as bs i st] by (auto simp: ssr_pop_def stream_is_def split: prod.splits if_splits)

section \<open>Indices that are dealt out in turn\<close>

text \<open>\<open>ceil ((n - i) / s)\<close> indices from \<open>i\<close> below \<open>n\<close> at distance \<open>s\<close>.\<close>

definition stride_list :: "nat \<Rightarrow> nat \<Rightarrow> nat \<Rightarrow> nat list" where
  "stride_list i s n = map (\<lambda>k. i + k * s) [0..<(n - i + s - 1) div s]"

lemma stride_list_step:
  assumes "0 < s"
  shows "stride_list i s n = (if i < n then i # stride_list (i + s) s n else [])"
proof (cases "i < n")
  case True
  have "(n - i + s - 1) div s = Suc ((n - (i + s) + s - 1) div s)"
  proof (cases "i + s \<le> n")
    case True
    then have "n - i + s - 1 = (n - (i + s) + s - 1) + s" using assms by linarith
    then have "(n - i + s - 1) div s = (n - (i + s) + s - 1 + s) div s" by (simp only:)
    also have "\<dots> = Suc ((n - (i + s) + s - 1) div s)" using assms by (simp only: div_add_self2)
    finally show ?thesis .
  next
    case False
    then have "n - i + s - 1 = (n - i - 1) + s" "n - i - 1 < s" "n - (i + s) = 0"
      using \<open>i < n\<close> assms by simp_all
    moreover have "(n - i - 1 + s) div s = Suc ((n - i - 1) div s)" using assms by (simp only: div_add_self2)
    ultimately show ?thesis using assms by (simp only: div_less) simp
  qed
  then show ?thesis using True
    by (simp add: stride_list_def upt_conv_Cons map_Suc_upt [symmetric] comp_def add.assoc del: upt_Suc)
next
  case False
  then show ?thesis using assms by (simp add: stride_list_def)
qed

lemma set_stride_list:
  assumes "i < s"
  shows "set (stride_list i s n) = {j. j < n \<and> j mod s = i}"
proof -
  have k: "k < (n - i + s - 1) div s \<longleftrightarrow> i + k * s < n" for k
  proof -
    have "k < (n - i + s - 1) div s \<longleftrightarrow> Suc k * s \<le> n - i + s - 1"
      using assms by (simp only: less_eq_div_iff_mult_less_eq Suc_le_eq [symmetric])
    also have "\<dots> \<longleftrightarrow> k * s < n - i" using assms by auto
    finally show ?thesis by auto
  qed
  have "set (stride_list i s n) = (\<lambda>k. i + k * s) ` {k. i + k * s < n}"
    unfolding stride_list_def by (simp only: set_map set_upt k [symmetric]) auto
  also have "\<dots> = {j. j < n \<and> j mod s = i}"
  proof
    show "(\<lambda>k. i + k * s) ` {k. i + k * s < n} \<subseteq> {j. j < n \<and> j mod s = i}" using assms by auto
    show "{j. j < n \<and> j mod s = i} \<subseteq> (\<lambda>k. i + k * s) ` {k. i + k * s < n}"
    proof
      fix j assume "j \<in> {j. j < n \<and> j mod s = i}"
      then have "i + (j div s) * s = j" "j < n" using mod_div_mult_eq [of j s] by auto
      then show "j \<in> (\<lambda>k. i + k * s) ` {k. i + k * s < n}" by (intro image_eqI [of _ _ "j div s"]) simp_all
    qed
  qed
  finally show ?thesis .
qed

lemma distinct_stride_list: "0 < s \<Longrightarrow> distinct (stride_list i s n)"
  by (auto simp: stride_list_def distinct_map inj_on_def)

text \<open>The indices of all cores are a partition of those below \<open>n\<close>.\<close>

lemma distinct_strides:
  assumes "distinct ks" "\<forall>k\<in>set ks. k < s"
  shows "distinct (concat (map (\<lambda>k. stride_list k s n) ks))"
  using assms
proof (induction ks)
  case (Cons k ks)
  then have d: "distinct (stride_list k s n)" by (intro distinct_stride_list) auto
  have "set (stride_list k s n) \<inter> set (stride_list k' s n) = {}" if "k' \<in> set ks" for k'
    using that Cons.prems by (auto simp: set_stride_list)
  then show ?case using Cons d by auto
qed simp

lemma set_strides:
  assumes "set ks = {..<s}" "0 < s"
  shows "set (concat (map (\<lambda>k. stride_list k s n) ks)) = {..<n}"
proof
  show "set (concat (map (\<lambda>k. stride_list k s n) ks)) \<subseteq> {..<n}"
    using assms(1) by (auto simp: set_stride_list)
  show "{..<n} \<subseteq> set (concat (map (\<lambda>k. stride_list k s n) ks))"
  proof
    fix j assume "j \<in> {..<n}"
    then have "j \<in> set (stride_list (j mod s) s n)" using assms(2) by (simp add: set_stride_list)
    moreover have "j mod s \<in> set ks" using assms by simp
    ultimately show "j \<in> set (concat (map (\<lambda>k. stride_list k s n) ks))" by auto
  qed
qed

lemma stride_list_even:
  assumes "i < s" "n = q * s"
  shows "stride_list i s n = map (\<lambda>k. i + k * s) [0..<q]"
proof (cases q)
  case (Suc r)
  have "s \<le> n" using assms(2) Suc by simp
  then have "n - i + s - 1 = (s - 1 - i) + q * s" using assms by linarith
  then have "(n - i + s - 1) div s = q" using assms(1) by (simp only: div_mult_self1) (simp add: add.commute)
  then show ?thesis by (simp only: stride_list_def)
qed (use assms in \<open>simp add: stride_list_def\<close>)

section \<open>Two buffers in turn\<close>

lemma mod2_cases: "(i :: u32) mod 2 \<in> {0, 1}"
  by (simp add: mod_2_eq_odd)

lemma mod2_step: "((i :: u32) + 1) mod 2 \<noteq> i mod 2"
  by (simp add: mod_2_eq_odd)

lemma next_buffer: "(of_nat (Suc t) :: u32) mod 2 \<noteq> of_nat t mod 2"
  using mod2_step [of "of_nat t"] by (simp add: add.commute)

section \<open>A sample machine\<close>

text \<open>A floating-point unit whose operations are those of integers modulo \<open>2 ^ 64\<close>.\<close>

definition int_fpu :: fpu where
  "int_fpu = \<lparr>fadd = (+), fmul = (*), fmadd = (\<lambda>a b c. a * b + c)\<rparr>"

lemma sample_team:
  "mset (map (\<lambda>h. unat (snrt_cluster_core_idx sample_cfg h)) [3, 1, 2, 0, 7, 6, 5, 4]) =
     mset [0..<unat (snrt_cluster_compute_core_num sample_cfg)]"
proof -
  have "map (\<lambda>h. unat (snrt_cluster_core_idx sample_cfg h)) [3, 1, 2, 0, 7, 6, 5, 4] = [3, 1, 2, 0, 7, 6, 5, 4]"
    "unat (snrt_cluster_compute_core_num sample_cfg) = 8"
    by (simp_all add: team_defs sample_cfg_def)
  moreover have "mset [3, 1, 2, 0, 7, 6, 5, 4] = mset [0..<8 :: nat]" by code_simp
  ultimately show ?thesis by simp
qed

end
