(* ===== verification/Gemv.thy ===== *)
theory Gemv
  imports Kernel
begin

text \<open>
  The matrix-vector product of \<open>sw/kernels/blas/gemv/src/gemv.h\<close>: one core computes its rows
  with the operands streamed by the stream registers, and the rows are distributed over the
  compute cores of the cluster. The theorem states what the code computes with any
  floating-point unit: the chain of fused multiply-adds of each row, scaled.
\<close>

section \<open>One core\<close>

text \<open>The loop over the rows, \<open>k\<close> rows left: \<open>acc\<close> is accumulated by the hardware loop.\<close>

fun gemv_rows ::
  "fpu \<Rightarrow> u32 \<Rightarrow> u64 \<Rightarrow> u32 \<Rightarrow> nat \<Rightarrow> u32 \<Rightarrow> mem \<Rightarrow> ssr_core \<Rightarrow> (mem \<times> ssr_core) option" where
  "gemv_rows f n alpha y 0 i m st = Some (m, st)"
| "gemv_rows f n alpha y (Suc k) i m st = do {
     (as, st) \<leftarrow> ssr_pop (frep_iters (n - 1)) 0 st;
     (xs, st) \<leftarrow> ssr_pop (frep_iters (n - 1)) 1 st;
     let acc = fold (\<lambda>(p, q) acc. fmadd f (ld64 m (ucast p)) (ld64 m (ucast q)) acc) (zip as xs) 0;
         acc = fmul f acc alpha
     in gemv_rows f n alpha y k (i + 1) (wr_d m y i acc) st }"

definition single_core_gemv ::
  "fpu \<Rightarrow> bool \<Rightarrow> u32 \<Rightarrow> u32 \<Rightarrow> u64 \<Rightarrow> u32 \<Rightarrow> u32 \<Rightarrow> u32 \<Rightarrow> u32 \<Rightarrow> u32 \<Rightarrow> mem \<Rightarrow> ssr_core \<Rightarrow>
   (mem \<times> ssr_core) option" where
  "single_core_gemv f tr m n alpha a lda x incx y mem st = do {
     st \<leftarrow> (if tr then snrt_ssr_loop_2d SNRT_SSR_DM0 n m (lda * 8) 8 st
           else snrt_ssr_loop_2d SNRT_SSR_DM0 n m 8 (lda * 8) st);
     st \<leftarrow> snrt_ssr_loop_2d SNRT_SSR_DM1 n m (8 * incx) 0 st;
     st \<leftarrow> snrt_ssr_read SNRT_SSR_DM0 SNRT_SSR_2D a st;
     st \<leftarrow> snrt_ssr_read SNRT_SSR_DM1 SNRT_SSR_2D x st;
     (mem, st) \<leftarrow> gemv_rows f n alpha y (unat m) 0 mem (snrt_ssr_enable st);
     Some (mem, snrt_ssr_disable st) }"

section \<open>The cluster\<close>

definition gemv ::
  "fpu \<Rightarrow> snrt_cfg \<Rightarrow> hart \<Rightarrow> bool \<Rightarrow> u32 \<Rightarrow> u32 \<Rightarrow> u64 \<Rightarrow> u32 \<Rightarrow> u32 \<Rightarrow> u32 \<Rightarrow> u32 \<Rightarrow> mem \<Rightarrow> ssr_core \<Rightarrow>
   (mem \<times> ssr_core) option" where
  "gemv f c h tr m n alpha a x incx y mem st =
     (let frac_m = m div snrt_cluster_compute_core_num c;
          rem_m = m mod snrt_cluster_compute_core_num c;
          start_m = snrt_cluster_core_idx c h * frac_m;
          core_m = (if snrt_cluster_core_idx c h = snrt_cluster_compute_core_num c - 1
                    then frac_m + rem_m else frac_m);
          lda = (if tr then m else n);
          core_a = (if tr then a + 8 * start_m else a + 8 * (start_m * lda))
      in if core_m > 0
         then single_core_gemv f tr core_m n alpha core_a lda x incx (y + 8 * start_m) mem st
         else Some (mem, st))"

text \<open>The compute cores of a cluster one after the other, in the order given.\<close>

fun gemv_cluster ::
  "fpu \<Rightarrow> snrt_cfg \<Rightarrow> hart list \<Rightarrow> bool \<Rightarrow> u32 \<Rightarrow> u32 \<Rightarrow> u64 \<Rightarrow> u32 \<Rightarrow> u32 \<Rightarrow> u32 \<Rightarrow> u32 \<Rightarrow>
   (hart \<Rightarrow> ssr_core) \<Rightarrow> mem \<Rightarrow> mem option" where
  "gemv_cluster f c [] tr m n alpha a x incx y sts mem = Some mem"
| "gemv_cluster f c (h # hs) tr m n alpha a x incx y sts mem = do {
     (mem, st) \<leftarrow> gemv f c h tr m n alpha a x incx y mem (sts h);
     gemv_cluster f c hs tr m n alpha a x incx y sts mem }"

section \<open>The rows a core computes\<close>

text \<open>Address of element \<open>(r, k)\<close> of the matrix, and the value of row \<open>r\<close> of the result.\<close>

definition gemv_addr :: "bool \<Rightarrow> u32 \<Rightarrow> u32 \<Rightarrow> nat \<Rightarrow> nat \<Rightarrow> u32" where
  "gemv_addr tr a lda r k =
     (if tr then a + 8 * (of_nat k * lda + of_nat r) else a + 8 * (of_nat r * lda + of_nat k))"

definition gemv_row :: "fpu \<Rightarrow> bool \<Rightarrow> u32 \<Rightarrow> u64 \<Rightarrow> u32 \<Rightarrow> u32 \<Rightarrow> u32 \<Rightarrow> u32 \<Rightarrow> mem \<Rightarrow> nat \<Rightarrow> u64" where
  "gemv_row f tr n alpha a lda x incx mem r =
     fmul f (fold (\<lambda>k. fmadd f (ld64 mem (ucast (gemv_addr tr a lda r k)))
                             (ld64 mem (ucast (x + 8 * (of_nat k * incx))))) [0..<unat n] 0) alpha"

text \<open>The operands of the rows in \<open>R\<close> are 8-byte aligned and not among the words that are written.\<close>

definition gemv_apart :: "bool \<Rightarrow> u32 \<Rightarrow> u32 \<Rightarrow> u32 \<Rightarrow> u32 \<Rightarrow> u32 \<Rightarrow> nat set \<Rightarrow> u32 set \<Rightarrow> bool" where
  "gemv_apart tr n a lda x incx R W \<longleftrightarrow>
     (\<forall>r\<in>R. \<forall>k<unat n. gemv_addr tr a lda r k \<notin> W \<and> x + 8 * (of_nat k * incx) \<notin> W)"

lemma gemv_apart_mono:
  "gemv_apart tr n a lda x incx R W \<Longrightarrow> R' \<subseteq> R \<Longrightarrow> W' \<subseteq> W \<Longrightarrow> gemv_apart tr n a lda x incx R' W'"
  unfolding gemv_apart_def by blast

lemma gemv_addr_dptr [simp]: "dptr a \<Longrightarrow> dptr (gemv_addr tr a lda r k)"
  unfolding gemv_addr_def by (cases tr) (simp_all only: if_True if_False dptr_add)

lemma gemv_row_frame:
  assumes "gemv_apart tr n a lda x incx {r} {y}" "dptr a" "dptr x" "dptr y"
  shows "gemv_row f tr n alpha a lda x incx (st64 mem (ucast y) v) r =
    gemv_row f tr n alpha a lda x incx mem r"
proof -
  have "ld64 (st64 mem (ucast y) v) (ucast p) = ld64 mem (ucast p)" if "dptr p" "p \<noteq> y" for p
    using that assms(4) by (intro dstore.rd_wr_other) auto
  then show ?thesis
    using assms unfolding gemv_row_def
    by (intro arg_cong2 [where f = "fmul f"] fold_cong arg_cong [where f = "fmadd f"] refl)
      (auto simp: gemv_apart_def)
qed

text \<open>The values of the operands of one row are those of the streams.\<close>

lemma gemv_rows_ok:
  assumes "n \<noteq> 0" "dptr a" "dptr x" "dptr y"
    "stream_is (concat (map (\<lambda>r. map (\<lambda>k. gemv_addr tr a lda r k) [0..<unat n]) [i..<i + k])) 0 st"
    "stream_is (concat (map (\<lambda>r. map (\<lambda>k. x + 8 * (of_nat k * incx)) [0..<unat n]) [i..<i + k])) 1 st"
  shows "\<exists>st'. gemv_rows f n alpha y k (of_nat i) mem st =
     Some (fold (\<lambda>r mem. wr_d mem y (of_nat r) (gemv_row f tr n alpha a lda x incx mem r)) [i..<i + k] mem, st')"
  using assms(5,6)
proof (induction k arbitrary: i mem st)
  case (Suc k)
  let ?as = "map (\<lambda>k. gemv_addr tr a lda i k) [0..<unat n]"
  let ?xs = "map (\<lambda>k. x + 8 * (of_nat k * incx)) [0..<unat n]"
  have u: "[i..<i + Suc k] = i # [Suc i..<Suc i + k]" by (simp add: upt_conv_Cons)
  obtain st1 where 1: "ssr_pop (unat n) 0 st = Some (?as, st1)" "ssrs st1 1 = ssrs st 1"
      "stream_is (concat (map (\<lambda>r. map (\<lambda>k. gemv_addr tr a lda r k) [0..<unat n]) [Suc i..<Suc i + k])) 0 st1"
    using pop_stream [of ?as _ 0 st] Suc.prems(1) unfolding u by auto
  have "stream_is (?xs @ concat (map (\<lambda>r. ?xs) [Suc i..<Suc i + k])) 1 st1"
    using Suc.prems(2) stream_is_other [OF 1(2)] unfolding u by simp
  then obtain st2 where 2: "ssr_pop (unat n) 1 st1 = Some (?xs, st2)" "ssrs st2 0 = ssrs st1 0"
      "stream_is (concat (map (\<lambda>r. ?xs) [Suc i..<Suc i + k])) 1 st2"
    using pop_stream [of ?xs _ 1 st1] by auto
  have z: "zip ?as ?xs = map (\<lambda>k. (gemv_addr tr a lda i k, x + 8 * (of_nat k * incx))) [0..<unat n]"
    by (simp add: zip_map_map zip_same_conv_map comp_def)
  have "fmul f (fold (\<lambda>(p, q) acc. fmadd f (ld64 mem (ucast p)) (ld64 mem (ucast q)) acc) (zip ?as ?xs) 0) alpha =
      gemv_row f tr n alpha a lda x incx mem i"
    unfolding z gemv_row_def fold_map comp_def by simp
  moreover have "stream_is (concat (map (\<lambda>r. map (\<lambda>k. gemv_addr tr a lda r k) [0..<unat n]) [Suc i..<Suc i + k])) 0 st2"
    using 1(3) stream_is_other [OF 2(2)] by simp
  from Suc.IH [OF this 2(3), of "wr_d mem y (of_nat i) (gemv_row f tr n alpha a lda x incx mem i)"]
  obtain st' where "gemv_rows f n alpha y k (of_nat (Suc i))
      (wr_d mem y (of_nat i) (gemv_row f tr n alpha a lda x incx mem i)) st2 =
     Some (fold (\<lambda>r mem. wr_d mem y (of_nat r) (gemv_row f tr n alpha a lda x incx mem r)) [Suc i..<Suc i + k]
       (wr_d mem y (of_nat i) (gemv_row f tr n alpha a lda x incx mem i)), st')" by blast
  ultimately show ?case
    unfolding u
    by (simp add: frep_iters_dec [OF assms(1)] 1(1) 2(1) [unfolded One_nat_def] add.commute [of _ 1] del: upt_Suc)
qed simp

lemma single_core_gemv_ok:
  assumes "n \<noteq> 0" "m \<noteq> 0" "dptr a" "dptr x" "dptr y" "\<And>i. i < 2 \<Longrightarrow> ssr_fresh (ssrs st i)"
  shows "\<exists>st'. single_core_gemv f tr m n alpha a lda x incx y mem st =
     Some (fold (\<lambda>r mem. wr_d mem y (of_nat r) (gemv_row f tr n alpha a lda x incx mem r)) [0..<unat m] mem, st')"
proof -
  let ?s0 = "if tr then lda * 8 else 8" and ?s1 = "if tr then 8 else lda * 8"
  have d8: "dptr 8" "dptr 0" "dptr (lda * 8)" "dptr (8 * incx)"
    by simp_all
  have i0: "ssr_fresh (ssrs st 0)" "ssr_fresh (ssrs st (Suc 0))" using assms(6) by simp_all
  let ?j0 = "start_job False 1 a (job_2d n m ?s0 ?s1 (active (ssrs st 0)))"
  let ?j1 = "start_job False 1 x (job_2d n m (8 * incx) 0 (active (ssrs st 1)))"
  define st0 where "st0 = st\<lparr>ssrs := (ssrs st)(0 := prog ?j0 (ssrs st 0))\<rparr>"
  define st1 where "st1 = st0\<lparr>ssrs := (ssrs st0)(1 := prog ?j1 (ssrs st0 1))\<rparr>"
  have cfg: "do { st \<leftarrow> (if tr then snrt_ssr_loop_2d SNRT_SSR_DM0 n m (lda * 8) 8 st
           else snrt_ssr_loop_2d SNRT_SSR_DM0 n m 8 (lda * 8) st);
     st \<leftarrow> snrt_ssr_loop_2d SNRT_SSR_DM1 n m (8 * incx) 0 st;
     st \<leftarrow> snrt_ssr_read SNRT_SSR_DM0 SNRT_SSR_2D a st;
     snrt_ssr_read SNRT_SSR_DM1 SNRT_SSR_2D x st } = Some st1"
    using i0 [THEN ssr_freshD(1)] d8
    by (cases tr) (simp_all add: ssr_reg_defs loop_jobs read_write_jobs start_job_def job_2d_def
      st1_def st0_def set_job_def prog_def ssr_idle_def fun_upd_twist)
  have s0: "stream_is (concat (map (\<lambda>r. map (\<lambda>k. gemv_addr tr a lda r k) [0..<unat n]) [0..<unat m])) 0 st1"
    using stream_2d [OF i0(1) assms(1,2), where w = False and p = a and j = "active (ssrs st 0)" and ?s0.0 = ?s0
        and ?s1.0 = ?s1] stream_is_other [of st1 0 st0]
      ssr_freshD(2) [OF i0(1)]
    by (cases tr) (simp_all add: st1_def st0_def gemv_addr_def algebra_simps)
  have s1: "stream_is (concat (map (\<lambda>r. map (\<lambda>k. x + 8 * (of_nat k * incx)) [0..<unat n]) [0..<unat m])) 1 st1"
    using stream_2d [of st0 1 n m False "active (ssrs st 1)" x 0 "8 * incx"] i0 ssr_freshD(2) [OF i0(2)] assms(1,2)
    by (simp add: st1_def st0_def algebra_simps)
  have "\<exists>st'. gemv_rows f n alpha y (unat m) (of_nat 0) mem (snrt_ssr_enable st1) =
     Some (fold (\<lambda>r mem. wr_d mem y (of_nat r) (gemv_row f tr n alpha a lda x incx mem r)) [0..<0 + unat m] mem, st')"
    by (rule gemv_rows_ok) (use assms s0 s1 in simp_all)
  then obtain st' where "gemv_rows f n alpha y (unat m) 0 mem (snrt_ssr_enable st1) =
     Some (fold (\<lambda>r mem. wr_d mem y (of_nat r) (gemv_row f tr n alpha a lda x incx mem r)) [0..<unat m] mem, st')"
    by auto
  then show ?thesis
    using cfg unfolding single_core_gemv_def by (auto simp: bind_eq_Some_conv)
qed

section \<open>Distribution of the rows\<close>

definition row_range :: "nat \<Rightarrow> nat \<Rightarrow> nat \<Rightarrow> nat list" where
  "row_range M P i = [i * (M div P)..<i * (M div P) + (if i = P - 1 then M div P + M mod P else M div P)]"

lemma row_ranges: "0 < P \<Longrightarrow> concat (map (row_range M P) [0..<P]) = [0..<M]"
proof -
  assume "0 < P"
  then obtain Q where P: "P = Suc Q" by (cases P) auto
  have "concat (map (row_range M P) [0..<j]) = [0..<j * (M div P)]" if "j \<le> Q" for j
    using that
  proof (induction j)
    case (Suc j)
    then show ?case
      using upt_add_eq_append [of 0 "j * (M div P)" "M div P"] by (simp add: row_range_def P add.commute)
  qed simp
  from this [of Q] have "concat (map (row_range M P) [0..<P]) = [0..<Q * (M div P)] @ row_range M P Q"
    by (simp add: P)
  also have "\<dots> = [0..<Q * (M div P) + (M div P + M mod P)]"
    using upt_add_eq_append [of 0 "Q * (M div P)" "M div P + M mod P"] by (simp add: row_range_def P)
  also have "Q * (M div P) + (M div P + M mod P) = M"
    using div_mult_mod_eq [of M P] by (simp add: P mult.commute)
  finally show ?thesis .
qed

lemma gemv_core_ok:
  assumes "n \<noteq> 0" "dptr a" "dptr x" "dptr y" "\<And>i. i < 2 \<Longrightarrow> ssr_fresh (ssrs st i)"
    "unat (snrt_cluster_core_idx c h) < P" "P = unat (snrt_cluster_compute_core_num c)"
    and lda_def: "lda = (if tr then m else n)"
  shows "\<exists>st'. gemv f c h tr m n alpha a x incx y mem st =
     Some (fold (\<lambda>r mem. wr_d mem y (of_nat r) (gemv_row f tr n alpha a lda x incx mem r))
       (row_range (unat m) P (unat (snrt_cluster_core_idx c h))) mem, st')"
proof -
  define i q where "i = unat (snrt_cluster_core_idx c h)" and "q = unat m div P"
  define start where "start = snrt_cluster_core_idx c h * (m div snrt_cluster_compute_core_num c)"
  define core_m where "core_m = (if snrt_cluster_core_idx c h = snrt_cluster_compute_core_num c - 1
     then m div snrt_cluster_compute_core_num c + m mod snrt_cluster_compute_core_num c
     else m div snrt_cluster_compute_core_num c)"
  have P0: "0 < P" using assms(6) by simp
  have q: "unat (m div snrt_cluster_compute_core_num c) = q"
    "unat (m mod snrt_cluster_compute_core_num c) = unat m mod P"
    by (simp_all add: unat_div unat_mod q_def assms(7))
  have iq: "Suc i * q \<le> unat m" "P * q + unat m mod P = unat m"
  proof -
    have "Suc i * q \<le> P * q" using assms(6) by (intro mult_right_mono) (simp_all add: i_def)
    also have "\<dots> \<le> unat m" by (simp add: q_def)
    finally show "Suc i * q \<le> unat m" .
    show "P * q + unat m mod P = unat m" by (simp add: q_def)
  qed
  have lt: "unat m < 4294967296" by simp
  then have start: "unat start = i * q"
  proof -
    have "q + i * q \<le> unat m" using iq(1) by simp
    then have "i * q < 4294967296" using lt by linarith
    then show ?thesis unfolding start_def using q(1) by (subst unat_mult_exact) (simp_all add: i_def)
  qed
  have last: "snrt_cluster_core_idx c h = snrt_cluster_compute_core_num c - 1 \<longleftrightarrow> i = P - 1"
    using P0 by (simp add: word_unat_eq_iff i_def assms(7) unat_sub_exact)
  have cm: "unat core_m = (if i = P - 1 then q + unat m mod P else q)"
  proof -
    have "q + unat m mod P \<le> P * q + unat m mod P" using P0 by simp
    then have "q + unat m mod P < 4294967296" using iq(2) lt by linarith
    then show ?thesis using q by (auto simp: core_m_def last unat_add_exact)
  qed
  have range: "row_range (unat m) P i = map (\<lambda>r. i * q + r) [0..<unat core_m]"
    using map_add_upt [of "i * q" "unat core_m"] by (simp add: row_range_def cm q_def add.commute)
  define core_a where "core_a = (if tr then a + 8 * start else a + 8 * (start * lda))"
  have s: "start = of_nat (i * q)" using start by (metis of_nat_unat ucast_id)
  have addr: "gemv_addr tr core_a lda r k = gemv_addr tr a lda (i * q + r) k" for r k
    by (simp add: gemv_addr_def core_a_def s algebra_simps)
  have step: "wr_d mem' (y + 8 * start) (of_nat r) (gemv_row f tr n alpha core_a lda x incx mem' r) =
      wr_d mem' y (of_nat (i * q + r)) (gemv_row f tr n alpha a lda x incx mem' (i * q + r))" for mem' r
    by (simp add: wr_d_def gemv_row_def addr s algebra_simps)
  have g: "gemv f c h tr m n alpha a x incx y mem st =
      (if core_m > 0 then single_core_gemv f tr core_m n alpha core_a lda x incx (y + 8 * start) mem st
       else Some (mem, st))"
    by (simp add: gemv_def Let_def core_m_def start_def core_a_def lda_def)
  have "dptr core_a" unfolding core_a_def using assms(2) by (cases tr) (simp_all only: if_True if_False dptr_add)
  moreover have "dptr (y + 8 * start)" using assms(4) by (rule dptr_add)
  ultimately have "core_m \<noteq> 0 \<Longrightarrow> \<exists>st'. single_core_gemv f tr core_m n alpha core_a lda x incx (y + 8 * start) mem st =
     Some (fold (\<lambda>r mem. wr_d mem (y + 8 * start) (of_nat r) (gemv_row f tr n alpha core_a lda x incx mem r))
       [0..<unat core_m] mem, st')"
    using assms by (intro single_core_gemv_ok) simp_all
  then show ?thesis
    unfolding g range i_def [symmetric] fold_map comp_def step [symmetric]
    by (cases "core_m = 0") (auto simp: word_gt_0)
qed

section \<open>The result\<close>

text \<open>The rows of all cores, in the order in which the cores compute them.\<close>

lemma gemv_cluster_fold:
  assumes "n \<noteq> 0" "dptr a" "dptr x" "dptr y" "\<And>h i. i < 2 \<Longrightarrow> ssr_fresh (ssrs (sts h) i)"
    "\<And>h. h \<in> set hs \<Longrightarrow> unat (snrt_cluster_core_idx c h) < P" "P = unat (snrt_cluster_compute_core_num c)"
    and lda_def: "lda = (if tr then m else n)"
  shows "gemv_cluster f c hs tr m n alpha a x incx y sts mem =
     Some (fold (\<lambda>r mem. wr_d mem y (of_nat r) (gemv_row f tr n alpha a lda x incx mem r))
       (concat (map (\<lambda>h. row_range (unat m) P (unat (snrt_cluster_core_idx c h))) hs)) mem)"
  using assms(6)
proof (induction hs arbitrary: mem)
  case (Cons h hs)
  have "\<exists>st'. gemv f c h tr m n alpha a x incx y mem (sts h) =
     Some (fold (\<lambda>r mem. wr_d mem y (of_nat r) (gemv_row f tr n alpha a lda x incx mem r))
       (row_range (unat m) P (unat (snrt_cluster_core_idx c h))) mem, st')"
    by (rule gemv_core_ok) (use assms Cons.prems in auto)
  then show ?case using Cons by auto
qed simp

lemma gemv_cluster_result:
  assumes "n \<noteq> 0" "dptr a" "dptr x" "dptr y" "\<forall>h. \<forall>i<2. ssr_fresh (ssrs (sts h) i)"
    "mset (map (\<lambda>h. unat (snrt_cluster_core_idx c h)) hs) = mset [0..<unat (snrt_cluster_compute_core_num c)]"
    "snrt_cluster_compute_core_num c \<noteq> 0" "unat m \<le> 2 ^ 29"
    "gemv_apart tr n a (if tr then m else n) x incx {..<unat m} ((\<lambda>r. y + 8 * of_nat r) ` {..<unat m})"
  shows "\<exists>mem'. gemv_cluster f c hs tr m n alpha a x incx y sts mem = Some mem' \<and>
    (\<forall>r < unat m. rd_d mem' y (of_nat r) = gemv_row f tr n alpha a (if tr then m else n) x incx mem r) \<and>
    (\<forall>p. dptr p \<longrightarrow> p \<notin> ((\<lambda>r. y + 8 * of_nat r) ` {..<unat m}) \<longrightarrow> ld64 mem' (ucast p) = ld64 mem (ucast p))"
proof -
  define P lda where "P = unat (snrt_cluster_compute_core_num c)" and "lda = (if tr then m else n)"
  define rs where "rs = concat (map (\<lambda>h. row_range (unat m) P (unat (snrt_cluster_core_idx c h))) hs)"
  let ?w = "\<lambda>r. y + 8 * of_nat r :: u32"
  let ?v = "\<lambda>r mem. gemv_row f tr n alpha a lda x incx mem r"
  have P0: "0 < P" using assms(7) by (simp add: P_def unat_gt_0)
  have idx: "unat (snrt_cluster_core_idx c h) < P" if "h \<in> set hs" for h
  proof -
    have "unat (snrt_cluster_core_idx c h) \<in> set (map (\<lambda>h. unat (snrt_cluster_core_idx c h)) hs)" using that by simp
    also have "\<dots> = set [0..<P]" using assms(6) by (metis P_def set_mset_mset)
    finally show ?thesis by simp
  qed
  have run: "gemv_cluster f c hs tr m n alpha a x incx y sts mem =
      Some (fold (\<lambda>r mem. st64 mem (ucast (?w r)) (?v r mem)) rs mem)"
    using gemv_cluster_fold [OF assms(1-4) _ idx P_def lda_def] assms(5) by (simp add: wr_d_def rs_def)
  have "mset rs = (\<Sum>i\<in>#mset (map (\<lambda>h. unat (snrt_cluster_core_idx c h)) hs). mset (row_range (unat m) P i))"
    by (simp add: rs_def mset_concat comp_def multiset.map_comp flip: sum_mset_sum_list)
  also have "\<dots> = mset (concat (map (row_range (unat m) P) [0..<P]))"
    unfolding assms(6) P_def [symmetric] by (simp add: mset_concat comp_def flip: sum_mset_sum_list)
  finally have rows: "mset rs = mset [0..<unat m]" by (simp add: row_ranges [OF P0])
  then have dist: "distinct rs" by (simp add: mset_eq_imp_distinct_iff [OF rows])
  have set: "set rs = {..<unat m}" unfolding mset_eq_setD [OF rows] by auto
  have wd: "dptr (?w r)" for r using assms(4) by (rule dptr_add)
  have inj: "inj_on ?w {..<unat m}"
  proof (rule inj_onI)
    fix r r' assume r: "r \<in> {..<unat m}" "r' \<in> {..<unat m}" "?w r = ?w r'"
    then have eq: "of_nat (8 * r) = (of_nat (8 * r') :: u32)" by simp
    have "8 * r < 2 ^ LENGTH(32)" "8 * r' < 2 ^ LENGTH(32)" using r(1,2) assms(8) by simp_all
    then have "8 * r = 8 * r'" by (rule word_of_nat_inj [OF eq])
    then show "r = r'" by simp
  qed
  have frame: "?v r (st64 mem (ucast (?w k)) v) = ?v r mem" if "k < unat m" "r < unat m" for k r mem v
  proof (rule gemv_row_frame [OF _ assms(2,3) wd])
    show "gemv_apart tr n a lda x incx {r} {?w k}"
      by (rule gemv_apart_mono [OF assms(9) [folded lda_def]]) (use that in auto)
  qed
  have "rd_d (fold (\<lambda>r mem. st64 mem (ucast (?w r)) (?v r mem)) rs mem) y (of_nat r) = ?v r mem" if "r < unat m" for r
    unfolding rd_d_def
    by (rule dstore.fold_wr_at [OF dist]) (use that set inj wd frame in auto)
  moreover have "ld64 (fold (\<lambda>r mem. st64 mem (ucast (?w r)) (?v r mem)) rs mem) (ucast p) = ld64 mem (ucast p)"
    if "dptr p" "p \<notin> ((\<lambda>r. y + 8 * of_nat r) ` {..<unat m})" for p
    by (rule dstore.fold_wr_other) (use that set wd in auto)
  ultimately show ?thesis unfolding run lda_def by blast
qed

text \<open>
  The matrix-vector product of a cluster. The compute cores, in any order, leave in element
  \<open>r\<close> of \<open>y\<close>, for every row \<open>r < m\<close>, the chain of fused multiply-adds over the columns of row \<open>r\<close> of
  the matrix (of its transpose for \<open>trans\<close>) and \<open>x\<close> with increment \<open>incx\<close>, times \<open>alpha\<close>; every other
  aligned word keeps its value. The result array must not overlap the operands.
\<close>

theorem gemv_cluster_correct:
  assumes "n \<noteq> 0" "dptr a" "dptr x" "dptr y" "\<forall>h. \<forall>i<2. ssr_fresh (ssrs (sts h) i)"
    "mset (map (\<lambda>h. unat (snrt_cluster_core_idx c h)) hs) = mset [0..<unat (snrt_cluster_compute_core_num c)]"
    "snrt_cluster_compute_core_num c \<noteq> 0" "unat m \<le> 2 ^ 29"
    "gemv_apart tr n a (if tr then m else n) x incx {..<unat m} ((\<lambda>r. y + 8 * of_nat r) ` {..<unat m})"
  shows "\<exists>mem'. gemv_cluster f c hs tr m n alpha a x incx y sts mem = Some mem' \<and>
    (\<forall>r < unat m. rd_d mem' y (of_nat r) = gemv_row f tr n alpha a (if tr then m else n) x incx mem r) \<and>
    (\<forall>p. dptr p \<longrightarrow> p \<notin> ((\<lambda>r. y + 8 * of_nat r) ` {..<unat m}) \<longrightarrow> ld64 mem' (ucast p) = ld64 mem (ucast p))"
  by (rule gemv_cluster_result [OF assms])

theorem gemv_cluster_correct_witness:
  "\<exists>mem'. gemv_cluster int_fpu sample_cfg [3, 1, 2, 0, 7, 6, 5, 4] False 3 2 5 0x1000 0x2000 1 0x3000
       (\<lambda>_. reset_ssr_core) (\<lambda>_. 1) = Some mem' \<and>
     rd_d mem' 0x3000 2 = gemv_row int_fpu False 2 5 0x1000 2 0x2000 1 (\<lambda>_. 1) 2"
proof -
  have 1: "dptr (0x1000 :: u32)" "dptr (0x2000 :: u32)" "dptr (0x3000 :: u32)" by (simp_all add: dptr_mod)
  have r3: "{..<unat (3 :: u32)} = {0, 1, 2}" by auto
  have k2: "(\<forall>k<unat (2 :: u32). Q k) \<longleftrightarrow> Q 0 \<and> Q 1" for Q by (auto simp: less_2_cases_iff)
  have 3: "gemv_apart False 2 0x1000 (if False then 3 else 2) 0x2000 1 {..<unat (3 :: u32)}
      ((\<lambda>r. 0x3000 + 8 * of_nat r) ` {..<unat (3 :: u32)})"
    unfolding gemv_apart_def k2 r3 by (simp add: gemv_addr_def)
  have "snrt_cluster_compute_core_num sample_cfg \<noteq> 0" "unat (3 :: u32) \<le> 2 ^ 29" "(2 :: u32) \<noteq> 0"
    by (simp_all add: team_defs sample_cfg_def)
  from gemv_cluster_correct [OF this(3) 1 _ sample_team this(1,2) 3, of "\<lambda>_. reset_ssr_core" int_fpu 5 "\<lambda>_. 1"]
  show ?thesis by (auto dest: spec [of _ 2])
qed

end
