(* ===== verification/Pipeline.thy ===== *)
theory Pipeline
  imports Dma
begin

text \<open>
  Software pipelining over tiles, the scheme that the kernels share: in iteration \<open>t\<close> the data
  mover core loads tile \<open>t\<close> and stores tile \<open>t - 2\<close> while the compute cores work on tile \<open>t - 1\<close>, on two
  sets of buffers in turn. The contract of the phases is that those which the pipeline
  exchanges commute; the client lemma is that the pipeline then does what one tile after
  the other does. The contract is discharged by the parts of the memory each phase
  reads and writes.
\<close>

section \<open>The contract of the phases\<close>

locale tile_pipeline =
  fixes inp comp outp :: "nat \<Rightarrow> 's \<Rightarrow> 's"
    and N :: nat
  assumes in_comp: "Suc t < N \<Longrightarrow> inp (Suc t) (comp t s) = comp t (inp (Suc t) s)"
    and in_out: "Suc t < N \<Longrightarrow> inp (Suc t) (outp t s) = outp t (inp (Suc t) s)"
    and in_out2: "Suc (Suc t) < N \<Longrightarrow> inp (Suc (Suc t)) (outp t s) = outp t (inp (Suc (Suc t)) s)"
    and comp_out: "Suc t < N \<Longrightarrow> comp (Suc t) (outp t s) = outp t (comp (Suc t) s)"
begin

text \<open>Beyond the last tile a phase does nothing.\<close>

definition upto :: "(nat \<Rightarrow> 's \<Rightarrow> 's) \<Rightarrow> nat \<Rightarrow> 's \<Rightarrow> 's" where
  "upto f t s = (if t < N then f t s else s)"

text \<open>
  Iteration \<open>t\<close>: the compute phase is before, between or after the two phases of the data mover.
\<close>

definition pipe_step :: "nat \<Rightarrow> nat \<Rightarrow> 's \<Rightarrow> 's" where
  "pipe_step pos t s =
     (let i = upto inp t;
          c = (if 0 < t then upto comp (t - 1) else id);
          o' = (if 1 < t then upto outp (t - 2) else id)
      in if pos = 0 then o' (i (c s)) else if pos = 1 then o' (c (i s)) else c (o' (i s)))"

definition seq :: "nat \<Rightarrow> 's \<Rightarrow> 's" where
  "seq n s = fold (\<lambda>t s. upto outp t (upto comp t (upto inp t s))) [0..<n] s"

lemma upto_laws:
  "upto comp t (upto inp (Suc t) s) = upto inp (Suc t) (upto comp t s)"
  "upto outp t (upto inp (Suc t) s) = upto inp (Suc t) (upto outp t s)"
  "upto outp t (upto inp (Suc (Suc t)) s) = upto inp (Suc (Suc t)) (upto outp t s)"
  "upto outp t (upto comp (Suc t) s) = upto comp (Suc t) (upto outp t s)"
  by (auto simp: upto_def in_comp in_out in_out2 comp_out)

lemma pipe_prefix:
  "fold (\<lambda>t. pipe_step (pos t) t) [0..<n + 2] s =
     upto inp (n + 1) (upto comp n (upto inp n (seq n s)))"
proof (induction n)
  case 0
  then show ?case
    by (simp add: pipe_step_def seq_def numeral_2_eq_2 upto_laws Let_def)
next
  case (Suc n)
  have "fold (\<lambda>t. pipe_step (pos t) t) [0..<Suc n + 2] s =
      pipe_step (pos (n + 2)) (n + 2) (upto inp (n + 1) (upto comp n (upto inp n (seq n s))))"
    using Suc by simp
  also have "\<dots> = upto inp (n + 2) (upto comp (n + 1) (upto inp (n + 1) (seq (Suc n) s)))"
    by (simp add: pipe_step_def seq_def upto_laws Let_def)
  finally show ?case by simp
qed

theorem pipelined_sequential:
  "fold (\<lambda>t. pipe_step (pos t) t) [0..<N + 2] s = fold (\<lambda>t s. outp t (comp t (inp t s))) [0..<N] s"
proof -
  have "fold (\<lambda>t. pipe_step (pos t) t) [0..<N + 2] s = seq N s"
    unfolding pipe_prefix by (simp add: upto_def)
  also have "\<dots> = fold (\<lambda>t s. outp t (comp t (inp t s))) [0..<N] s"
    unfolding seq_def by (rule fold_cong) (auto simp: upto_def)
  finally show ?thesis .
qed

end

section \<open>Footprints\<close>

text \<open>
  \<open>f\<close> changes bytes of \<open>W\<close> only, and what it writes depends on the bytes of \<open>R\<close> only.
\<close>

definition footprint :: "u64 set \<Rightarrow> u64 set \<Rightarrow> (mem \<Rightarrow> mem) \<Rightarrow> bool" where
  "footprint R W f \<longleftrightarrow> (\<forall>m a. a \<notin> W \<longrightarrow> f m a = m a) \<and>
     (\<forall>m m'. (\<forall>a\<in>R. m a = m' a) \<longrightarrow> (\<forall>a. f m a = f m' a \<or> f m a = m a \<and> f m' a = m' a))"

lemma footprint_out: "footprint R W f \<Longrightarrow> a \<notin> W \<Longrightarrow> f m a = m a"
  by (simp add: footprint_def)

lemma footprint_dep:
  "footprint R W f \<Longrightarrow> (\<And>b. b \<in> R \<Longrightarrow> m b = m' b) \<Longrightarrow> f m a = f m' a \<or> f m a = m a \<and> f m' a = m' a"
  by (simp add: footprint_def)

lemma footprintI:
  assumes "\<And>m a. a \<notin> W \<Longrightarrow> f m a = m a"
    "\<And>m m' a. (\<And>b. b \<in> R \<Longrightarrow> m b = m' b) \<Longrightarrow> f m a = f m' a \<or> f m a = m a \<and> f m' a = m' a"
  shows "footprint R W f"
  using assms by (simp add: footprint_def)

lemma footprint_mono:
  assumes "footprint R W f" "R \<subseteq> R'" "W \<subseteq> W'"
  shows "footprint R' W' f"
proof (rule footprintI)
  fix m a assume "a \<notin> W'" then show "f m a = m a" using assms(3) by (intro footprint_out [OF assms(1)]) auto
next
  fix m m' :: mem and a assume "\<And>b. b \<in> R' \<Longrightarrow> m b = m' b"
  then show "f m a = f m' a \<or> f m a = m a \<and> f m' a = m' a" using assms(2) by (intro footprint_dep [OF assms(1)]) auto
qed

lemma footprint_commute:
  assumes "footprint R W f" "footprint R' W' g" "W \<inter> R' = {}" "W \<inter> W' = {}" "W' \<inter> R = {}"
  shows "f (g m) = g (f m)"
proof
  fix a
  have 1: "g m b = m b" if "b \<in> R" for b using that assms(5) by (intro footprint_out [OF assms(2)]) auto
  have 2: "f m b = m b" if "b \<in> R'" for b using that assms(3) by (intro footprint_out [OF assms(1)]) auto
  have f: "f (g m) a = f m a \<or> f (g m) a = g m a \<and> f m a = m a" by (rule footprint_dep [OF assms(1) 1])
  have g: "g (f m) a = g m a \<or> g (f m) a = f m a \<and> g m a = m a" by (rule footprint_dep [OF assms(2) 2])
  show "f (g m) a = g (f m) a"
  proof (cases "a \<in> W")
    case True
    then have "a \<notin> W'" using assms(4) by auto
    then have "g (f m) a = f m a" "g m a = m a" using assms(2) by (simp_all add: footprint_out)
    with f show ?thesis by auto
  next
    case False
    then have "f (g m) a = g m a" "f m a = m a" using assms(1) by (simp_all add: footprint_out)
    with g show ?thesis by auto
  qed
qed

lemma footprint_id [simp]: "footprint R W (\<lambda>m. m)"
  by (simp add: footprint_def)

lemma footprint_comp:
  assumes "footprint R W f" "footprint R W g"
  shows "footprint R W (\<lambda>m. g (f m))"
proof (rule footprintI)
  fix m a assume "a \<notin> W" then show "g (f m) a = m a" using assms by (simp add: footprint_out)
next
  fix m m' :: mem and a assume r: "\<And>b. b \<in> R \<Longrightarrow> m b = m' b"
  have f: "f m b = f m' b \<or> f m b = m b \<and> f m' b = m' b" for b by (rule footprint_dep [OF assms(1) r])
  have "f m b = f m' b" if "b \<in> R" for b using f [of b] r [OF that] by (elim disjE) simp_all
  then have "g (f m) a = g (f m') a \<or> g (f m) a = f m a \<and> g (f m') a = f m' a"
    by (rule footprint_dep [OF assms(2)])
  then show "g (f m) a = g (f m') a \<or> g (f m) a = m a \<and> g (f m') a = m' a"
    using f [of a] by (elim disjE) simp_all
qed

lemma footprint_fold:
  "(\<And>i. i \<in> set ixs \<Longrightarrow> footprint R W (f i)) \<Longrightarrow> footprint R W (fold f ixs)"
proof (induction ixs)
  case (Cons i ixs)
  then have "footprint R W (f i)" "footprint R W (fold f ixs)" by simp_all
  then have "footprint R W (\<lambda>m. fold f ixs (f i m))" by (rule footprint_comp)
  then show ?case by (simp add: comp_def)
qed (simp add: id_def)

text \<open>The bytes of an array.\<close>

definition bytes :: "u64 \<Rightarrow> nat \<Rightarrow> u64 set" where
  "bytes p n = {b. unat (b - p) < n}"

lemma copy_bytes_footprint: "footprint (bytes src n) (bytes dst n) (copy_bytes dst src n)"
proof -
  have "src + (b - dst) \<in> bytes src n \<longleftrightarrow> unat (b - dst) < n" for b by (simp add: bytes_def)
  then show ?thesis unfolding footprint_def by (auto simp: copy_bytes_def bytes_def)
qed

lemma ld64_cong: "(\<And>b. b \<in> bytes a 8 \<Longrightarrow> m b = m' b) \<Longrightarrow> ld64 m a = ld64 m' a"
  by (simp add: ld64_def bytes_def)

lemma ld64_out: "footprint R W f \<Longrightarrow> bytes a 8 \<inter> W = {} \<Longrightarrow> ld64 (f m) a = ld64 m a"
  by (rule ld64_cong, rule footprint_out) auto

lemma st64_footprint:
  assumes "\<And>m m'. (\<And>b. b \<in> R \<Longrightarrow> m b = m' b) \<Longrightarrow> v m = v m'"
  shows "footprint R (bytes a 8) (\<lambda>m. st64 m a (v m))"
proof (rule footprintI)
  fix m m' :: mem and b assume "\<And>b. b \<in> R \<Longrightarrow> m b = m' b"
  then have "v m = v m'" by (rule assms)
  then show "st64 m a (v m) b = st64 m' a (v m') b \<or> st64 m a (v m) b = m b \<and> st64 m' a (v m') b = m' b"
    by (simp add: st64_def)
qed (simp add: st64_def bytes_def)

lemma bytes_no_wrap:
  assumes "unat (p :: u32) + n \<le> 2 ^ 32"
  shows "bytes (ucast p) n = {b. unat p \<le> unat b \<and> unat b < unat p + n}"
proof (intro set_eqI iffI)
  fix b assume "b \<in> bytes (ucast p) n"
  then have lt: "unat (b - ucast p) < n" by (simp add: bytes_def)
  have "unat (ucast p + (b - ucast p) :: u64) = unat p + unat (b - ucast p)"
    using lt assms by (subst unat_add_exact) simp_all
  then have "unat b = unat p + unat (b - ucast p)" by simp
  then show "b \<in> {b. unat p \<le> unat b \<and> unat b < unat p + n}" using lt by simp
next
  fix b assume "b \<in> {b :: u64. unat p \<le> unat b \<and> unat b < unat p + n}"
  then have b: "unat p \<le> unat b" "unat b < unat p + n" by simp_all
  have "unat (b - ucast p) = unat b - unat p" using b by (subst unat_sub_exact) simp_all
  then show "b \<in> bytes (ucast p) n" using b by (simp add: bytes_def)
qed

lemma ucast_elem:
  assumes "unat (p :: u32) + 8 * k < 2 ^ 32"
  shows "(ucast (p + 8 * of_nat k) :: u64) = ucast p + of_nat (8 * k)" "unat (p + 8 * of_nat k) = unat p + 8 * k"
proof -
  show e: "(ucast (p + 8 * of_nat k) :: u64) = ucast p + of_nat (8 * k)"
    using ucast_u32_u64_of_nat [of p "8 * k"] assms by simp
  have "unat (of_nat (8 * k) :: u32) = 8 * k" using assms by (intro unat_of_nat_u32) simp
  then have "unat (p + of_nat (8 * k)) = unat p + 8 * k" using assms by (subst unat_add_exact) simp_all
  then show "unat (p + 8 * of_nat k) = unat p + 8 * k" by simp
qed

text \<open>A part of an array.\<close>

lemma bytes_part:
  assumes "unat (p :: u32) + n \<le> 2 ^ 32" "8 * k + r \<le> n" "0 < r"
  shows "bytes (ucast (p + 8 * of_nat k)) r \<subseteq> bytes (ucast p) n"
proof -
  have u: "unat (p + 8 * of_nat k) = unat p + 8 * k" using assms by (intro ucast_elem(2)) linarith
  have "unat (p + 8 * of_nat k) + r \<le> 2 ^ 32" using u assms by linarith
  from bytes_no_wrap [OF this] show ?thesis using bytes_no_wrap [OF assms(1)] u assms(2) by auto
qed

text \<open>A doubleword of a copied array.\<close>

lemma ld64_copy_bytes:
  assumes "8 * j + 8 \<le> n" "n \<le> 2 ^ 64"
  shows "ld64 (copy_bytes dst src n m) (dst + of_nat (8 * j)) = ld64 m (src + of_nat (8 * j))"
proof -
  have b: "copy_bytes dst src n m (dst + of_nat (8 * j) + of_nat k) = m (src + of_nat (8 * j) + of_nat k)" if "k < 8" for k
    using copy_bytes_offset [of "8 * j + k" n dst src m] that assms by (simp add: add.assoc)
  show ?thesis
    using b [of 0] b [of 1] b [of 2] b [of 3] b [of 4] b [of 5] b [of 6] b [of 7] by (simp add: ld64_def)
qed

text \<open>An element of a copied array, and one of an array that is not written; arrays apart from each other.\<close>

lemma copy_elem:
  assumes "unat dst + 8 * k \<le> 2 ^ 32" "unat src + 8 * k \<le> 2 ^ 32" "j < k"
  shows "rd_d (copy_bytes (ucast dst) (ucast src) (8 * k) m) dst (of_nat j) = rd_d m src (of_nat j)"
proof -
  have "unat dst + 8 * j < 2 ^ 32" "unat src + 8 * j < 2 ^ 32" using assms by linarith+
  then have "(ucast (dst + 8 * of_nat j) :: u64) = ucast dst + of_nat (8 * j)"
    "(ucast (src + 8 * of_nat j) :: u64) = ucast src + of_nat (8 * j)" by (simp_all only: ucast_elem(1))
  moreover have "8 * j + 8 \<le> 8 * k" "8 * k \<le> 2 ^ 64" using assms by simp_all
  ultimately show ?thesis unfolding rd_d_def by (simp only: ld64_copy_bytes)
qed

lemma rd_d_out:
  assumes "footprint R W f" "unat p + 8 * k \<le> 2 ^ 32" "j < k" "bytes (ucast p) (8 * k) \<inter> W = {}"
  shows "rd_d (f m) p (of_nat j) = rd_d m p (of_nat j)"
proof -
  have "bytes (ucast (p + 8 * of_nat j)) 8 \<subseteq> bytes (ucast p) (8 * k)"
    using assms(3) by (intro bytes_part [OF assms(2)]) simp_all
  then show ?thesis unfolding rd_d_def by (intro ld64_out [OF assms(1)]) (use assms(4) in blast)
qed

definition apart :: "u32 \<Rightarrow> nat \<Rightarrow> u32 \<Rightarrow> nat \<Rightarrow> bool" where
  "apart p n q k \<longleftrightarrow> unat p + n \<le> unat q \<or> unat q + k \<le> unat p"

lemma apart_bytes:
  assumes "apart p n q k" "unat p + n \<le> 2 ^ 32" "unat q + k \<le> 2 ^ 32"
  shows "bytes (ucast p) n \<inter> bytes (ucast q) k = {}"
  using assms(1) bytes_no_wrap [OF assms(2)] bytes_no_wrap [OF assms(3)] by (auto simp: apart_def)

section \<open>The data mover between two phases\<close>

text \<open>The channel is idle and no multicast is set up.\<close>

definition quiet :: "dma_state \<Rightarrow> bool" where
  "quiet s \<longleftrightarrow> (\<forall>c. dm_pending s c = []) \<and> dm_user s = 0"

lemma exec_row:
  assumes "unicast sys"
  shows "dma_exec sys \<lparr>x_src = p, x_dst = q, x_size = n, x_sstr = d, x_dstr = e, x_rows = Suc 0, x_user = 0\<rparr> =
    copy_bytes q p (unat n)"
  using assms by (intro ext) (simp add: dma_exec_copy)

text \<open>Two transfers and the wait for both.\<close>

lemma two_copies_wait:
  assumes "unicast sys" "quiet s" "2 \<le> count_list evs 0"
  shows "\<exists>s'. map_option snd (snrt_dma_wait_all sys 0 evs
        (snd (snrt_dma_start_1d_ptr d' p' n' 0 (snd (snrt_dma_start_1d_ptr d p n 0 s))))) = Some s' \<and> quiet s' \<and>
    dm_mem s' = copy_bytes (ucast d') (ucast p') (unat n') (copy_bytes (ucast d) (ucast p) (unat n) (dm_mem s))"
proof -
  let ?s = "snd (snrt_dma_start_1d_ptr d' p' n' 0 (snd (snrt_dma_start_1d_ptr d p n 0 s)))"
  have p: "only_channel 0 ?s" "length (dm_pending ?s 0) \<le> count_list evs 0" "dm_user ?s = 0"
    "fold (dma_exec sys) (dm_pending ?s 0) (dm_mem ?s) =
      copy_bytes (ucast d') (ucast p') (unat n') (copy_bytes (ucast d) (ucast p) (unat n) (dm_mem s))"
    using assms by (simp_all add: snrt_dma_start_1d_ptr_def start_1d_queues only_channel_def quiet_def exec_row)
  from wait_all_returns [of 0, OF _ p(1,2), of sys] p(3,4) show ?thesis by (auto simp: quiet_def)
qed

text \<open>One transfer and the wait for it.\<close>

lemma copy_wait:
  assumes "unicast sys" "quiet s" "1 \<le> count_list evs 0"
  shows "\<exists>evs' s'. snrt_dma_wait_all sys 0 evs (snd (snrt_dma_start_1d_ptr d p n 0 s)) = Some (evs', s') \<and> quiet s' \<and>
    dm_mem s' = copy_bytes (ucast d) (ucast p) (unat n) (dm_mem s)"
proof -
  let ?s = "snd (snrt_dma_start_1d_ptr d p n 0 s)"
  have p: "only_channel 0 ?s" "length (dm_pending ?s 0) \<le> count_list evs 0" "dm_user ?s = 0"
    "fold (dma_exec sys) (dm_pending ?s 0) (dm_mem ?s) = copy_bytes (ucast d) (ucast p) (unat n) (dm_mem s)"
    using assms by (simp_all add: snrt_dma_start_1d_ptr_def start_1d_queues only_channel_def quiet_def exec_row)
  from wait_all_returns [of 0, OF _ p(1,2), of sys] p(3,4) show ?thesis by (auto simp: quiet_def)
qed

end
