(* ===== verification/Gemv_Job.thy ===== *)
theory Gemv_Job
  imports Gemv Pipeline Alloc
begin

text \<open>
  The job around the matrix-vector product, \<open>main\<close> of \<open>sw/kernels/blas/gemv/src/main.c\<close>: the operands are copied to
  the TCDM, the compute cores run, and the result is copied back. The code waits for none of its transfers, so when they complete is
  given by the two lists of events: those before the cores compute, and those after the result is sent. The theorems show
  that the result is right when the copies have arrived before the barrier, and what it is when they have not.
\<close>

section \<open>The job\<close>

record gemv_bufs =
  gb_a :: u32
  gb_x :: u32
  gb_y :: u32

definition gemv_alloc :: "u32 \<Rightarrow> u32 \<Rightarrow> snrt_allocator_t \<Rightarrow> trap + gemv_bufs" where
  "gemv_alloc m n A =
     (let size_a = m * n * 8; size_x = n * 8; size_y = m * 8
      in case snrt_l1_alloc_cluster_local size_a 8 A of
           Inl e \<Rightarrow> Inl e
         | Inr (local_a, A) \<Rightarrow>
             (case snrt_l1_alloc_cluster_local size_x 8 A of
                Inl e \<Rightarrow> Inl e
              | Inr (local_x, A) \<Rightarrow>
                  (case snrt_l1_alloc_cluster_local size_y 8 A of
                     Inl e \<Rightarrow> Inl e
                   | Inr (local_y, A) \<Rightarrow> Inr \<lparr>gb_a = local_a, gb_x = local_x, gb_y = local_y\<rparr>)))"

definition gemv_copy_in :: "gemv_bufs \<Rightarrow> u32 \<Rightarrow> u32 \<Rightarrow> u32 \<Rightarrow> u32 \<Rightarrow> dma_state \<Rightarrow> dma_state" where
  "gemv_copy_in l m n a x s =
     (let (_, s) = snrt_dma_start_1d_ptr (gb_a l) a (m * n * 8) 0 s;
          (_, s) = snrt_dma_start_1d_ptr (gb_x l) x (n * 8) 0 s
      in s)"

definition gemv_copy_out :: "gemv_bufs \<Rightarrow> u32 \<Rightarrow> u32 \<Rightarrow> dma_state \<Rightarrow> dma_state" where
  "gemv_copy_out l m y s = snd (snrt_dma_start_1d_ptr y (gb_y l) (m * 8) 0 s)"

definition gemv_main ::
  "fpu \<Rightarrow> snrt_cfg \<Rightarrow> dma_sys \<Rightarrow> (hart \<Rightarrow> ssr_core) \<Rightarrow> hart list \<Rightarrow> snrt_allocator_t \<Rightarrow> bool \<Rightarrow> u32 \<Rightarrow> u32 \<Rightarrow> u64 \<Rightarrow>
   u32 \<Rightarrow> u32 \<Rightarrow> u32 \<Rightarrow> u32 list \<Rightarrow> u32 list \<Rightarrow> dma_state \<Rightarrow> trap + dma_state option" where
  "gemv_main f c sys sts hs A tr m n alpha a x y before after s =
     (case gemv_alloc m n A of
        Inl e \<Rightarrow> Inl e
      | Inr l \<Rightarrow> Inr (
          let s = fold (dma_event sys) before (gemv_copy_in l m n a x s)
          in map_option (\<lambda>mem. fold (dma_event sys) after (gemv_copy_out l m y (s\<lparr>dm_mem := mem\<rparr>)))
               (gemv_cluster f c hs tr m n alpha (gb_a l) (gb_x l) 1 (gb_y l) sts (dm_mem s))))"

section \<open>Transfers that are not waited for\<close>

text \<open>Events of the only channel in use complete its transfers in order.\<close>

lemma events_complete:
  assumes "only_channel ch s"
  shows "dm_mem (fold (dma_event sys) evs s) = fold (dma_exec sys) (take (count_list evs ch) (dm_pending s ch)) (dm_mem s) \<and>
    dm_pending (fold (dma_event sys) evs s) ch = drop (count_list evs ch) (dm_pending s ch) \<and>
    only_channel ch (fold (dma_event sys) evs s) \<and> dm_user (fold (dma_event sys) evs s) = dm_user s"
  using assms
proof (induction evs arbitrary: s)
  case (Cons e evs)
  note IH = Cons.IH [OF only_channel_event [OF Cons.prems]]
  show ?case
  proof (cases "dm_pending s e")
    case Nil
    then show ?thesis using Cons.IH [OF Cons.prems] by (cases "e = ch") (simp_all add: dma_event_idle)
  next
    case x: (Cons x xs)
    then have "e = ch" using Cons.prems by (auto simp: only_channel_def)
    then show ?thesis using IH [of sys e] x by (simp add: dma_event_busy)
  qed
qed simp

lemma gemv_copy_in_queue:
  "gemv_copy_in l m n a x s =
     snd (snrt_dma_start_1d_ptr (gb_x l) x (n * 8) 0 (snd (snrt_dma_start_1d_ptr (gb_a l) a (m * n * 8) 0 s)))"
  by (simp add: gemv_copy_in_def case_prod_unfold)

text \<open>The memory when the compute cores start, and at the end, for a number of transfers that have completed by then.\<close>

definition gemv_moves :: "gemv_bufs \<Rightarrow> u32 \<Rightarrow> u32 \<Rightarrow> u32 \<Rightarrow> u32 \<Rightarrow> (mem \<Rightarrow> mem) list" where
  "gemv_moves l m n a x =
     [copy_bytes (ucast (gb_a l)) (ucast a) (unat (m * n * 8)), copy_bytes (ucast (gb_x l)) (ucast x) (unat (n * 8))]"

definition arrived :: "gemv_bufs \<Rightarrow> u32 \<Rightarrow> u32 \<Rightarrow> u32 \<Rightarrow> u32 \<Rightarrow> nat \<Rightarrow> mem \<Rightarrow> mem" where
  "arrived l m n a x k = fold (\<lambda>g. g) (take k (gemv_moves l m n a x))"

definition late :: "gemv_bufs \<Rightarrow> u32 \<Rightarrow> u32 \<Rightarrow> u32 \<Rightarrow> u32 \<Rightarrow> nat \<Rightarrow> mem \<Rightarrow> mem" where
  "late l m n a x k = fold (\<lambda>g. g) (drop k (gemv_moves l m n a x))"

lemma gemv_main_phases:
  assumes "unicast sys" "quiet s" "gemv_alloc m n A = Inr l" "Suc (2 - count_list before 0) \<le> count_list after 0"
    "gemv_cluster f c hs tr m n alpha (gb_a l) (gb_x l) 1 (gb_y l) sts (arrived l m n a x (count_list before 0) (dm_mem s)) = Some mem"
  shows "\<exists>s'. gemv_main f c sys sts hs A tr m n alpha a x y before after s = Inr (Some s') \<and>
    dm_mem s' = copy_bytes (ucast y) (ucast (gb_y l)) (unat (m * 8))
      (late l m n a x (count_list before 0) mem)"
proof -
  define b where "b = count_list before 0"
  define xs where "xs =
    [\<lparr>x_src = ucast a, x_dst = ucast (gb_a l), x_size = m * n * 8, x_sstr = dm_sstr s, x_dstr = dm_dstr s, x_rows = 1, x_user = 0\<rparr>,
     \<lparr>x_src = ucast x, x_dst = ucast (gb_x l), x_size = n * 8, x_sstr = dm_sstr s, x_dstr = dm_dstr s, x_rows = 1, x_user = 0\<rparr>]"
  have gs: "map (dma_exec sys) xs = gemv_moves l m n a x" using assms(1) by (simp add: exec_row xs_def gemv_moves_def)
  have run: "fold (dma_exec sys) xs = fold (\<lambda>g. g) (map (dma_exec sys) xs)" for xs by (simp add: fold_map comp_def)
  let ?s0 = "gemv_copy_in l m n a x s"
  have s0: "only_channel 0 ?s0" "dm_pending ?s0 0 = xs" "dm_mem ?s0 = dm_mem s" "dm_user ?s0 = 0"
    using assms(2)
    by (simp_all add: gemv_copy_in_queue snrt_dma_start_1d_ptr_def start_1d_queues only_channel_def quiet_def queue_xfer_def xs_def)
  define s1 where "s1 = fold (dma_event sys) before ?s0"
  have s1: "dm_mem s1 = arrived l m n a x b (dm_mem s)" "dm_pending s1 0 = drop b xs" "only_channel 0 s1" "dm_user s1 = 0"
    using events_complete [OF s0(1), of sys before]
    by (simp_all add: s0(2-4) s1_def [symmetric] b_def [symmetric] run arrived_def take_map [symmetric] gs)
  let ?s2 = "gemv_copy_out l m y (s1\<lparr>dm_mem := mem\<rparr>)"
  have s2: "only_channel 0 ?s2" "dm_mem ?s2 = mem"
    "fold (dma_exec sys) (dm_pending ?s2 0) mem = copy_bytes (ucast y) (ucast (gb_y l)) (unat (m * 8)) (late l m n a x b mem)"
    using s1 assms(1) by (simp_all add: gemv_copy_out_def snrt_dma_start_1d_ptr_def start_1d_queues only_channel_def exec_row
      late_def run drop_map [symmetric] gs)
  have "length (dm_pending ?s2 0) \<le> count_list after 0"
    using s1(2) assms(4) by (auto simp: gemv_copy_out_def snrt_dma_start_1d_ptr_def start_1d_queues b_def xs_def)
  then have "dm_mem (fold (dma_event sys) after ?s2) = copy_bytes (ucast y) (ucast (gb_y l)) (unat (m * 8)) (late l m n a x b mem)"
    using events_complete [OF s2(1), of sys after] s2(2,3) by simp
  then show ?thesis
    using assms(5) by (simp add: gemv_main_def assms(3) Let_def s1_def [symmetric] s1(1) b_def)
qed

section \<open>The buffers\<close>

text \<open>No array wraps around the address space; the buffers are aligned, apart from each other and from the arrays of the main memory.\<close>

definition gemv_space :: "gemv_bufs \<Rightarrow> u32 \<Rightarrow> u32 \<Rightarrow> u32 \<Rightarrow> u32 \<Rightarrow> u32 \<Rightarrow> bool" where
  "gemv_space l m n a x y \<longleftrightarrow>
     (let N = unat m * unat n; loc = [(gb_a l, N), (gb_x l, unat n), (gb_y l, unat m)];
          arrs = [(a, N), (x, unat n), (y, unat m)]
      in (\<forall>(p, k)\<in>set loc. dptr p) \<and> (\<forall>(p, k)\<in>set (loc @ arrs). unat p + 8 * k < 2 ^ 32) \<and>
        sorted_wrt (\<lambda>(p, k) (q, j). apart p (8 * k) q (8 * j)) loc \<and>
        (\<forall>(p, k)\<in>set arrs. \<forall>(q, j)\<in>set loc. apart p (8 * k) q (8 * j)))"

definition gemv_idx :: "bool \<Rightarrow> nat \<Rightarrow> nat \<Rightarrow> nat \<Rightarrow> nat" where
  "gemv_idx tr lda r k = (if tr then k * lda + r else r * lda + k)"

lemma gemv_addr_idx: "gemv_addr tr p lda r k = p + 8 * of_nat (gemv_idx tr (unat lda) r k)"
  by (simp add: gemv_addr_def gemv_idx_def)

lemma gemv_idx_less:
  assumes "r < M" "k < N"
  shows "gemv_idx tr (if tr then M else N) r k < M * N"
proof -
  have "k * M + r < Suc k * M" "r * N + k < Suc r * N" using assms by simp_all
  moreover have "Suc k * M \<le> N * M" "Suc r * N \<le> M * N" using assms by (intro mult_right_mono; simp)+
  ultimately show ?thesis unfolding gemv_idx_def by (cases tr) (simp_all only: if_True if_False mult.commute [of N M])
qed

lemma gemv_row_cong:
  assumes "\<And>j. j < unat m * unat n \<Longrightarrow> rd_d mem p (of_nat j) = rd_d mem' p' (of_nat j)"
    "\<And>j. j < unat n \<Longrightarrow> rd_d mem q (of_nat j) = rd_d mem' q' (of_nat j)" "r < unat m"
  shows "gemv_row f tr n alpha p (if tr then m else n) q 1 mem r = gemv_row f tr n alpha p' (if tr then m else n) q' 1 mem' r"
proof -
  have "ld64 mem (ucast (gemv_addr tr p (if tr then m else n) r k)) = ld64 mem' (ucast (gemv_addr tr p' (if tr then m else n) r k)) \<and>
      ld64 mem (ucast (q + 8 * (of_nat k * 1))) = ld64 mem' (ucast (q' + 8 * (of_nat k * 1)))" if "k < unat n" for k
  proof
    have "gemv_idx tr (unat (if tr then m else n)) r k < unat m * unat n"
      using gemv_idx_less [OF assms(3) that, of tr] by (cases tr) simp_all
    from assms(1) [OF this] show "ld64 mem (ucast (gemv_addr tr p (if tr then m else n) r k)) =
        ld64 mem' (ucast (gemv_addr tr p' (if tr then m else n) r k))" unfolding gemv_addr_idx rd_d_def .
    from assms(2) [OF that] show "ld64 mem (ucast (q + 8 * (of_nat k * 1))) = ld64 mem' (ucast (q' + 8 * (of_nat k * 1)))"
      by (simp add: rd_d_def)
  qed
  then show ?thesis
    unfolding gemv_row_def by (intro arg_cong2 [where f = "fmul f"] fold_cong refl) simp_all
qed

lemma gemv_spaceD:
  assumes "gemv_space l m n a x y"
  shows "dptr (gb_a l)" "dptr (gb_x l)" "dptr (gb_y l)"
    "unat (gb_a l) + 8 * (unat m * unat n) < 2 ^ 32" "unat (gb_x l) + 8 * unat n < 2 ^ 32" "unat (gb_y l) + 8 * unat m < 2 ^ 32"
    "unat a + 8 * (unat m * unat n) < 2 ^ 32" "unat x + 8 * unat n < 2 ^ 32" "unat y + 8 * unat m < 2 ^ 32"
    "apart (gb_a l) (8 * (unat m * unat n)) (gb_x l) (8 * unat n)" "apart (gb_a l) (8 * (unat m * unat n)) (gb_y l) (8 * unat m)"
    "apart (gb_x l) (8 * unat n) (gb_y l) (8 * unat m)" "apart x (8 * unat n) (gb_a l) (8 * (unat m * unat n))"
  using assms by (simp_all add: gemv_space_def Let_def)

lemma gemv_sizes:
  assumes "gemv_space l m n a x y"
  shows "unat (m * n * 8) = 8 * (unat m * unat n)" "unat (n * 8) = 8 * unat n" "unat (m * 8) = 8 * unat m"
proof -
  note d = gemv_spaceD(4-6) [OF assms]
  have mn: "unat (m * n) = unat m * unat n" by (rule unat_mult_exact) (use d(1) in simp)
  have "unat p * unat (8 :: u32) < 2 ^ LENGTH(32)" if "8 * unat p < 2 ^ 32" for p :: u32 using that by simp
  note x8 = unat_mult_exact [OF this]
  show "unat (m * n * 8) = 8 * (unat m * unat n)" "unat (n * 8) = 8 * unat n" "unat (m * 8) = 8 * unat m"
    using x8 [of "m * n"] x8 [of n] x8 [of m] d by (simp_all add: mn)
qed

section \<open>The computation\<close>

text \<open>The compute cores on the buffers, whatever these hold.\<close>

lemma gemv_on_buffers:
  assumes "gemv_space l m n a x y" "n \<noteq> 0" "\<forall>h. \<forall>i<2. ssr_fresh (ssrs (sts h) i)"
    "mset (map (\<lambda>h. unat (snrt_cluster_core_idx c h)) hs) = mset [0..<unat (snrt_cluster_compute_core_num c)]"
    "snrt_cluster_compute_core_num c \<noteq> 0"
  shows "\<exists>mem'. gemv_cluster f c hs tr m n alpha (gb_a l) (gb_x l) 1 (gb_y l) sts mem = Some mem' \<and>
    (\<forall>r<unat m. rd_d mem' (gb_y l) (of_nat r) = gemv_row f tr n alpha (gb_a l) (if tr then m else n) (gb_x l) 1 mem r)"
proof -
  note d = gemv_spaceD [OF assms(1)]
  have m29: "unat m \<le> 2 ^ 29" using d(6) by simp
  have el: "p + 8 * of_nat i \<noteq> q + 8 * of_nat j"
    if "apart p (8 * k) q (8 * k')" "unat p + 8 * k < 2 ^ 32" "unat q + 8 * k' < 2 ^ 32" "i < k" "j < k'" for p q :: u32 and k k' i j
  proof -
    have "unat (p + 8 * of_nat i) = unat p + 8 * i" "unat (q + 8 * of_nat j) = unat q + 8 * j"
      using that(2-5) by (intro ucast_elem(2); linarith)+
    moreover have "unat p + 8 * i \<noteq> unat q + 8 * j" using that(1,4,5) by (auto simp: apart_def)
    ultimately show ?thesis by metis
  qed
  have "gemv_apart tr n (gb_a l) (if tr then m else n) (gb_x l) 1 {..<unat m} ((\<lambda>r. gb_y l + 8 * of_nat r) ` {..<unat m})"
    unfolding gemv_apart_def
  proof (intro ballI allI impI conjI)
    fix r k assume r: "r \<in> {..<unat m}" "k < unat n"
    have ix: "gemv_idx tr (unat (if tr then m else n)) r k < unat m * unat n"
      using gemv_idx_less [of r "unat m" k "unat n" tr] r by (cases tr) simp_all
    show "gemv_addr tr (gb_a l) (if tr then m else n) r k \<notin> (\<lambda>r. gb_y l + 8 * of_nat r) ` {..<unat m}"
      unfolding gemv_addr_idx by (intro notI, erule imageE) (use el [OF d(11,4,6) ix] in blast)
    show "gb_x l + 8 * (of_nat k * 1) \<notin> (\<lambda>r. gb_y l + 8 * of_nat r) ` {..<unat m}"
      unfolding mult_1_right by (intro notI, erule imageE) (use el [OF d(12,5,6) r(2)] in blast)
  qed
  from gemv_cluster_result [OF assms(2) d(1-3) assms(3-5) m29 this, of f alpha mem] show ?thesis by blast
qed

text \<open>The elements of the operands once the copies have arrived.\<close>

lemma gemv_arrived:
  assumes "gemv_space l m n a x y" "2 \<le> k"
  shows "\<And>j. j < unat m * unat n \<Longrightarrow> rd_d (arrived l m n a x k mem) (gb_a l) (of_nat j) = rd_d mem a (of_nat j)"
    "\<And>j. j < unat n \<Longrightarrow> rd_d (arrived l m n a x k mem) (gb_x l) (of_nat j) = rd_d mem x (of_nat j)"
proof -
  note d = gemv_spaceD [OF assms(1)]
  let ?N = "unat m * unat n"
  let ?m1 = "copy_bytes (ucast (gb_a l)) (ucast a) (8 * ?N) mem"
  have e: "arrived l m n a x k mem = copy_bytes (ucast (gb_x l)) (ucast x) (8 * unat n) ?m1"
    using assms(2) by (simp add: arrived_def gemv_moves_def gemv_sizes [OF assms(1)])
  have ax: "bytes (ucast (gb_a l)) (8 * ?N) \<inter> bytes (ucast (gb_x l)) (8 * unat n) = {}"
    using apart_bytes [OF d(10)] d(4,5) by simp
  have xa: "bytes (ucast x) (8 * unat n) \<inter> bytes (ucast (gb_a l)) (8 * ?N) = {}"
    using apart_bytes [OF d(13)] d(8,4) by simp
  note le = d(4,5,7,8) [THEN less_imp_le]
  show "rd_d (arrived l m n a x k mem) (gb_a l) (of_nat j) = rd_d mem a (of_nat j)" if "j < ?N" for j
    unfolding e using rd_d_out [OF copy_bytes_footprint le(1) that ax] copy_elem [OF le(1,3) that] by simp
  show "rd_d (arrived l m n a x k mem) (gb_x l) (of_nat j) = rd_d mem x (of_nat j)" if "j < unat n" for j
    unfolding e using copy_elem [OF le(2,4) that] rd_d_out [OF copy_bytes_footprint le(4) that xa] by simp
qed

text \<open>The copies do not change the result.\<close>

lemma gemv_late:
  assumes "gemv_space l m n a x y" "j < unat m"
  shows "rd_d (late l m n a x k mem) (gb_y l) (of_nat j) = rd_d mem (gb_y l) (of_nat j)"
proof -
  note d = gemv_spaceD [OF assms(1)]
  have ya: "bytes (ucast (gb_y l)) (8 * unat m) \<inter> bytes (ucast (gb_a l)) (8 * (unat m * unat n)) = {}"
    and yx: "bytes (ucast (gb_y l)) (8 * unat m) \<inter> bytes (ucast (gb_x l)) (8 * unat n) = {}"
    using apart_bytes [OF d(11)] apart_bytes [OF d(12)] d(4-6) by auto
  note o = rd_d_out [OF copy_bytes_footprint d(6) [THEN less_imp_le] assms(2) ya] rd_d_out [OF copy_bytes_footprint d(6) [THEN less_imp_le] assms(2) yx]
  consider "k = 0" | "k = 1" | "2 \<le> k" by linarith
  then show ?thesis
    by cases (simp_all add: late_def gemv_moves_def gemv_sizes [OF assms(1)] o)
qed

section \<open>The buffers are those of the allocator\<close>

text \<open>
  The heap is below the end of the address space, the sizes of the buffers do not wrap, and the arrays of the main memory are not in
  the heap.
\<close>

definition gemv_fits :: "snrt_allocator_t \<Rightarrow> u32 \<Rightarrow> u32 \<Rightarrow> u32 \<Rightarrow> u32 \<Rightarrow> u32 \<Rightarrow> bool" where
  "gemv_fits A m n a x y \<longleftrightarrow>
     unat (a_next A) \<le> unat (a_end A) \<and> unat (a_end A) + 8 \<le> 2 ^ 32 \<and>
     (\<forall>(p, k)\<in>set [(a, unat m * unat n), (x, unat n), (y, unat m)].
        unat p + 8 * k < 2 ^ 32 \<and> (unat p + 8 * k \<le> unat (a_next A) \<or> unat (a_end A) \<le> unat p))"

lemma l1_alloc_block:
  assumes "snrt_l1_alloc_cluster_local sz 8 A = Inr (p, A')" "unat (a_next A) \<le> unat (a_end A)" "unat (a_end A) + 8 \<le> 2 ^ 32"
  shows "dptr p \<and> unat (a_next A) \<le> unat p \<and> unat p + unat sz = unat (a_next A') \<and> unat (a_next A') \<le> unat (a_end A) \<and> a_end A' = a_end A"
proof -
  have "l1_local_req (sz, 8) A = Some (unat p, A')" using assms by (simp add: l1_local_req_def no_wrap_def)
  from l1_local_reqD [OF this] show ?thesis by (auto simp: dptr_mod)
qed

lemma gemv_alloc_space:
  assumes "gemv_alloc m n A = Inr l" "gemv_fits A m n a x y"
  shows "gemv_space l m n a x y"
proof -
  obtain la A1 lx A2 ly A3 where 1: "snrt_l1_alloc_cluster_local (m * n * 8) 8 A = Inr (la, A1)"
    "snrt_l1_alloc_cluster_local (n * 8) 8 A1 = Inr (lx, A2)" "snrt_l1_alloc_cluster_local (m * 8) 8 A2 = Inr (ly, A3)"
    and l: "l = \<lparr>gb_a = la, gb_x = lx, gb_y = ly\<rparr>"
    using assms(1) by (auto simp: gemv_alloc_def Let_def split: sum.splits)
  have h: "unat (a_next A) \<le> unat (a_end A)" "unat (a_end A) + 8 \<le> 2 ^ 32" using assms(2) by (simp_all add: gemv_fits_def)
  have arr: "unat a + 8 * (unat m * unat n) < 2 ^ 32" "unat x + 8 * unat n < 2 ^ 32" "unat y + 8 * unat m < 2 ^ 32"
    "unat a + 8 * (unat m * unat n) \<le> unat (a_next A) \<or> unat (a_end A) \<le> unat a"
    "unat x + 8 * unat n \<le> unat (a_next A) \<or> unat (a_end A) \<le> unat x"
    "unat y + 8 * unat m \<le> unat (a_next A) \<or> unat (a_end A) \<le> unat y"
    using assms(2) by (simp_all add: gemv_fits_def)
  have x8: "unat (p * 8) = 8 * unat p" if "8 * unat p < 2 ^ 32" for p :: u32 using that by (subst unat_mult_exact) simp_all
  have mn: "unat (m * n) = unat m * unat n" by (rule unat_mult_exact) (use arr(1) in simp)
  have sz: "unat (m * n * 8) = 8 * (unat m * unat n)" "unat (n * 8) = 8 * unat n" "unat (m * 8) = 8 * unat m"
    using x8 [of "m * n"] x8 [of n] x8 [of m] arr(1-3) by (simp_all add: mn)
  note b1 = l1_alloc_block [OF 1(1) h, unfolded sz]
  have h1: "unat (a_next A1) \<le> unat (a_end A1)" "unat (a_end A1) + 8 \<le> 2 ^ 32" using b1 h(2) by simp_all
  note b2 = l1_alloc_block [OF 1(2) h1, unfolded sz]
  have h2: "unat (a_next A2) \<le> unat (a_end A2)" "unat (a_end A2) + 8 \<le> 2 ^ 32" using b2 h1(2) by simp_all
  note b3 = l1_alloc_block [OF 1(3) h2, unfolded sz]
  have e: "a_end A2 = a_end A" "a_end A1 = a_end A" using b1 b2 by simp_all
  show ?thesis
    unfolding gemv_space_def Let_def l
    using b1 b2 [unfolded e] b3 [unfolded e] h(2) arr by (auto simp: apart_def)
qed

section \<open>The result\<close>

text \<open>The compute cores of the cluster, with fresh stream registers, and a data mover without pending transfers.\<close>

definition gemv_team :: "snrt_cfg \<Rightarrow> dma_sys \<Rightarrow> (hart \<Rightarrow> ssr_core) \<Rightarrow> hart list \<Rightarrow> dma_state \<Rightarrow> bool" where
  "gemv_team c sys sts hs s \<longleftrightarrow>
     mset (map (\<lambda>h. unat (snrt_cluster_core_idx c h)) hs) = mset [0..<unat (snrt_cluster_compute_core_num c)] \<and>
     snrt_cluster_compute_core_num c \<noteq> 0 \<and> (\<forall>h. \<forall>i<2. ssr_fresh (ssrs (sts h) i)) \<and> unicast sys \<and> quiet s"

text \<open>The rows that arrive in the main memory are those of the memory the compute cores start on.\<close>

lemma gemv_main_rows:
  assumes "gemv_alloc m n A = Inr l" "gemv_space l m n a x y" "gemv_team c sys sts hs s" "n \<noteq> 0"
    "Suc (2 - count_list before 0) \<le> count_list after 0"
  shows "\<exists>s'. gemv_main f c sys sts hs A tr m n alpha a x y before after s = Inr (Some s') \<and>
    (\<forall>r<unat m. rd_d (dm_mem s') y (of_nat r) =
       gemv_row f tr n alpha (gb_a l) (if tr then m else n) (gb_x l) 1 (arrived l m n a x (count_list before 0) (dm_mem s)) r)"
proof -
  have t: "mset (map (\<lambda>h. unat (snrt_cluster_core_idx c h)) hs) = mset [0..<unat (snrt_cluster_compute_core_num c)]"
    "snrt_cluster_compute_core_num c \<noteq> 0" "\<forall>h. \<forall>i<2. ssr_fresh (ssrs (sts h) i)" "unicast sys" "quiet s"
    using assms(3) unfolding gemv_team_def by blast+
  let ?m1 = "arrived l m n a x (count_list before 0) (dm_mem s)"
  obtain mem where mem: "gemv_cluster f c hs tr m n alpha (gb_a l) (gb_x l) 1 (gb_y l) sts ?m1 = Some mem"
    "\<forall>r<unat m. rd_d mem (gb_y l) (of_nat r) = gemv_row f tr n alpha (gb_a l) (if tr then m else n) (gb_x l) 1 ?m1 r"
    using gemv_on_buffers [OF assms(2,4) t(3,1,2)] by blast
  obtain s' where s': "gemv_main f c sys sts hs A tr m n alpha a x y before after s = Inr (Some s')"
    "dm_mem s' = copy_bytes (ucast y) (ucast (gb_y l)) (unat (m * 8)) (late l m n a x (count_list before 0) mem)"
    using gemv_main_phases [OF t(4,5) assms(1,5) mem(1)] by blast
  note d = gemv_spaceD(6,9) [OF assms(2), THEN less_imp_le]
  have "rd_d (dm_mem s') y (of_nat r) = rd_d mem (gb_y l) (of_nat r)" if "r < unat m" for r
    unfolding s'(2) gemv_sizes(3) [OF assms(2)] copy_elem [OF d(2,1) that] by (rule gemv_late [OF assms(2) that])
  then show ?thesis using s'(1) mem(2) by simp
qed

text \<open>
  C18: The job of the matrix-vector product. When the two copies of the operands have completed before the compute cores
  start and the copy of the result completes later, element \<open>r\<close> of \<open>y\<close> in the main memory is, for every row \<open>r < m\<close>, the scaled
  chain of fused multiply-adds of row \<open>r\<close> of the matrix in the main memory (of its transpose for \<open>trans\<close>) and the vector \<open>x\<close>
  there. The code does not enforce the hypothesis on the events, see \<open>gemv_main_stale\<close>.
\<close>

theorem gemv_main_correct:
  assumes "gemv_alloc m n A = Inr l" "gemv_fits A m n a x y" "gemv_team c sys sts hs s" "n \<noteq> 0"
    "2 \<le> count_list before 0" "1 \<le> count_list after 0"
  shows "\<exists>s'. gemv_main f c sys sts hs A tr m n alpha a x y before after s = Inr (Some s') \<and>
    (\<forall>r<unat m. rd_d (dm_mem s') y (of_nat r) = gemv_row f tr n alpha a (if tr then m else n) x 1 (dm_mem s) r)"
proof -
  note sp = gemv_alloc_space [OF assms(1,2)]
  have "Suc (2 - count_list before 0) \<le> count_list after 0" using assms(5,6) by simp
  note run = gemv_main_rows [OF assms(1) sp assms(3,4) this, of f tr alpha]
  have "gemv_row f tr n alpha (gb_a l) (if tr then m else n) (gb_x l) 1 (arrived l m n a x (count_list before 0) (dm_mem s)) r =
      gemv_row f tr n alpha a (if tr then m else n) x 1 (dm_mem s) r" if "r < unat m" for r
    by (rule gemv_row_cong [OF gemv_arrived [OF sp assms(5)] that])
  with run show ?thesis by auto
qed

text \<open>
  C19: The race of the job. When no copy has completed by the time the compute cores start, which nothing in the code
  prevents, the result in the main memory is computed from what the buffers in the TCDM held before: it
  does not depend on the matrix and the vector.
\<close>

theorem gemv_main_stale:
  assumes "gemv_alloc m n A = Inr l" "gemv_fits A m n a x y" "gemv_team c sys sts hs s" "n \<noteq> 0"
    "count_list before 0 = 0" "3 \<le> count_list after 0"
  shows "\<exists>s'. gemv_main f c sys sts hs A tr m n alpha a x y before after s = Inr (Some s') \<and>
    (\<forall>r<unat m. rd_d (dm_mem s') y (of_nat r) =
       gemv_row f tr n alpha (gb_a l) (if tr then m else n) (gb_x l) 1 (dm_mem s) r)"
proof -
  note sp = gemv_alloc_space [OF assms(1,2)]
  have "Suc (2 - count_list before 0) \<le> count_list after 0" using assms(5,6) by simp
  from gemv_main_rows [OF assms(1) sp assms(3,4) this, of f tr alpha] show ?thesis by (simp add: assms(5) arrived_def)
qed

section \<open>Witnesses\<close>

definition gemv_heap :: snrt_allocator_t where
  "gemv_heap = \<lparr>a_base = 0x10000000, a_end = 0x10020000, a_next = 0x10000004\<rparr>"

definition gemv_sample :: gemv_bufs where
  "gemv_sample = \<lparr>gb_a = 0x10000008, gb_x = 0x10000038, gb_y = 0x10000048\<rparr>"

lemma gemv_sample_ok:
  "gemv_alloc 3 2 gemv_heap = Inr gemv_sample"
  "gemv_fits gemv_heap 3 2 0x80000000 0x80001000 0x80002000"
  "gemv_team sample_cfg sample_sys (\<lambda>_. reset_ssr_core) [3, 1, 2, 0, 7, 6, 5, 4] sample_dma"
proof -
  show "gemv_alloc 3 2 gemv_heap = Inr gemv_sample"
    by (simp add: gemv_alloc_def gemv_heap_def gemv_sample_def snrt_l1_alloc_cluster_local_def snrt_align_up_def
      snrt_l1_next_v2_def snrt_l1_alloc_check_bounds_def Let_def)
  show "gemv_fits gemv_heap 3 2 0x80000000 0x80001000 0x80002000" by (simp add: gemv_fits_def gemv_heap_def)
  have "snrt_cluster_compute_core_num sample_cfg \<noteq> 0" by (simp add: team_defs sample_cfg_def)
  then show "gemv_team sample_cfg sample_sys (\<lambda>_. reset_ssr_core) [3, 1, 2, 0, 7, 6, 5, 4] sample_dma"
    using sample_team sample_dma_ok(1-3) by (simp add: gemv_team_def quiet_def)
qed

theorem gemv_main_correct_witness:
  "\<exists>s'. gemv_main int_fpu sample_cfg sample_sys (\<lambda>_. reset_ssr_core) [3, 1, 2, 0, 7, 6, 5, 4] gemv_heap True 3 2 5
       0x80000000 0x80001000 0x80002000 [0, 0] [0] sample_dma = Inr (Some s') \<and>
     rd_d (dm_mem s') 0x80002000 1 = gemv_row int_fpu True 2 5 0x80000000 3 0x80001000 1 (dm_mem sample_dma) 1"
  using gemv_main_correct [OF gemv_sample_ok, of "[0, 0]" "[0]" int_fpu True 5] by (auto dest: spec [of _ 1])

theorem gemv_main_stale_witness:
  "\<exists>s'. gemv_main int_fpu sample_cfg sample_sys (\<lambda>_. reset_ssr_core) [3, 1, 2, 0, 7, 6, 5, 4] gemv_heap False 3 2 5
       0x80000000 0x80001000 0x80002000 [] [0, 0, 0] sample_dma = Inr (Some s') \<and>
     rd_d (dm_mem s') 0x80002000 1 = gemv_row int_fpu False 2 5 0x10000008 2 0x10000038 1 (dm_mem sample_dma) 1"
  using gemv_main_stale [OF gemv_sample_ok, of "[]" "[0, 0, 0]" int_fpu False 5]
  by (auto simp: gemv_sample_def dest: spec [of _ 1])

end
