(* ===== verification/Axpy_Job.thy ===== *)
theory Axpy_Job
  imports Axpy Pipeline
begin

text \<open>
  The job of \<open>axpy.h\<close> around the kernels: the vectors are processed in tiles, double-buffered in the TCDM of the cluster. The
  model is that of the preset \<open>DOUBLE_BUFFER = 1\<close> and of job arguments that are already in the
  TCDM (\<open>JOB_ARGS_PRELOADED\<close>). In an iteration the data mover core and the compute cores run
  concurrently up to the barrier: the compute phase is before, between or after the two
  phases of the data mover, as given for each iteration. The transfers complete
  in the events given for each wait.
\<close>

section \<open>The job\<close>

record axpy_args_t =
  args_n :: u32
  args_a :: u64
  args_x :: u32
  args_y :: u32
  args_z :: u32
  args_n_tiles :: u32
  args_funcptr :: "hart \<Rightarrow> u32 \<Rightarrow> u64 \<Rightarrow> u32 \<Rightarrow> u32 \<Rightarrow> u32 \<Rightarrow> mem \<Rightarrow> mem option"

definition axpy_args_size :: u64 where
  "axpy_args_size = 40"

definition ALIGN_NEXT_FROM_BASE :: "u64 \<Rightarrow> u64 \<Rightarrow> u64 \<Rightarrow> u64" where
  "ALIGN_NEXT_FROM_BASE addr base sz = ((addr - base) + sz - 1) div sz * sz + base"

definition BANK_ALIGNMENT :: u64 where
  "BANK_ALIGNMENT = 8"

definition TCDM_ALIGNMENT :: u64 where
  "TCDM_ALIGNMENT = 24 * BANK_ALIGNMENT"

definition ALIGN_UP_TCDM :: "snrt_cfg \<Rightarrow> u64 \<Rightarrow> u64" where
  "ALIGN_UP_TCDM c addr = ALIGN_NEXT_FROM_BASE addr (ucast (SNRT_TCDM_START_ADDR c)) TCDM_ALIGNMENT"

text \<open>The buffers, the two sets of them by their index.\<close>

record axpy_bufs =
  local_x :: "u32 \<Rightarrow> u32"
  local_y :: "u32 \<Rightarrow> u32"
  local_z :: "u32 \<Rightarrow> u32"

definition axpy_buffers :: "snrt_cfg \<Rightarrow> u32 \<Rightarrow> u32 \<Rightarrow> axpy_bufs" where
  "axpy_buffers c args sz =
     (let local_x0_addr = ALIGN_UP_TCDM c (ucast args + axpy_args_size);
          local_y0_addr = ALIGN_UP_TCDM c (local_x0_addr + ucast sz) + 8 * BANK_ALIGNMENT;
          local_z0_addr = ALIGN_UP_TCDM c (local_y0_addr + ucast sz) + 16 * BANK_ALIGNMENT;
          local_x1_addr = ALIGN_UP_TCDM c (local_z0_addr + ucast sz);
          local_y1_addr = ALIGN_UP_TCDM c (local_x1_addr + ucast sz) + 8 * BANK_ALIGNMENT;
          local_z1_addr = ALIGN_UP_TCDM c (local_y1_addr + ucast sz) + 16 * BANK_ALIGNMENT
      in \<lparr>local_x = (\<lambda>b. ucast (if b = 0 then local_x0_addr else local_x1_addr)),
          local_y = (\<lambda>b. ucast (if b = 0 then local_y0_addr else local_y1_addr)),
          local_z = (\<lambda>b. ucast (if b = 0 then local_z0_addr else local_z1_addr))\<rparr>)"

definition axpy_dma_in ::
  "dma_sys \<Rightarrow> axpy_args_t \<Rightarrow> axpy_bufs \<Rightarrow> u32 \<Rightarrow> u32 list \<Rightarrow> u32 \<Rightarrow> dma_state \<Rightarrow> dma_state option" where
  "axpy_dma_in sys args l frac evs i s =
     (let buff_idx = i mod 2;
          offset = i * frac;
          remote_x = args_x args + 8 * offset;
          remote_y = args_y args + 8 * offset;
          (_, s) = snrt_dma_start_1d_ptr (local_x l buff_idx) remote_x (frac * 8) 0 s;
          (_, s) = snrt_dma_start_1d_ptr (local_y l buff_idx) remote_y (frac * 8) 0 s
      in map_option snd (snrt_dma_wait_all sys 0 evs s))"

definition axpy_dma_out ::
  "dma_sys \<Rightarrow> axpy_args_t \<Rightarrow> axpy_bufs \<Rightarrow> u32 \<Rightarrow> u32 list \<Rightarrow> u32 \<Rightarrow> dma_state \<Rightarrow> dma_state option" where
  "axpy_dma_out sys args l frac evs i s =
     (let buff_idx = i mod 2;
          offset = i * frac;
          remote_z = args_z args + 8 * offset;
          (_, s) = snrt_dma_start_1d_ptr remote_z (local_z l buff_idx) (frac * 8) 0 s
      in map_option snd (snrt_dma_wait_all sys 0 evs s))"

definition axpy_compute ::
  "hart list \<Rightarrow> axpy_args_t \<Rightarrow> axpy_bufs \<Rightarrow> u32 \<Rightarrow> u32 \<Rightarrow> dma_state \<Rightarrow> dma_state option" where
  "axpy_compute hs args l frac i s =
     (let buff_idx = i mod 2
      in map_option (\<lambda>m. s\<lparr>dm_mem := m\<rparr>)
           (axpy_cluster (\<lambda>h. args_funcptr args h frac (args_a args) (local_x l buff_idx)
              (local_y l buff_idx) (local_z l buff_idx)) hs (dm_mem s)))"

text \<open>The schedule: when the compute phase takes place and the events of the waits.\<close>

record axpy_sched =
  pos :: "nat \<Rightarrow> nat"
  ev_in :: "nat \<Rightarrow> u32 list"
  ev_out :: "nat \<Rightarrow> u32 list"

definition axpy_iter ::
  "dma_sys \<Rightarrow> hart list \<Rightarrow> axpy_args_t \<Rightarrow> axpy_bufs \<Rightarrow> u32 \<Rightarrow> axpy_sched \<Rightarrow> u32 \<Rightarrow> dma_state \<Rightarrow> dma_state option" where
  "axpy_iter sys hs args l frac sc i s =
     (let dma_in = (\<lambda>s. if i < args_n_tiles args then axpy_dma_in sys args l frac (ev_in sc (unat i)) i s else Some s);
          dma_out = (\<lambda>s. if i > 1 then axpy_dma_out sys args l frac (ev_out sc (unat i)) (i - 2) s else Some s);
          comp = (\<lambda>s. if i > 0 \<and> i < args_n_tiles args + 1 then axpy_compute hs args l frac (i - 1) s else Some s)
      in if pos sc (unat i) = 0 then do { s \<leftarrow> comp s; s \<leftarrow> dma_in s; dma_out s }
         else if pos sc (unat i) = 1 then do { s \<leftarrow> dma_in s; s \<leftarrow> comp s; dma_out s }
         else do { s \<leftarrow> dma_in s; s \<leftarrow> dma_out s; comp s })"

text \<open>The loop over the iterations, \<open>k\<close> left.\<close>

fun axpy_iters ::
  "dma_sys \<Rightarrow> hart list \<Rightarrow> axpy_args_t \<Rightarrow> axpy_bufs \<Rightarrow> u32 \<Rightarrow> axpy_sched \<Rightarrow> nat \<Rightarrow> u32 \<Rightarrow> dma_state \<Rightarrow> dma_state option" where
  "axpy_iters sys hs args l frac sc 0 i s = Some s"
| "axpy_iters sys hs args l frac sc (Suc k) i s =
     axpy_iter sys hs args l frac sc i s \<bind> axpy_iters sys hs args l frac sc k (i + 1)"

definition axpy_job ::
  "snrt_cfg \<Rightarrow> dma_sys \<Rightarrow> hart list \<Rightarrow> u32 \<Rightarrow> axpy_args_t \<Rightarrow> axpy_sched \<Rightarrow> dma_state \<Rightarrow> dma_state option" where
  "axpy_job c sys hs args_ptr args sc s =
     (let frac = args_n args div args_n_tiles args;
          sz = frac * 8;
          l = axpy_buffers c args_ptr sz;
          iterations = args_n_tiles args + 2
      in axpy_iters sys hs args l frac sc (unat iterations) 0 s)"

section \<open>The phases as functions of the memory\<close>

definition mem_in :: "axpy_args_t \<Rightarrow> axpy_bufs \<Rightarrow> u32 \<Rightarrow> u32 \<Rightarrow> mem \<Rightarrow> mem" where
  "mem_in args l frac i m =
     copy_bytes (ucast (local_y l (i mod 2))) (ucast (args_y args + 8 * (i * frac))) (unat (frac * 8))
       (copy_bytes (ucast (local_x l (i mod 2))) (ucast (args_x args + 8 * (i * frac))) (unat (frac * 8)) m)"

definition mem_out :: "axpy_args_t \<Rightarrow> axpy_bufs \<Rightarrow> u32 \<Rightarrow> u32 \<Rightarrow> mem \<Rightarrow> mem" where
  "mem_out args l frac i m =
     copy_bytes (ucast (args_z args + 8 * (i * frac))) (ucast (local_z l (i mod 2))) (unat (frac * 8)) m"

lemma dma_in_mem:
  assumes "unicast sys" "quiet s" "2 \<le> count_list evs 0"
  shows "\<exists>s'. axpy_dma_in sys args l frac evs i s = Some s' \<and> quiet s' \<and>
    dm_mem s' = mem_in args l frac i (dm_mem s)"
  using two_copies_wait [OF assms] by (simp add: axpy_dma_in_def mem_in_def Let_def case_prod_unfold)

lemma dma_out_mem:
  assumes "unicast sys" "quiet s" "1 \<le> count_list evs 0"
  shows "\<exists>s'. axpy_dma_out sys args l frac evs i s = Some s' \<and> quiet s' \<and>
    dm_mem s' = mem_out args l frac i (dm_mem s)"
  using copy_wait [OF assms, of "args_z args + 8 * (i * frac)" "local_z l (i mod 2)" "frac * 8"]
  by (auto simp: axpy_dma_out_def mem_out_def Let_def case_prod_unfold)

definition mem_comp ::
  "(u64 \<Rightarrow> u64 \<Rightarrow> u64 \<Rightarrow> u64) \<Rightarrow> nat list \<Rightarrow> axpy_args_t \<Rightarrow> axpy_bufs \<Rightarrow> u32 \<Rightarrow> mem \<Rightarrow> mem" where
  "mem_comp g js args l i m =
     fold (\<lambda>j m. wr_d m (local_z l (i mod 2)) (of_nat j)
       (g (args_a args) (rd_d m (local_x l (i mod 2)) (of_nat j)) (rd_d m (local_y l (i mod 2)) (of_nat j)))) js m"

lemma compute_mem:
  assumes "axpy_team c hs" "unat frac \<le> 2 ^ 31" "unat frac \<le> fuel" "axpy_kernel (args_funcptr args) f c fuel g" "quiet s"
  shows "\<exists>s'. axpy_compute hs args l frac i s = Some s' \<and> quiet s' \<and>
    dm_mem s' = mem_comp g (axpy_order c hs (unat frac)) args l i (dm_mem s)"
  using assms(5) by (simp add: axpy_compute_def axpy_cluster_run [OF assms(1-4)] mem_comp_def quiet_def Let_def)

section \<open>What the phases touch\<close>

lemma comp_footprint:
  assumes "\<And>p. p \<in> {x, y, z} \<Longrightarrow> unat p + 8 * n \<le> 2 ^ 32" "set js \<subseteq> {..<n}"
  shows "footprint (bytes (ucast x) (8 * n) \<union> bytes (ucast y) (8 * n)) (bytes (ucast z) (8 * n))
    (fold (\<lambda>j m. wr_d m z (of_nat j) (g (rd_d m x (of_nat j)) (rd_d m y (of_nat j)))) js)"
proof (rule footprint_fold)
  fix j assume "j \<in> set js"
  then have j: "8 * j + 8 \<le> 8 * n" using assms(2) by auto
  have part: "bytes (ucast (p + 8 * of_nat j)) 8 \<subseteq> bytes (ucast p) (8 * n)" if "p \<in> {x, y, z}" for p
    by (rule bytes_part [OF assms(1) [OF that] j]) simp
  have "footprint (bytes (ucast x) (8 * n) \<union> bytes (ucast y) (8 * n)) (bytes (ucast (z + 8 * of_nat j)) 8)
    (\<lambda>m. st64 m (ucast (z + 8 * of_nat j)) (g (rd_d m x (of_nat j)) (rd_d m y (of_nat j))))"
  proof (rule st64_footprint)
    fix m m' :: mem assume eq: "\<And>b. b \<in> bytes (ucast x) (8 * n) \<union> bytes (ucast y) (8 * n) \<Longrightarrow> m b = m' b"
    have "rd_d m p (of_nat j) = rd_d m' p (of_nat j)" if "p = x \<or> p = y" for p
      unfolding rd_d_def by (rule ld64_cong, rule eq) (use that part in auto)
    then show "g (rd_d m x (of_nat j)) (rd_d m y (of_nat j)) = g (rd_d m' x (of_nat j)) (rd_d m' y (of_nat j))" by simp
  qed
  then show "footprint (bytes (ucast x) (8 * n) \<union> bytes (ucast y) (8 * n)) (bytes (ucast z) (8 * n))
    (\<lambda>m. wr_d m z (of_nat j) (g (rd_d m x (of_nat j)) (rd_d m y (of_nat j))))"
    unfolding wr_d_def by (rule footprint_mono) (use part in auto)
qed

text \<open>The arrays: the operand and result buffers of a set, the operands and the result in the main memory.\<close>

definition op_bytes :: "axpy_bufs \<Rightarrow> u32 \<Rightarrow> u32 \<Rightarrow> u64 set" where
  "op_bytes l frac b = bytes (ucast (local_x l b)) (8 * unat frac) \<union> bytes (ucast (local_y l b)) (8 * unat frac)"

definition res_bytes :: "axpy_bufs \<Rightarrow> u32 \<Rightarrow> u32 \<Rightarrow> u64 set" where
  "res_bytes l frac b = bytes (ucast (local_z l b)) (8 * unat frac)"

definition axpy_len :: "axpy_args_t \<Rightarrow> u32 \<Rightarrow> nat" where
  "axpy_len args frac = unat (args_n_tiles args) * unat frac"

definition src_bytes :: "axpy_args_t \<Rightarrow> u32 \<Rightarrow> u64 set" where
  "src_bytes args frac = bytes (ucast (args_x args)) (8 * axpy_len args frac) \<union> bytes (ucast (args_y args)) (8 * axpy_len args frac)"

definition dst_bytes :: "axpy_args_t \<Rightarrow> u32 \<Rightarrow> u64 set" where
  "dst_bytes args frac = bytes (ucast (args_z args)) (8 * axpy_len args frac)"

definition arr_ok :: "u32 \<Rightarrow> nat \<Rightarrow> bool" where
  "arr_ok p n \<longleftrightarrow> dptr p \<and> unat p + n \<le> 2 ^ 32"

definition bufs_ok :: "axpy_args_t \<Rightarrow> axpy_bufs \<Rightarrow> u32 \<Rightarrow> u32 \<Rightarrow> bool" where
  "bufs_ok args l frac b \<longleftrightarrow>
     arr_ok (local_x l b) (8 * unat frac) \<and> arr_ok (local_y l b) (8 * unat frac) \<and> arr_ok (local_z l b) (8 * unat frac) \<and>
     bytes (ucast (local_x l b)) (8 * unat frac) \<inter> bytes (ucast (local_y l b)) (8 * unat frac) = {} \<and>
     (op_bytes l frac b \<union> res_bytes l frac b) \<inter> (src_bytes args frac \<union> dst_bytes args frac) = {}"

definition axpy_ok :: "axpy_args_t \<Rightarrow> axpy_bufs \<Rightarrow> u32 \<Rightarrow> bool" where
  "axpy_ok args l frac \<longleftrightarrow>
     frac \<noteq> 0 \<and> 8 * unat frac < 2 ^ 32 \<and> (\<forall>b\<in>{0, 1}. bufs_ok args l frac b) \<and>
     arr_ok (args_x args) (8 * axpy_len args frac) \<and> arr_ok (args_y args) (8 * axpy_len args frac) \<and>
     arr_ok (args_z args) (8 * axpy_len args frac) \<and>
     op_bytes l frac 0 \<inter> op_bytes l frac 1 = {} \<and> res_bytes l frac 0 \<inter> res_bytes l frac 1 = {} \<and>
     (op_bytes l frac 0 \<union> op_bytes l frac 1) \<inter> (res_bytes l frac 0 \<union> res_bytes l frac 1) = {} \<and>
     src_bytes args frac \<inter> dst_bytes args frac = {}"

lemma axpy_okD:
  assumes "axpy_ok args l frac"
  shows "frac \<noteq> 0" "8 * unat frac < 2 ^ 32" "arr_ok (args_x args) (8 * axpy_len args frac)"
    "arr_ok (args_y args) (8 * axpy_len args frac)" "arr_ok (args_z args) (8 * axpy_len args frac)"
    "src_bytes args frac \<inter> dst_bytes args frac = {}" "\<And>b. b \<in> {0, 1} \<Longrightarrow> bufs_ok args l frac b"
  using assms unfolding axpy_ok_def by blast+

lemma axpy_ok_apart:
  assumes "axpy_ok args l frac" "b \<in> {0, 1}" "b' \<in> {0, 1}"
  shows "op_bytes l frac b \<inter> res_bytes l frac b' = {}"
    and "b \<noteq> b' \<Longrightarrow> op_bytes l frac b \<inter> op_bytes l frac b' = {}"
    and "b \<noteq> b' \<Longrightarrow> res_bytes l frac b \<inter> res_bytes l frac b' = {}"
proof -
  have 1: "op_bytes l frac 0 \<inter> op_bytes l frac 1 = {}" "res_bytes l frac 0 \<inter> res_bytes l frac 1 = {}"
    and 2: "(op_bytes l frac 0 \<union> op_bytes l frac 1) \<inter> (res_bytes l frac 0 \<union> res_bytes l frac 1) = {}"
    using assms(1) unfolding axpy_ok_def by blast+
  show "op_bytes l frac b \<inter> res_bytes l frac b' = {}" using 2 assms(2,3) by auto
  show "op_bytes l frac b \<inter> op_bytes l frac b' = {}" if "b \<noteq> b'" using 1 assms(2,3) that by auto
  show "res_bytes l frac b \<inter> res_bytes l frac b' = {}" if "b \<noteq> b'" using 1 assms(2,3) that by auto
qed

lemma tile_ptr: "p + 8 * (of_nat t * frac) = p + 8 * of_nat (t * unat (frac :: u32))"
  by simp

lemma tile_bytes:
  assumes "unat p + 8 * axpy_len args frac \<le> 2 ^ 32" "t < unat (args_n_tiles args)" "frac \<noteq> 0"
  shows "bytes (ucast (p + 8 * (of_nat t * frac))) (8 * unat frac) \<subseteq> bytes (ucast p) (8 * axpy_len args frac)"
proof -
  have "Suc t * unat frac \<le> axpy_len args frac" unfolding axpy_len_def using assms(2) by (intro mult_right_mono) simp_all
  then have "8 * (t * unat frac) + 8 * unat frac \<le> 8 * axpy_len args frac" by simp
  moreover have "0 < 8 * unat frac" using assms(3) by (simp add: unat_gt_0)
  ultimately show ?thesis unfolding tile_ptr by (rule bytes_part [OF assms(1)])
qed

lemma phase_footprints:
  assumes "axpy_ok args l frac" "t < unat (args_n_tiles args)" "set js \<subseteq> {..<unat frac}"
  shows "footprint (src_bytes args frac) (op_bytes l frac (of_nat t mod 2)) (mem_in args l frac (of_nat t))"
    and "footprint (op_bytes l frac (of_nat t mod 2)) (res_bytes l frac (of_nat t mod 2)) (mem_comp g js args l (of_nat t))"
    and "footprint (res_bytes l frac (of_nat t mod 2)) (bytes (ucast (args_z args + 8 * (of_nat t * frac))) (8 * unat frac))
      (mem_out args l frac (of_nat t))"
    and "bytes (ucast (args_z args + 8 * (of_nat t * frac))) (8 * unat frac) \<subseteq> dst_bytes args frac"
proof -
  have b: "(of_nat t :: u32) mod 2 \<in> {0, 1}" by (rule mod2_cases)
  have fr: "frac \<noteq> 0" "unat (frac * 8) = 8 * unat frac"
    using axpy_okD [OF assms(1)] by (simp_all add: unat_mult_exact)
  have len: "unat p + 8 * axpy_len args frac \<le> 2 ^ 32" if "p \<in> {args_x args, args_y args, args_z args}" for p
    using that axpy_okD(3-5) [OF assms(1)] unfolding arr_ok_def by (elim insertE emptyE) (simp_all only:)
  have loc: "unat p + 8 * unat frac \<le> 2 ^ 32"
    if "p \<in> {local_x l (of_nat t mod 2), local_y l (of_nat t mod 2), local_z l (of_nat t mod 2)}" for p
    using that axpy_okD(7) [OF assms(1) b] unfolding arr_ok_def bufs_ok_def by (elim insertE emptyE) (simp_all only:)
  have tile: "bytes (ucast (p + 8 * (of_nat t * frac))) (8 * unat frac) \<subseteq> bytes (ucast p) (8 * axpy_len args frac)"
    if "p \<in> {args_x args, args_y args, args_z args}" for p
    by (rule tile_bytes [OF len [OF that] assms(2) fr(1)])
  show "bytes (ucast (args_z args + 8 * (of_nat t * frac))) (8 * unat frac) \<subseteq> dst_bytes args frac"
    unfolding dst_bytes_def by (rule tile) simp
  have "footprint (src_bytes args frac) (op_bytes l frac (of_nat t mod 2))
      (copy_bytes (ucast (local_x l (of_nat t mod 2))) (ucast (args_x args + 8 * (of_nat t * frac))) (8 * unat frac))"
    by (rule footprint_mono [OF copy_bytes_footprint]) (use tile [of "args_x args"] in \<open>auto simp: src_bytes_def op_bytes_def\<close>)
  moreover have "footprint (src_bytes args frac) (op_bytes l frac (of_nat t mod 2))
      (copy_bytes (ucast (local_y l (of_nat t mod 2))) (ucast (args_y args + 8 * (of_nat t * frac))) (8 * unat frac))"
    by (rule footprint_mono [OF copy_bytes_footprint]) (use tile [of "args_y args"] in \<open>auto simp: src_bytes_def op_bytes_def\<close>)
  ultimately show "footprint (src_bytes args frac) (op_bytes l frac (of_nat t mod 2)) (mem_in args l frac (of_nat t))"
    unfolding mem_in_def [abs_def] fr(2) by (rule footprint_comp)
  show "footprint (op_bytes l frac (of_nat t mod 2)) (res_bytes l frac (of_nat t mod 2)) (mem_comp g js args l (of_nat t))"
    unfolding mem_comp_def [abs_def] op_bytes_def res_bytes_def
    by (rule comp_footprint [OF loc assms(3)])
  show "footprint (res_bytes l frac (of_nat t mod 2)) (bytes (ucast (args_z args + 8 * (of_nat t * frac))) (8 * unat frac))
      (mem_out args l frac (of_nat t))"
    unfolding mem_out_def [abs_def] fr(2) res_bytes_def by (rule copy_bytes_footprint)
qed

section \<open>The pipeline\<close>

lemma bufs_remote:
  assumes "axpy_ok args l frac" "b \<in> {0, 1}"
  shows "op_bytes l frac b \<inter> src_bytes args frac = {}" "op_bytes l frac b \<inter> dst_bytes args frac = {}"
    "res_bytes l frac b \<inter> src_bytes args frac = {}" "res_bytes l frac b \<inter> dst_bytes args frac = {}"
proof -
  have "(op_bytes l frac b \<union> res_bytes l frac b) \<inter> (src_bytes args frac \<union> dst_bytes args frac) = {}"
    using axpy_okD(7) [OF assms] unfolding bufs_ok_def by (elim conjE)
  then show "op_bytes l frac b \<inter> src_bytes args frac = {}" "op_bytes l frac b \<inter> dst_bytes args frac = {}"
    "res_bytes l frac b \<inter> src_bytes args frac = {}" "res_bytes l frac b \<inter> dst_bytes args frac = {}"
    by blast+
qed

lemma phases_commute:
  assumes "axpy_ok args l frac" "set js \<subseteq> {..<unat frac}" "t < unat (args_n_tiles args)" "t' < unat (args_n_tiles args)"
  shows "(of_nat t :: u32) mod 2 \<noteq> of_nat t' mod 2 \<Longrightarrow>
      mem_in args l frac (of_nat t) (mem_comp g js args l (of_nat t') m) =
      mem_comp g js args l (of_nat t') (mem_in args l frac (of_nat t) m)"
    and "mem_in args l frac (of_nat t) (mem_out args l frac (of_nat t') m) =
      mem_out args l frac (of_nat t') (mem_in args l frac (of_nat t) m)"
    and "(of_nat t :: u32) mod 2 \<noteq> of_nat t' mod 2 \<Longrightarrow>
      mem_comp g js args l (of_nat t) (mem_out args l frac (of_nat t') m) =
      mem_out args l frac (of_nat t') (mem_comp g js args l (of_nat t) m)"
proof -
  note fp = phase_footprints [OF assms(1,3,2)] and fp' = phase_footprints [OF assms(1,4,2)]
  note ap = axpy_ok_apart [OF assms(1) mod2_cases mod2_cases, of "of_nat t" "of_nat t'"]
  note ap' = axpy_ok_apart(1) [OF assms(1) mod2_cases mod2_cases, of "of_nat t'" "of_nat t"]
  note rm = bufs_remote [OF assms(1) mod2_cases, of "of_nat t"] and rm' = bufs_remote [OF assms(1) mod2_cases, of "of_nat t'"]
  note sd = axpy_okD(6) [OF assms(1)]
  have sub: "A \<inter> bytes (ucast (args_z args + 8 * (of_nat t' * frac))) (8 * unat frac) = {}" if "A \<inter> dst_bytes args frac = {}" for A
    using that fp'(4) by blast
  show "mem_in args l frac (of_nat t) (mem_comp g js args l (of_nat t') m) =
      mem_comp g js args l (of_nat t') (mem_in args l frac (of_nat t) m)" if "(of_nat t :: u32) mod 2 \<noteq> of_nat t' mod 2"
    by (rule footprint_commute [OF fp(1) fp'(2) ap(2) [OF that] ap(1)]) (rule rm'(3))
  show "mem_in args l frac (of_nat t) (mem_out args l frac (of_nat t') m) =
      mem_out args l frac (of_nat t') (mem_in args l frac (of_nat t) m)"
    by (rule footprint_commute [OF fp(1) fp'(3) ap(1) sub [OF rm(2)]]) (use sub [OF sd] in blast)
  show "mem_comp g js args l (of_nat t) (mem_out args l frac (of_nat t') m) =
      mem_out args l frac (of_nat t') (mem_comp g js args l (of_nat t) m)" if "(of_nat t :: u32) mod 2 \<noteq> of_nat t' mod 2"
    by (rule footprint_commute [OF fp(2) fp'(3) ap(3) [OF that] sub [OF rm(4)]]) (use sub [OF rm(2)] in blast)
qed

interpretation ax: tile_pipeline
  "\<lambda>t. mem_in args l frac (of_nat t)" "\<lambda>t. mem_comp g js args l (of_nat t)" "\<lambda>t. mem_out args l frac (of_nat t)"
  "if axpy_ok args l frac \<and> set js \<subseteq> {..<unat frac} then unat (args_n_tiles args) else 0"
  for args l frac g js
  by unfold_locales (auto intro!: phases_commute next_buffer split: if_splits simp del: of_nat_Suc)

section \<open>The tiles one after the other\<close>

lemma axpy_apart_bytes:
  assumes "unat z + 8 * n \<le> 2 ^ 32" "unat x + 8 * n \<le> 2 ^ 32" "unat y + 8 * n \<le> 2 ^ 32"
    "bytes (ucast x) (8 * n) \<inter> bytes (ucast z) (8 * n) = {}" "bytes (ucast y) (8 * n) \<inter> bytes (ucast z) (8 * n) = {}"
  shows "axpy_apart x y z n"
proof -
  have mem: "ucast (p + 8 * of_nat i) \<in> bytes (ucast p) (8 * n)" if "unat p + 8 * n \<le> 2 ^ 32" "i < n" for p :: u32 and i
  proof -
    have "ucast (p + 8 * of_nat i) \<in> bytes (ucast (p + 8 * of_nat i)) 8" by (simp add: bytes_def)
    then show ?thesis using bytes_part [OF that(1), of i 8] that(2) by auto
  qed
  show ?thesis
    unfolding axpy_apart_def
  proof (intro allI impI conjI)
    fix i j assume "i < n" "j < n"
    show "x + 8 * of_nat i \<noteq> z + 8 * of_nat j"
      using mem [OF assms(2) \<open>i < n\<close>] mem [OF assms(1) \<open>j < n\<close>] assms(4) by (metis disjoint_iff)
    show "y + 8 * of_nat i \<noteq> z + 8 * of_nat j"
      using mem [OF assms(3) \<open>i < n\<close>] mem [OF assms(1) \<open>j < n\<close>] assms(5) by (metis disjoint_iff)
  qed
qed

lemma elem_in_tile: "p + 8 * of_nat (t * unat frac + j) = p + 8 * (of_nat t * frac) + 8 * of_nat j"
  for p frac :: u32
  by (simp add: algebra_simps)

lemma tile_arr:
  assumes "arr_ok p (8 * axpy_len args frac)" "t < unat (args_n_tiles args)"
  shows "unat (p + 8 * (of_nat t * frac)) + 8 * unat frac \<le> 2 ^ 32"
    "unat (p + 8 * (of_nat t * frac)) = unat p + 8 * (t * unat frac)"
proof -
  have "Suc t * unat frac \<le> axpy_len args frac" unfolding axpy_len_def using assms(2) by (intro mult_right_mono) simp_all
  then have le: "unat p + 8 * (t * unat frac) + 8 * unat frac \<le> 2 ^ 32" using assms(1) by (simp add: arr_ok_def)
  show u: "unat (p + 8 * (of_nat t * frac)) = unat p + 8 * (t * unat frac)"
  proof (cases "frac = 0")
    case False
    then have "0 < unat frac" by (simp add: unat_gt_0)
    then have "unat p + 8 * (t * unat frac) < 2 ^ 32" using le by linarith
    then show ?thesis unfolding tile_ptr by (rule ucast_elem(2))
  qed simp
  show "unat (p + 8 * (of_nat t * frac)) + 8 * unat frac \<le> 2 ^ 32" unfolding u by (rule le)
qed

lemma axpy_tile:
  assumes "axpy_ok args l frac" "distinct js" "set js = {..<unat frac}" "t < unat (args_n_tiles args)" "j < unat frac"
  shows "rd_d (mem_out args l frac (of_nat t) (mem_comp g js args l (of_nat t) (mem_in args l frac (of_nat t) m)))
      (args_z args) (of_nat (t * unat frac + j)) =
    g (args_a args) (rd_d m (args_x args) (of_nat (t * unat frac + j))) (rd_d m (args_y args) (of_nat (t * unat frac + j)))"
proof -
  define b where "b = (of_nat t :: u32) mod 2"
  define X Y Z where "X = args_x args + 8 * (of_nat t * frac)" and "Y = args_y args + 8 * (of_nat t * frac)"
    and "Z = args_z args + 8 * (of_nat t * frac)"
  define n where "n = unat frac"
  define m1 where "m1 = copy_bytes (ucast (local_x l b)) (ucast X) (8 * n) m"
  define m2 where "m2 = copy_bytes (ucast (local_y l b)) (ucast Y) (8 * n) m1"
  have b: "b \<in> {0, 1}" unfolding b_def by (rule mod2_cases)
  note ok = axpy_okD [OF assms(1)]
  have bo: "arr_ok (local_x l b) (8 * n)" "arr_ok (local_y l b) (8 * n)" "arr_ok (local_z l b) (8 * n)"
    "bytes (ucast (local_x l b)) (8 * n) \<inter> bytes (ucast (local_y l b)) (8 * n) = {}"
    using ok(7) [OF b] unfolding bufs_ok_def n_def by blast+
  have lb: "unat (local_x l b) + 8 * n \<le> 2 ^ 32" "unat (local_y l b) + 8 * n \<le> 2 ^ 32" "unat (local_z l b) + 8 * n \<le> 2 ^ 32"
    and ld: "dptr (local_x l b)" "dptr (local_y l b)" "dptr (local_z l b)"
    using bo(1-3) by (simp_all add: arr_ok_def)
  have lX: "unat X + 8 * n \<le> 2 ^ 32" "unat Y + 8 * n \<le> 2 ^ 32" "unat Z + 8 * n \<le> 2 ^ 32"
    unfolding X_def Y_def Z_def n_def
    by (rule tile_arr(1) [OF ok(3) assms(4)] tile_arr(1) [OF ok(4) assms(4)] tile_arr(1) [OF ok(5) assms(4)])+
  have fr: "unat (frac * 8) = 8 * n" using ok(2) by (simp add: unat_mult_exact n_def)
  have oz: "bytes (ucast (local_x l b)) (8 * n) \<inter> bytes (ucast (local_z l b)) (8 * n) = {}"
    "bytes (ucast (local_y l b)) (8 * n) \<inter> bytes (ucast (local_z l b)) (8 * n) = {}"
    using axpy_ok_apart(1) [OF assms(1) b b] unfolding op_bytes_def res_bytes_def n_def by blast+
  have "bytes (ucast Y) (8 * n) \<subseteq> src_bytes args frac"
    using tile_bytes [of "args_y args" args frac t] ok(1,4) assms(4) by (auto simp: Y_def n_def src_bytes_def arr_ok_def)
  then have yx: "bytes (ucast Y) (8 * n) \<inter> bytes (ucast (local_x l b)) (8 * n) = {}"
    using bufs_remote(1) [OF assms(1) b] unfolding op_bytes_def n_def by blast
  have vy: "rd_d m2 (local_y l b) (of_nat j) = rd_d m Y (of_nat j)"
  proof -
    have "rd_d m2 (local_y l b) (of_nat j) = rd_d m1 Y (of_nat j)"
      unfolding m2_def by (rule copy_elem [OF lb(2) lX(2)]) (use assms(5) n_def in simp)
    also have "\<dots> = rd_d m Y (of_nat j)"
      unfolding m1_def by (rule rd_d_out [OF copy_bytes_footprint lX(2) _ yx]) (use assms(5) n_def in simp)
    finally show ?thesis .
  qed
  have vx: "rd_d m2 (local_x l b) (of_nat j) = rd_d m X (of_nat j)"
  proof -
    have "rd_d m2 (local_x l b) (of_nat j) = rd_d m1 (local_x l b) (of_nat j)"
      unfolding m2_def by (rule rd_d_out [OF copy_bytes_footprint lb(1) _ bo(4)]) (use assms(5) n_def in simp)
    also have "\<dots> = rd_d m X (of_nat j)"
      unfolding m1_def by (rule copy_elem [OF lb(1) lX(1)]) (use assms(5) n_def in simp)
    finally show ?thesis .
  qed
  have "rd_d (mem_comp g js args l (of_nat t) m2) (local_z l b) (of_nat j) =
      g (args_a args) (rd_d m2 (local_x l b) (of_nat j)) (rd_d m2 (local_y l b) (of_nat j))"
    unfolding mem_comp_def b_def [symmetric]
    by (rule axpy_elements [OF ld _ axpy_apart_bytes [OF lb(3,1,2) oz] assms(2)])
      (use assms(3,5) ok(2) in \<open>simp_all add: n_def\<close>)
  moreover have "rd_d (copy_bytes (ucast Z) (ucast (local_z l b)) (8 * n) m') Z (of_nat j) = rd_d m' (local_z l b) (of_nat j)" for m'
    by (rule copy_elem [OF lX(3) lb(3)]) (use assms(5) n_def in simp)
  ultimately have "rd_d (copy_bytes (ucast Z) (ucast (local_z l b)) (8 * n) (mem_comp g js args l (of_nat t) m2)) Z (of_nat j) =
      g (args_a args) (rd_d m X (of_nat j)) (rd_d m Y (of_nat j))" by (simp only: vx vy)
  then show ?thesis
    unfolding rd_d_def elem_in_tile mem_out_def mem_in_def fr X_def [symmetric] Y_def [symmetric] Z_def [symmetric]
      b_def [symmetric] m1_def [symmetric] m2_def [symmetric] .
qed

definition tile_step ::
  "(u64 \<Rightarrow> u64 \<Rightarrow> u64 \<Rightarrow> u64) \<Rightarrow> nat list \<Rightarrow> axpy_args_t \<Rightarrow> axpy_bufs \<Rightarrow> u32 \<Rightarrow> nat \<Rightarrow> mem \<Rightarrow> mem" where
  "tile_step g js args l frac t m =
     mem_out args l frac (of_nat t) (mem_comp g js args l (of_nat t) (mem_in args l frac (of_nat t) m))"

lemma tile_step_frame:
  assumes "axpy_ok args l frac" "set js = {..<unat frac}" "t < unat (args_n_tiles args)"
    "a \<notin> op_bytes l frac (of_nat t mod 2)" "a \<notin> res_bytes l frac (of_nat t mod 2)"
    "a \<notin> bytes (ucast (args_z args + 8 * (of_nat t * frac))) (8 * unat frac)"
  shows "tile_step g js args l frac t m a = m a"
proof -
  note fp = phase_footprints [OF assms(1,3) equalityD1 [OF assms(2)]]
  show ?thesis
    unfolding tile_step_def footprint_out [OF fp(3) assms(6)] footprint_out [OF fp(2) assms(5)]
    by (rule footprint_out [OF fp(1) assms(4)])
qed

text \<open>The bytes that the job may change: its buffers and the result.\<close>

definition job_bytes :: "axpy_args_t \<Rightarrow> axpy_bufs \<Rightarrow> u32 \<Rightarrow> u64 set" where
  "job_bytes args l frac = op_bytes l frac 0 \<union> op_bytes l frac 1 \<union> res_bytes l frac 0 \<union> res_bytes l frac 1 \<union> dst_bytes args frac"

lemma tile_step_out:
  assumes "axpy_ok args l frac" "set js = {..<unat frac}" "t < unat (args_n_tiles args)" "a \<notin> job_bytes args l frac"
  shows "tile_step g js args l frac t m a = m a"
proof -
  note fp = phase_footprints(4) [OF assms(1,3) equalityD1 [OF assms(2)]]
  have "(of_nat t :: u32) mod 2 = 0 \<or> (of_nat t :: u32) mod 2 = 1"
    using mod2_cases [of "of_nat t"] by (simp only: insert_iff empty_iff simp_thms)
  then have "op_bytes l frac (of_nat t mod 2) \<union> res_bytes l frac (of_nat t mod 2) \<subseteq> job_bytes args l frac"
    unfolding job_bytes_def by (elim disjE; simp only:) blast+
  moreover have "dst_bytes args frac \<subseteq> job_bytes args l frac" unfolding job_bytes_def by blast
  ultimately show ?thesis using assms(4) fp by (intro tile_step_frame [OF assms(1-3)]) blast+
qed

lemma seq_out:
  assumes "axpy_ok args l frac" "set js = {..<unat frac}" "n \<le> unat (args_n_tiles args)" "a \<notin> job_bytes args l frac"
  shows "fold (tile_step g js args l frac) [0..<n] m a = m a"
  using assms(3) by (induction n) (simp_all add: tile_step_out [OF assms(1,2) _ assms(4)])

lemma src_not_job: "axpy_ok args l frac \<Longrightarrow> a \<in> src_bytes args frac \<Longrightarrow> a \<notin> job_bytes args l frac"
  using bufs_remote(1,3) [of args l frac 0] bufs_remote(1,3) [of args l frac 1] axpy_okD(6) [of args l frac]
  unfolding job_bytes_def by blast

lemma src_elem:
  assumes "axpy_ok args l frac" "set js = {..<unat frac}" "n \<le> unat (args_n_tiles args)" "i < axpy_len args frac"
    "p = args_x args \<or> p = args_y args"
  shows "rd_d (fold (tile_step g js args l frac) [0..<n] m) p (of_nat i) = rd_d m p (of_nat i)"
  unfolding rd_d_def
proof (rule ld64_cong)
  fix a assume a: "a \<in> bytes (ucast (p + 8 * of_nat i)) 8"
  have "unat p + 8 * axpy_len args frac \<le> 2 ^ 32" using assms(5) axpy_okD(3,4) [OF assms(1)] by (auto simp: arr_ok_def)
  from bytes_part [OF this, of i 8] a assms(4) have "a \<in> bytes (ucast p) (8 * axpy_len args frac)" by auto
  then have "a \<in> src_bytes args frac" using assms(5) by (auto simp: src_bytes_def)
  then show "fold (tile_step g js args l frac) [0..<n] m a = m a"
    by (intro seq_out [OF assms(1-3)] src_not_job [OF assms(1)])
qed

lemma later_tile:
  assumes "axpy_ok args l frac" "set js = {..<unat frac}" "t < n" "n < unat (args_n_tiles args)" "j < unat frac"
  shows "rd_d (tile_step g js args l frac n m) (args_z args) (of_nat (t * unat frac + j)) =
    rd_d m (args_z args) (of_nat (t * unat frac + j))"
  unfolding rd_d_def elem_in_tile
proof (rule ld64_cong)
  define zt where "zt = args_z args + 8 * (of_nat t * frac)"
  define zn where "zn = args_z args + 8 * (of_nat n * frac)"
  fix a assume a: "a \<in> bytes (ucast (args_z args + 8 * (of_nat t * frac) + 8 * of_nat j)) 8"
  have t: "t < unat (args_n_tiles args)" using assms(3,4) by simp
  note fp = phase_footprints(4) [OF assms(1) _ equalityD1 [OF assms(2)]]
  note z = axpy_okD(5) [OF assms(1)]
  have lt: "unat zt + 8 * unat frac \<le> 2 ^ 32" "unat zn + 8 * unat frac \<le> 2 ^ 32"
    unfolding zt_def zn_def using tile_arr(1) [OF z] t assms(4) by blast+
  have at: "a \<in> bytes (ucast zt) (8 * unat frac)"
    using bytes_part [OF lt(1), of j 8] a assms(5) unfolding zt_def by auto
  have "Suc t * unat frac \<le> n * unat frac" using assms(3) by (intro mult_right_mono) simp_all
  then have "unat zt + 8 * unat frac \<le> unat zn"
    using tile_arr(2) [OF z t] tile_arr(2) [OF z assms(4)] by (simp add: zt_def zn_def)
  then have an: "a \<notin> bytes (ucast zn) (8 * unat frac)"
    using at bytes_no_wrap [OF lt(1)] bytes_no_wrap [OF lt(2)] by auto
  have "a \<in> dst_bytes args frac" using fp [OF t] at unfolding zt_def by blast
  then show "tile_step g js args l frac n m a = m a"
    using bufs_remote(2,4) [OF assms(1) mod2_cases, of "of_nat n"] an
    by (intro tile_step_frame [OF assms(1,2,4)]) (auto simp: zn_def)
qed

lemma seq_elem:
  assumes "axpy_ok args l frac" "distinct js" "set js = {..<unat frac}" "n \<le> unat (args_n_tiles args)" "t < n" "j < unat frac"
  shows "rd_d (fold (tile_step g js args l frac) [0..<n] m) (args_z args) (of_nat (t * unat frac + j)) =
    g (args_a args) (rd_d m (args_x args) (of_nat (t * unat frac + j))) (rd_d m (args_y args) (of_nat (t * unat frac + j)))"
  using assms(4,5)
proof (induction n)
  case (Suc n)
  let ?m = "fold (tile_step g js args l frac) [0..<n] m"
  show ?case
  proof (cases "t = n")
    case True
    define i where "i = t * unat frac + j"
    have n: "n \<le> unat (args_n_tiles args)" "t < unat (args_n_tiles args)" using Suc.prems(1) True by simp_all
    have "Suc t * unat frac \<le> axpy_len args frac" unfolding axpy_len_def using n(2) by (intro mult_right_mono) simp_all
    then have i: "i < axpy_len args frac" using assms(6) by (simp add: i_def)
    have "rd_d (tile_step g js args l frac t ?m) (args_z args) (of_nat i) =
        g (args_a args) (rd_d ?m (args_x args) (of_nat i)) (rd_d ?m (args_y args) (of_nat i))"
      unfolding i_def tile_step_def by (rule axpy_tile [OF assms(1-3) n(2) assms(6)])
    also have "\<dots> = g (args_a args) (rd_d m (args_x args) (of_nat i)) (rd_d m (args_y args) (of_nat i))"
      using src_elem [OF assms(1,3) n(1) i] by simp
    finally show ?thesis unfolding i_def [symmetric] using True by simp
  next
    case False
    then have "t < n" "n < unat (args_n_tiles args)" using Suc.prems by simp_all
    then show ?thesis
      using later_tile [OF assms(1,3) _ _ assms(6)] Suc.IH by simp
  qed
qed simp

section \<open>The phases of the code implement the functions of the memory\<close>

definition implements :: "(dma_state \<Rightarrow> dma_state option) \<Rightarrow> (mem \<Rightarrow> mem) \<Rightarrow> bool" where
  "implements f F \<longleftrightarrow> (\<forall>s. quiet s \<longrightarrow> (\<exists>s'. f s = Some s' \<and> quiet s' \<and> dm_mem s' = F (dm_mem s)))"

lemma implementsD: "implements f F \<Longrightarrow> quiet s \<Longrightarrow> \<exists>s'. f s = Some s' \<and> quiet s' \<and> dm_mem s' = F (dm_mem s)"
  by (simp add: implements_def)

lemma implements_bind:
  assumes "implements f F" "implements g G"
  shows "implements (\<lambda>s. f s \<bind> g) (\<lambda>m. G (F m))"
  unfolding implements_def
proof (intro allI impI)
  fix s assume "quiet s"
  then obtain s1 where 1: "f s = Some s1" "quiet s1" "dm_mem s1 = F (dm_mem s)" using implementsD [OF assms(1)] by blast
  then obtain s2 where "g s1 = Some s2" "quiet s2" "dm_mem s2 = G (dm_mem s1)" using implementsD [OF assms(2)] by blast
  with 1 show "\<exists>s'. f s \<bind> g = Some s' \<and> quiet s' \<and> dm_mem s' = G (F (dm_mem s))" by simp
qed

lemma implements_Some: "implements Some (\<lambda>m. m)"
  by (simp add: implements_def)

text \<open>The hypotheses on the system, the schedule and the kernel.\<close>

definition axpy_run ::
  "snrt_cfg \<Rightarrow> dma_sys \<Rightarrow> hart list \<Rightarrow> axpy_args_t \<Rightarrow> u32 \<Rightarrow> axpy_sched \<Rightarrow> fpu \<Rightarrow> nat \<Rightarrow> (u64 \<Rightarrow> u64 \<Rightarrow> u64 \<Rightarrow> u64) \<Rightarrow> bool" where
  "axpy_run c sys hs args frac sc f fuel g \<longleftrightarrow>
     unicast sys \<and> axpy_team c hs \<and> unat frac \<le> fuel \<and> axpy_kernel (args_funcptr args) f c fuel g \<and>
     unat (args_n_tiles args) + 2 < 2 ^ 32 \<and>
     (\<forall>t. 2 \<le> count_list (ev_in sc t) 0 \<and> 1 \<le> count_list (ev_out sc t) 0)"

lemma iter_implements:
  assumes "axpy_run c sys hs args frac sc f fuel g" "axpy_ok args l frac" "t < unat (args_n_tiles args) + 2"
  shows "implements (axpy_iter sys hs args l frac sc (of_nat t))
    (ax.pipe_step args l frac g (axpy_order c hs (unat frac)) (pos sc t) t)"
proof -
  define N js where "N = unat (args_n_tiles args)" and "js = axpy_order c hs (unat frac)"
  define i where "i = (of_nat t :: u32)"
  have run: "unicast sys" "axpy_team c hs" "unat frac \<le> fuel" "axpy_kernel (args_funcptr args) f c fuel g"
    "N + 2 < 2 ^ 32" "2 \<le> count_list (ev_in sc t) 0" "1 \<le> count_list (ev_out sc t) 0"
    using assms(1) by (auto simp: axpy_run_def N_def)
  have "unat frac \<le> 2 ^ 31" using axpy_okD(2) [OF assms(2)] by simp
  note comp = compute_mem [OF run(2) this run(3,4), folded js_def]
  have js: "set js \<subseteq> {..<unat frac}" using axpy_order_indices(2) [OF run(2)] by (simp add: js_def)
  have t: "t < N + 2" "t < 4294967296" using assms(3) run(5) by (simp_all add: N_def)
  then have ui: "unat i = t" by (simp add: i_def unat_of_nat_exact)
  have c1: "i < args_n_tiles args \<longleftrightarrow> t < N" by (simp add: word_less_nat_alt ui N_def)
  have c2: "i > 1 \<longleftrightarrow> 1 < t" by (simp add: word_less_nat_alt ui)
  have "unat (args_n_tiles args + 1) = N + 1" using run(5) by (subst unat_add_exact) (simp_all add: N_def)
  then have c3: "i > 0 \<and> i < args_n_tiles args + 1 \<longleftrightarrow> 0 < t \<and> t - 1 < N" by (auto simp: word_less_nat_alt ui)
  have i1: "0 < t \<Longrightarrow> i - 1 = of_nat (t - 1)" and i2: "1 < t \<Longrightarrow> i - 2 = of_nat (t - 2)" by (simp_all add: i_def of_nat_diff)
  have up: "ax.upto args l frac js F k m = (if k < N then F k m else m)" for F k m
    using ax.upto_def [of args l frac js F k m] assms(2) js by (simp add: N_def)
  have I: "implements (\<lambda>s. if i < args_n_tiles args then axpy_dma_in sys args l frac (ev_in sc (unat i)) i s else Some s)
      (ax.upto args l frac js (\<lambda>t. mem_in args l frac (of_nat t)) t)"
    unfolding implements_def up c1 ui using dma_in_mem [OF run(1) _ run(6), of _ args l frac i] by (auto simp: i_def)
  have O: "implements (\<lambda>s. if i > 1 then axpy_dma_out sys args l frac (ev_out sc (unat i)) (i - 2) s else Some s)
      (if 1 < t then ax.upto args l frac js (\<lambda>t. mem_out args l frac (of_nat t)) (t - 2) else id)"
    unfolding implements_def c2 using dma_out_mem [OF run(1) _ run(7), of _ args l frac "i - 2"] t(1) by (auto simp: ui up i2)
  have C: "implements (\<lambda>s. if i > 0 \<and> i < args_n_tiles args + 1 then axpy_compute hs args l frac (i - 1) s else Some s)
      (if 0 < t then ax.upto args l frac js (\<lambda>t. mem_comp g js args l (of_nat t)) (t - 1) else id)"
  proof (cases "0 < t")
    case True
    then show ?thesis unfolding implements_def c3 if_P [OF True] up i1 [OF True] using comp [of _ l "of_nat (t - 1)"] by auto
  next
    case False
    then show ?thesis unfolding implements_def c3 by simp
  qed
  note unf = js_def [symmetric] i_def [symmetric] axpy_iter_def [abs_def] Let_def ax.pipe_step_def [abs_def] ui
  consider (before) "pos sc t = 0" | (between) "pos sc t \<noteq> 0" "pos sc t = 1" | (after) "pos sc t \<noteq> 0" "pos sc t \<noteq> 1" by blast
  then show ?thesis
  proof cases
    case before
    show ?thesis unfolding unf if_P [OF before] by (rule implements_bind [OF C implements_bind [OF I O], unfolded ui])
  next
    case between
    show ?thesis unfolding unf if_not_P [OF between(1)] if_P [OF between(2)]
      by (rule implements_bind [OF I implements_bind [OF C O], unfolded ui])
  next
    case after
    show ?thesis unfolding unf if_not_P [OF after(1)] if_not_P [OF after(2)]
      by (rule implements_bind [OF I implements_bind [OF O C], unfolded ui])
  qed
qed

lemma iters_implement:
  assumes "axpy_run c sys hs args frac sc f fuel g" "axpy_ok args l frac" "t + k \<le> unat (args_n_tiles args) + 2"
  shows "implements (axpy_iters sys hs args l frac sc k (of_nat t))
    (fold (\<lambda>t. ax.pipe_step args l frac g (axpy_order c hs (unat frac)) (pos sc t) t) [t..<t + k])"
  using assms(3)
proof (induction k arbitrary: t)
  case 0
  then show ?case using implements_Some by (simp add: implements_def)
next
  case (Suc k)
  have u: "[t..<t + Suc k] = t # [Suc t..<Suc t + k]" by (simp add: upt_conv_Cons)
  have "implements (axpy_iters sys hs args l frac sc k (of_nat t + 1))
      (fold (\<lambda>t. ax.pipe_step args l frac g (axpy_order c hs (unat frac)) (pos sc t) t) [Suc t..<Suc t + k])"
    using Suc.IH [of "Suc t"] Suc.prems by (simp add: add.commute)
  moreover have "implements (axpy_iter sys hs args l frac sc (of_nat t))
      (ax.pipe_step args l frac g (axpy_order c hs (unat frac)) (pos sc t) t)"
    using Suc.prems by (intro iter_implements [OF assms(1,2)]) simp
  ultimately show ?case unfolding u using implements_bind by (simp add: implements_def comp_def)
qed

lemma job_sequential:
  assumes "axpy_run c sys hs args frac sc f fuel g" "axpy_ok args l frac" "quiet s"
  shows "\<exists>s'. axpy_iters sys hs args l frac sc (unat (args_n_tiles args + 2)) 0 s = Some s' \<and> quiet s' \<and>
    dm_mem s' = fold (tile_step g (axpy_order c hs (unat frac)) args l frac) [0..<unat (args_n_tiles args)] (dm_mem s)"
proof -
  define js where "js = axpy_order c hs (unat frac)"
  have n: "unat (args_n_tiles args) + 2 < 4294967296" "axpy_team c hs" using assms(1) by (simp_all add: axpy_run_def)
  then have u: "unat (args_n_tiles args + 2) = unat (args_n_tiles args) + 2" by (subst unat_add_exact) simp_all
  have impl: "implements (axpy_iters sys hs args l frac sc (unat (args_n_tiles args) + 2) (of_nat 0))
    (fold (\<lambda>t. ax.pipe_step args l frac g js (pos sc t) t) [0..<0 + (unat (args_n_tiles args) + 2)])"
    unfolding js_def by (rule iters_implement [OF assms(1,2)]) simp
  have "set js \<subseteq> {..<unat frac}" using axpy_order_indices(2) [OF n(2)] by (simp add: js_def)
  note cond = if_P [OF conjI [OF assms(2) this]]
  note seq = ax.pipelined_sequential [of args l frac g js "pos sc", unfolded cond, folded tile_step_def]
  show ?thesis
    using implementsD [OF impl [unfolded cond] assms(3)]
    unfolding u js_def [symmetric] add_0 seq by (simp only: semiring_1_class.of_nat_0)
qed

section \<open>The layout of the buffers\<close>

lemma align_up_tcdm:
  assumes "unat (SNRT_TCDM_START_ADDR c) \<le> unat addr" "unat addr < 2 ^ 33"
  shows "unat addr \<le> unat (ALIGN_UP_TCDM c addr)" "unat (ALIGN_UP_TCDM c addr) < unat addr + 192"
    "(unat (ALIGN_UP_TCDM c addr) - unat (SNRT_TCDM_START_ADDR c)) mod 192 = 0"
proof -
  define B d where "B = unat (SNRT_TCDM_START_ADDR c)" and "d = unat addr - unat (SNRT_TCDM_START_ADDR c)"
  have B: "B < 4294967296" by (simp add: B_def)
  have d: "d < 8589934592" "unat addr = B + d" using assms by (simp_all add: d_def B_def)
  have "unat (addr - ucast (SNRT_TCDM_START_ADDR c)) = d" using assms(1) by (subst unat_sub_exact) (simp_all add: d_def)
  then have "unat (addr - ucast (SNRT_TCDM_START_ADDR c) + 192) = d + 192" using d(1) by (subst unat_add_exact) simp_all
  then have "unat (addr - ucast (SNRT_TCDM_START_ADDR c) + 192 - 1) = d + 191" by (subst unat_sub_exact) simp_all
  then have q: "unat ((addr - ucast (SNRT_TCDM_START_ADDR c) + 192 - 1) div 192) = (d + 191) div 192"
    by (simp add: unat_div)
  have le: "(d + 191) div 192 * 192 \<le> d + 191" by simp
  then have lt: "(d + 191) div 192 * 192 < 18446744073709551616" using d(1) by linarith
  have "unat ((addr - ucast (SNRT_TCDM_START_ADDR c) + 192 - 1) div 192 * 192) = (d + 191) div 192 * 192"
  proof (subst unat_mult_exact)
    show "unat ((addr - ucast (SNRT_TCDM_START_ADDR c) + 192 - 1) div 192) * unat (192 :: u64) < 2 ^ LENGTH(64)"
      unfolding q using lt by simp
  qed (simp only: q, simp)
  moreover have "(d + 191) div 192 * 192 + B < 18446744073709551616" using le d(1) B by linarith
  ultimately have u: "unat (ALIGN_UP_TCDM c addr) = (d + 191) div 192 * 192 + B"
    unfolding ALIGN_UP_TCDM_def ALIGN_NEXT_FROM_BASE_def TCDM_ALIGNMENT_def BANK_ALIGNMENT_def
    by (subst unat_add_exact) (simp_all add: B_def)
  have "d \<le> (d + 191) div 192 * 192" using div_mult_mod_eq [of "d + 191" 192] pos_mod_bound [of 192 "int (d + 191)"]
    by (simp add: algebra_simps)
  then show "unat addr \<le> unat (ALIGN_UP_TCDM c addr)" "unat (ALIGN_UP_TCDM c addr) < unat addr + 192"
    unfolding u d(2) using le by linarith+
  show "(unat (ALIGN_UP_TCDM c addr) - unat (SNRT_TCDM_START_ADDR c)) mod 192 = 0"
    unfolding u B_def by simp
qed

lemma unat_ucast_u64_u32: "unat (a :: u64) < 2 ^ 32 \<Longrightarrow> unat (ucast a :: u32) = unat a"
  by (simp add: unsigned_ucast_eq take_bit_nat_eq_self)

text \<open>One buffer behind another: from the end of the last one to the next line, at a bank of the line.\<close>

lemma align_buffer:
  assumes "unat (SNRT_TCDM_START_ADDR c) \<le> P" "P + unat sz + 192 + 128 \<le> 2 ^ 32" "unat p = P" "k \<le> 16"
  shows "P + unat sz \<le> unat (ALIGN_UP_TCDM c (p + ucast (sz :: u32)) + of_nat k * BANK_ALIGNMENT)"
    "unat (ALIGN_UP_TCDM c (p + ucast sz) + of_nat k * BANK_ALIGNMENT) \<le> P + unat sz + 191 + 8 * k"
    "(unat (ALIGN_UP_TCDM c (p + ucast sz) + of_nat k * BANK_ALIGNMENT) - unat (SNRT_TCDM_START_ADDR c)) mod 192 = 8 * k"
proof -
  define q where "q = ALIGN_UP_TCDM c (p + ucast sz)"
  have u: "unat (p + ucast sz) = P + unat sz" using assms(2,3) by (subst unat_add_exact) simp_all
  have al: "unat (SNRT_TCDM_START_ADDR c) \<le> unat (p + ucast sz)" "unat (p + ucast sz) < 2 ^ 33"
    using assms(1,2) by (simp_all add: u)
  note q = align_up_tcdm [OF al, folded q_def, unfolded u]
  have k: "unat (of_nat k * BANK_ALIGNMENT :: u64) = 8 * k"
    using assms(4) by (subst unat_mult_exact) (simp_all add: BANK_ALIGNMENT_def unat_of_nat_exact)
  have s: "unat (q + of_nat k * BANK_ALIGNMENT) = unat q + 8 * k"
    using q(2) assms(2,4) by (subst unat_add_exact) (simp_all add: k)
  show "P + unat sz \<le> unat (ALIGN_UP_TCDM c (p + ucast sz) + of_nat k * BANK_ALIGNMENT)"
    "unat (ALIGN_UP_TCDM c (p + ucast sz) + of_nat k * BANK_ALIGNMENT) \<le> P + unat sz + 191 + 8 * k"
    unfolding q_def [symmetric] s using q by simp_all
  have "unat (SNRT_TCDM_START_ADDR c) \<le> unat q" using q(1) assms(1) by simp
  then have "unat q + 8 * k - unat (SNRT_TCDM_START_ADDR c) = (unat q - unat (SNRT_TCDM_START_ADDR c)) + 8 * k" by simp
  then show "(unat (ALIGN_UP_TCDM c (p + ucast sz) + of_nat k * BANK_ALIGNMENT) - unat (SNRT_TCDM_START_ADDR c)) mod 192 = 8 * k"
    unfolding q_def [symmetric] s using q(3) assms(4) by (simp add: mod_add_left_eq [symmetric] mod_eq_0_iff_dvd)
qed

lemma buffers_in_order:
  assumes "unat (SNRT_TCDM_START_ADDR c) \<le> unat args" "unat args + 40 + 6 * unat sz + 1536 \<le> 2 ^ 32"
    "l = axpy_buffers c args sz" "A = (\<lambda>p. unat p - unat (SNRT_TCDM_START_ADDR c))"
  shows "unat args + 40 \<le> unat (local_x l 0) \<and> unat (local_x l 0) + unat sz \<le> unat (local_y l 0) \<and>
      unat (local_y l 0) + unat sz \<le> unat (local_z l 0) \<and> unat (local_z l 0) + unat sz \<le> unat (local_x l 1) \<and>
      unat (local_x l 1) + unat sz \<le> unat (local_y l 1) \<and> unat (local_y l 1) + unat sz \<le> unat (local_z l 1) \<and>
      unat (local_z l 1) + unat sz \<le> unat args + 40 + 6 * unat sz + 1536 \<and>
      A (local_x l 0) mod 192 = 0 \<and> A (local_y l 0) mod 192 = 64 \<and> A (local_z l 0) mod 192 = 128 \<and>
      A (local_x l 1) mod 192 = 0 \<and> A (local_y l 1) mod 192 = 64 \<and> A (local_z l 1) mod 192 = 128"
proof -
  let ?al = "\<lambda>p k. ALIGN_UP_TCDM c (p + ucast sz) + of_nat k * BANK_ALIGNMENT"
  define B S where "B = unat (SNRT_TCDM_START_ADDR c)" and "S = unat sz"
  define x0 where "x0 = ALIGN_UP_TCDM c (ucast args + axpy_args_size)"
  define y0 where "y0 = ?al x0 8"
  define z0 where "z0 = ?al y0 16"
  define x1 where "x1 = ?al z0 0"
  define y1 where "y1 = ?al x1 8"
  define z1 where "z1 = ?al y1 16"
  have lim: "unat args + 6 * S \<le> 4294965720" using assms(2) by (simp add: S_def)
  have "unat (ucast args + axpy_args_size :: u64) = unat args + 40"
    using lim by (subst unat_add_exact) (simp_all add: axpy_args_size_def)
  then have X0: "unat args + 40 \<le> unat x0" "unat x0 < unat args + 40 + 192" "(unat x0 - B) mod 192 = 0"
    using align_up_tcdm [of c "ucast args + axpy_args_size"] assms(1) lim by (simp_all add: x0_def B_def)
  have al: "P + S \<le> unat (?al p k) \<and> unat (?al p k) \<le> P + S + 191 + 8 * k \<and> (unat (?al p k) - B) mod 192 = 8 * k"
    if "unat p = P" "unat args \<le> P" "P + S \<le> 4294966976" "k \<le> 16" for p k P
    using align_buffer [of c P sz p k] that assms(1) by (simp add: B_def S_def)
  have Y0: "unat x0 + S \<le> unat y0" "unat y0 \<le> unat x0 + S + 255" "(unat y0 - B) mod 192 = 64"
    using al [OF refl, of x0 8] X0 lim by (simp_all add: y0_def)
  have Z0: "unat y0 + S \<le> unat z0" "unat z0 \<le> unat y0 + S + 319" "(unat z0 - B) mod 192 = 128"
    using al [OF refl, of y0 16] X0 Y0 lim by (simp_all add: z0_def)
  have X1: "unat z0 + S \<le> unat x1" "unat x1 \<le> unat z0 + S + 191" "(unat x1 - B) mod 192 = 0"
    using al [OF refl, of z0 0] X0 Y0 Z0 lim by (simp_all add: x1_def)
  have Y1: "unat x1 + S \<le> unat y1" "unat y1 \<le> unat x1 + S + 255" "(unat y1 - B) mod 192 = 64"
    using al [OF refl, of x1 8] X0 Y0 Z0 X1 lim by (simp_all add: y1_def)
  have Z1: "unat y1 + S \<le> unat z1" "unat z1 \<le> unat y1 + S + 319" "(unat z1 - B) mod 192 = 128"
    using al [OF refl, of y1 16] X0 Y0 Z0 X1 Y1 lim by (simp_all add: z1_def)
  have l: "local_x l 0 = ucast x0" "local_y l 0 = ucast y0" "local_z l 0 = ucast z0"
    "local_x l 1 = ucast x1" "local_y l 1 = ucast y1" "local_z l 1 = ucast z1"
    by (simp_all add: assms(3) axpy_buffers_def Let_def x0_def y0_def z0_def x1_def y1_def z1_def)
  have "unat p < 2 ^ 32" if "p \<in> {x0, y0, z0, x1, y1, z1}" for p using that X0 Y0 Z0 X1 Y1 Z1 lim by auto
  then have u: "unat (local_x l 0) = unat x0" "unat (local_y l 0) = unat y0" "unat (local_z l 0) = unat z0"
    "unat (local_x l 1) = unat x1" "unat (local_y l 1) = unat y1" "unat (local_z l 1) = unat z1"
    unfolding l by (simp_all add: unat_ucast_u64_u32)
  show ?thesis
    unfolding u assms(4) B_def [symmetric] S_def [symmetric] using X0 Y0 Z0 X1 Y1 Z1 lim by simp
qed

section \<open>The result of the job\<close>

text \<open>
  The operands and the result lie in the address space, the result apart from the operands and
  all of them apart from the part of the TCDM that the job uses.
\<close>

definition axpy_space :: "snrt_cfg \<Rightarrow> u32 \<Rightarrow> axpy_args_t \<Rightarrow> u32 \<Rightarrow> bool" where
  "axpy_space c args_ptr args frac \<longleftrightarrow>
     (let n = 8 * axpy_len args frac; room = 40 + 6 * (8 * unat frac) + 1536
      in frac \<noteq> 0 \<and> dptr (SNRT_TCDM_START_ADDR c) \<and> unat (SNRT_TCDM_START_ADDR c) \<le> unat args_ptr \<and>
         unat args_ptr + room \<le> 2 ^ 32 \<and> (\<forall>p\<in>{args_x args, args_y args, args_z args}. arr_ok p n \<and> apart p n args_ptr room) \<and>
         apart (args_x args) n (args_z args) n \<and> apart (args_y args) n (args_z args) n)"

lemma space_ok:
  assumes "axpy_space c args_ptr args frac"
  shows "axpy_ok args (axpy_buffers c args_ptr (frac * 8)) frac"
proof -
  define l where "l = axpy_buffers c args_ptr (frac * 8)"
  define n B room where "n = 8 * axpy_len args frac" and "B = 8 * unat frac" and "room = 40 + 6 * (8 * unat frac) + 1536"
  have h: "frac \<noteq> 0" "dptr (SNRT_TCDM_START_ADDR c)" "unat (SNRT_TCDM_START_ADDR c) \<le> unat args_ptr"
    "unat args_ptr + room \<le> 2 ^ 32" "apart (args_x args) n (args_z args) n" "apart (args_y args) n (args_z args) n"
    and rem: "\<And>p. p \<in> {args_x args, args_y args, args_z args} \<Longrightarrow> arr_ok p n \<and> apart p n args_ptr room"
    using assms unfolding axpy_space_def Let_def n_def room_def by blast+
  have B: "B < 2 ^ 32" using h(4) by (simp add: B_def room_def)
  then have sz: "unat (frac * 8) = B" unfolding B_def by (subst unat_mult_exact) simp_all
  have lim: "unat args_ptr + 40 + 6 * unat (frac * 8) + 1536 \<le> 2 ^ 32" using h(4) unfolding sz B_def room_def by simp
  note lay = buffers_in_order [OF h(3) lim l_def refl, unfolded sz]
  define bufs where "bufs = [local_x l 0, local_y l 0, local_z l 0, local_x l 1, local_y l 1, local_z l 1]"
  have inr: "unat args_ptr \<le> unat q \<and> unat q + B \<le> unat args_ptr + room" if "q \<in> set bufs" for q
    using that lay by (auto simp: bufs_def room_def B_def)
  have al: "dptr q" if "q \<in> set bufs" for q
  proof -
    have "(unat q - unat (SNRT_TCDM_START_ADDR c)) mod 192 mod 8 = 0"
      using that lay by (auto simp: bufs_def)
    then have "(unat q - unat (SNRT_TCDM_START_ADDR c)) mod 8 = 0" by (simp add: mod_mod_cancel)
    moreover have "unat (SNRT_TCDM_START_ADDR c) \<le> unat q" using inr [OF that] h(3) by simp
    ultimately show ?thesis using h(2) unfolding dptr_mod by (metis add_diff_inverse_nat add_0 leD mod_add_eq mod_0)
  qed
  have aq: "arr_ok q B" if "q \<in> set bufs" for q using al [OF that] inr [OF that] h(4) by (simp add: arr_ok_def)
  have loc: "bytes (ucast q) B \<inter> bytes (ucast r) B = {}" if "q \<in> set bufs" "r \<in> set bufs" "unat q + B \<le> unat r" for q r
    using that aq by (intro apart_bytes) (auto simp: apart_def arr_ok_def)
  have far: "bytes (ucast q) B \<inter> bytes (ucast p) n = {}"
    if "q \<in> set bufs" "p \<in> {args_x args, args_y args, args_z args}" for p q
    using rem [OF that(2)] inr [OF that(1)] aq [OF that(1)]
    by (intro apart_bytes) (auto simp: apart_def arr_ok_def)
  have sd: "bytes (ucast p) n \<inter> bytes (ucast (args_z args)) n = {}" if "p = args_x args \<or> p = args_y args" for p
    using that h(5,6) rem by (intro apart_bytes) (auto simp: arr_ok_def)
  have in_bufs: "local_x l b \<in> set bufs" "local_y l b \<in> set bufs" "local_z l b \<in> set bufs" if "b \<in> {0, 1}" for b
    using that by (auto simp: bufs_def)
  have xy: "bytes (ucast (local_x l b)) B \<inter> bytes (ucast (local_y l b)) B = {}" if "b \<in> {0, 1}" for b
    using that lay by (intro loc in_bufs) auto
  have b01: "(0 :: u32) \<in> {0, 1}" "(1 :: u32) \<in> {0, 1}" by simp_all
  have o: "unat (local_x l 0) + B \<le> unat (local_y l 0)" "unat (local_y l 0) + B \<le> unat (local_z l 0)"
    "unat (local_z l 0) + B \<le> unat (local_x l 1)" "unat (local_x l 1) + B \<le> unat (local_y l 1)"
    "unat (local_y l 1) + B \<le> unat (local_z l 1)" using lay by (simp_all only:)
  have d: "bytes (ucast (local_x l 0)) B \<inter> bytes (ucast (local_x l 1)) B = {}" "bytes (ucast (local_x l 0)) B \<inter> bytes (ucast (local_y l 1)) B = {}"
    "bytes (ucast (local_y l 0)) B \<inter> bytes (ucast (local_x l 1)) B = {}" "bytes (ucast (local_y l 0)) B \<inter> bytes (ucast (local_y l 1)) B = {}"
    "bytes (ucast (local_z l 0)) B \<inter> bytes (ucast (local_z l 1)) B = {}"
    "bytes (ucast (local_x l 0)) B \<inter> bytes (ucast (local_z l 0)) B = {}" "bytes (ucast (local_y l 0)) B \<inter> bytes (ucast (local_z l 0)) B = {}"
    "bytes (ucast (local_x l 0)) B \<inter> bytes (ucast (local_z l 1)) B = {}" "bytes (ucast (local_y l 0)) B \<inter> bytes (ucast (local_z l 1)) B = {}"
    "bytes (ucast (local_z l 0)) B \<inter> bytes (ucast (local_x l 1)) B = {}" "bytes (ucast (local_z l 0)) B \<inter> bytes (ucast (local_y l 1)) B = {}"
    "bytes (ucast (local_x l 1)) B \<inter> bytes (ucast (local_z l 1)) B = {}" "bytes (ucast (local_y l 1)) B \<inter> bytes (ucast (local_z l 1)) B = {}"
    using o by (intro loc in_bufs b01; linarith)+
  have sep: "op_bytes l frac 0 \<inter> op_bytes l frac 1 = {}" "res_bytes l frac 0 \<inter> res_bytes l frac 1 = {}"
    "(op_bytes l frac 0 \<union> op_bytes l frac 1) \<inter> (res_bytes l frac 0 \<union> res_bytes l frac 1) = {}"
    unfolding op_bytes_def res_bytes_def B_def [symmetric] Int_Un_distrib Int_Un_distrib2
    by (simp_all only: d trans [OF Int_commute d(10)] trans [OF Int_commute d(11)] Un_empty simp_thms)
  have bo: "bufs_ok args l frac b" if "b \<in> {0, 1}" for b
  proof -
    have "bytes (ucast q) B \<inter> (src_bytes args frac \<union> dst_bytes args frac) = {}" if "q \<in> set bufs" for q
      unfolding src_bytes_def dst_bytes_def n_def [symmetric]
      using far [OF that, of "args_x args"] far [OF that, of "args_y args"] far [OF that, of "args_z args"] by blast
    from this [OF in_bufs(1) [OF that]] this [OF in_bufs(2) [OF that]] this [OF in_bufs(3) [OF that]]
    show ?thesis
      unfolding bufs_ok_def op_bytes_def res_bytes_def B_def [symmetric]
      using aq in_bufs [OF that] xy [OF that] by blast
  qed
  have "src_bytes args frac \<inter> dst_bytes args frac = {}"
    unfolding src_bytes_def dst_bytes_def n_def [symmetric] using sd [of "args_x args"] sd [of "args_y args"] by blast
  then show ?thesis
    unfolding l_def [symmetric] axpy_ok_def n_def [symmetric] B_def [symmetric]
    using h(1) B bo rem sep by blast
qed

text \<open>
  The six buffers follow each other in the TCDM behind the job arguments, with at most
  1536 bytes of padding in all, and start where the comment says: \<open>x\<close> at the first bank of a line of
  24, \<open>y\<close> at bank 8 and \<open>z\<close> at bank 16.
\<close>

theorem axpy_buffers_layout:
  assumes "unat (SNRT_TCDM_START_ADDR c) \<le> unat args" "unat args + 40 + 6 * unat sz + 1536 \<le> 2 ^ 32"
    "l = axpy_buffers c args sz" "A = (\<lambda>p. unat p - unat (SNRT_TCDM_START_ADDR c))"
  shows "unat args + 40 \<le> unat (local_x l 0) \<and> unat (local_x l 0) + unat sz \<le> unat (local_y l 0) \<and>
      unat (local_y l 0) + unat sz \<le> unat (local_z l 0) \<and> unat (local_z l 0) + unat sz \<le> unat (local_x l 1) \<and>
      unat (local_x l 1) + unat sz \<le> unat (local_y l 1) \<and> unat (local_y l 1) + unat sz \<le> unat (local_z l 1) \<and>
      unat (local_z l 1) + unat sz \<le> unat args + 40 + 6 * unat sz + 1536 \<and>
      A (local_x l 0) mod 192 = 0 \<and> A (local_y l 0) mod 192 = 64 \<and> A (local_z l 0) mod 192 = 128 \<and>
      A (local_x l 1) mod 192 = 0 \<and> A (local_y l 1) mod 192 = 64 \<and> A (local_z l 1) mod 192 = 128"
  using assms by (rule buffers_in_order)

theorem axpy_buffers_layout_witness:
  "unat (local_z (axpy_buffers sample_cfg 0x10000000 512) 0) + 512 \<le> unat (local_x (axpy_buffers sample_cfg 0x10000000 512) 1)"
  using axpy_buffers_layout [of sample_cfg "0x10000000" 512 "axpy_buffers sample_cfg 0x10000000 512"
      "\<lambda>p. unat p - unat (SNRT_TCDM_START_ADDR sample_cfg)"]
  by (simp add: sample_cfg_def)

text \<open>
  C3: The double-buffered job. For every placement of the compute phase before, between or after the two
  phases of the data mover in each iteration, and every sequence of events in which the transfers complete, the job ends
  and leaves in each element of \<open>z\<close> covered by the tiles the value the kernel computes from the elements of
  \<open>x\<close> and \<open>y\<close> at the start; nothing outside the result and the buffers changes.
\<close>

theorem axpy_job_correct:
  assumes "axpy_run c sys hs args frac sc f fuel g" "axpy_space c args_ptr args frac" "quiet s"
    "frac = args_n args div args_n_tiles args"
  shows "\<exists>s'. axpy_job c sys hs args_ptr args sc s = Some s' \<and> quiet s' \<and>
    (\<forall>i < unat (args_n_tiles args) * unat frac. rd_d (dm_mem s') (args_z args) (of_nat i) =
       g (args_a args) (rd_d (dm_mem s) (args_x args) (of_nat i)) (rd_d (dm_mem s) (args_y args) (of_nat i))) \<and>
    (\<forall>b. b \<notin> job_bytes args (axpy_buffers c args_ptr (frac * 8)) frac \<longrightarrow> dm_mem s' b = dm_mem s b)"
proof -
  define l where "l = axpy_buffers c args_ptr (frac * 8)"
  define js where "js = axpy_order c hs (unat frac)"
  have ok: "axpy_ok args l frac" unfolding l_def by (rule space_ok [OF assms(2)])
  have team: "axpy_team c hs" using assms(1) by (simp add: axpy_run_def)
  have js: "distinct js" "set js = {..<unat frac}" using axpy_order_indices [OF team] by (simp_all add: js_def)
  obtain s' where s': "axpy_job c sys hs args_ptr args sc s = Some s'" "quiet s'"
    "dm_mem s' = fold (tile_step g js args l frac) [0..<unat (args_n_tiles args)] (dm_mem s)"
    using job_sequential [OF assms(1) ok assms(3)]
    unfolding axpy_job_def Let_def assms(4) [symmetric] l_def [symmetric] js_def [symmetric] by blast
  have "rd_d (dm_mem s') (args_z args) (of_nat i) =
      g (args_a args) (rd_d (dm_mem s) (args_x args) (of_nat i)) (rd_d (dm_mem s) (args_y args) (of_nat i))"
    if "i < unat (args_n_tiles args) * unat frac" for i
  proof -
    have fr: "0 < unat frac" using axpy_okD(1) [OF ok] by (simp add: unat_gt_0)
    have "i div unat frac < unat (args_n_tiles args)" using that fr by (simp add: less_mult_imp_div_less)
    from seq_elem [OF ok js order_refl this, of "i mod unat frac" g "dm_mem s"]
    show ?thesis using fr unfolding s'(3) div_mult_mod_eq by simp
  qed
  moreover have "dm_mem s' b = dm_mem s b" if "b \<notin> job_bytes args l frac" for b
    unfolding s'(3) by (rule seq_out [OF ok js(2) order_refl that])
  ultimately show ?thesis using s'(1,2) unfolding l_def [symmetric] by blast
qed

text \<open>Sixteen elements in two tiles, computed while the next tile is loaded.\<close>

definition sample_args :: axpy_args_t where
  "sample_args = \<lparr>args_n = 16, args_a = 3, args_x = 0x80000000, args_y = 0x80001000, args_z = 0x80002000,
     args_n_tiles = 2, args_funcptr = (\<lambda>h n a x y z. axpy_fma int_fpu sample_cfg h n a x y z 8)\<rparr>"

definition sample_sched :: axpy_sched where
  "sample_sched = \<lparr>pos = (\<lambda>_. 1), ev_in = (\<lambda>_. [0, 0]), ev_out = (\<lambda>_. [0])\<rparr>"

theorem axpy_job_correct_witness:
  "\<exists>s'. axpy_job sample_cfg sample_sys [3, 1, 2, 0, 7, 6, 5, 4] 0x10000000 sample_args sample_sched sample_dma = Some s' \<and>
     rd_d (dm_mem s') 0x80002000 9 = 3 * rd_d (dm_mem sample_dma) 0x80000000 9 + rd_d (dm_mem sample_dma) 0x80001000 9"
proof -
  have 1: "axpy_run sample_cfg sample_sys [3, 1, 2, 0, 7, 6, 5, 4] sample_args 8 sample_sched int_fpu 8 (fmadd int_fpu)"
    using sample_axpy_team sample_dma_ok(1)
    by (simp add: axpy_run_def sample_args_def sample_sched_def axpy_kernel_def)
  have 2: "axpy_space sample_cfg 0x10000000 sample_args 8"
    by (simp add: axpy_space_def Let_def sample_args_def axpy_len_def arr_ok_def apart_def dptr_mod sample_cfg_def)
  have 3: "quiet sample_dma" using sample_dma_ok(2,3) by (simp add: quiet_def)
  have 4: "8 = args_n sample_args div args_n_tiles sample_args" by (simp add: sample_args_def)
  from axpy_job_correct [OF 1 2 3 4] show ?thesis
    by (auto simp: sample_args_def int_fpu_def dest: spec [of _ 9])
qed

end
