(* ===== verification/Gemm.thy ===== *)
theory Gemm
  imports Kernel Alloc
begin

text \<open>
  The tiled matrix product of \<open>sw/kernels/blas/gemm/src/gemm.h\<close> with its argument structures
  (\<open>gemm_types.h\<close>): the distribution of the rows of a tile over the compute cores, the
  buffers in the TCDM, the distribution of the tiles over the clusters and the loop over the
  tiles. The loop is modelled by the calls each core makes, in order and with their arguments. What the calls of
  a data mover core and a compute core between two barriers do is taken for every interleaving,
  on tiles as the unit of data: the arithmetic of the kernel on a tile is a parameter.
\<close>

section \<open>Arguments (gemm_types.h)\<close>

text \<open>
  Flags are truth values; the members \<open>alpha\<close>, which no code reads, and the function pointer \<open>gemm_fp\<close>, which is
  an argument of the definitions that call it, are left out.
\<close>

record gemm_args_t =
  g_m_tiles :: u32
  g_n_tiles :: u32
  g_k_tiles :: u32
  g_parallelize_m :: bool
  g_parallelize_k :: bool
  g_load_a :: bool
  g_load_b :: bool
  g_load_c :: bool
  g_double_buffer :: bool
  g_prec :: u32
  g_setup_ssr :: bool
  g_partition_banks :: bool
  g_transa :: bool
  g_transb :: bool
  g_m :: u32
  g_n :: u32
  g_k :: u32
  g_a :: u32
  g_lda :: u32
  g_b :: u32
  g_ldb :: u32
  g_beta :: u32
  g_c :: u32
  g_ldc :: u32

record sc_st_gemm_args_t =
  t_prec :: u32
  t_setup_ssr :: bool
  t_partition_banks :: bool
  t_transa :: bool
  t_transb :: bool
  t_m :: u32
  t_n :: u32
  t_k :: u32
  t_a :: u32
  t_lda :: u32
  t_b :: u32
  t_ldb :: u32
  t_beta :: u32
  t_c :: u32
  t_ldc :: u32

text \<open>The arguments of a kernel, \<open>gemm_fp_t\<close>.\<close>

record gemm_fp_args =
  k_setup_ssr :: bool
  k_partition_banks :: bool
  k_transa :: bool
  k_transb :: bool
  k_M :: u32
  k_N :: u32
  k_K :: u32
  k_A :: u32
  k_lda :: u32
  k_B :: u32
  k_ldb :: u32
  k_beta :: u32
  k_C :: u32
  k_ldc :: u32

section \<open>One tile on one cluster\<close>

definition sc_st_gemm ::
  "snrt_cfg \<Rightarrow> hart \<Rightarrow> (gemm_fp_args \<Rightarrow> 's \<Rightarrow> 's option) \<Rightarrow> sc_st_gemm_args_t \<Rightarrow> 's \<Rightarrow> 's option" where
  "sc_st_gemm c h krn args s =
     (if snrt_is_compute_core c h then
        (let core_num = snrt_cluster_compute_core_num c;
             core_idx = snrt_cluster_core_idx c h;
             lda = core_num * t_lda args;
             ldc = core_num * t_ldc args;
             offset_a = core_idx * t_lda args * t_prec args;
             offset_c = core_idx * t_ldc args * t_prec args;
             a = t_a args + offset_a;
             cp = t_c args + offset_c;
             frac_m = t_m args div core_num;
             rem_m = t_m args mod core_num;
             frac_m = (if snrt_cluster_core_idx c h < rem_m then frac_m + 1 else frac_m)
         in if frac_m > 0
            then krn \<lparr>k_setup_ssr = t_setup_ssr args, k_partition_banks = t_partition_banks args,
                      k_transa = t_transa args, k_transb = t_transb args, k_M = frac_m, k_N = t_n args,
                      k_K = t_k args, k_A = a, k_lda = lda, k_B = t_b args, k_ldb = t_ldb args,
                      k_beta = t_beta args, k_C = cp, k_ldc = ldc\<rparr> s
            else Some s)
      else Some s)"

section \<open>Buffers\<close>

definition calculate_partitioned_banks_lines :: "snrt_cfg \<Rightarrow> u32 \<Rightarrow> u32 \<Rightarrow> u32" where
  "calculate_partitioned_banks_lines c banks_per_buffer sz =
     sz div (banks_per_buffer * SNRT_TCDM_BANK_WIDTH c)"

record gemm_bufs =
  la :: "u32 \<Rightarrow> u32"
  lb :: "u32 \<Rightarrow> u32"
  lc :: "u32 \<Rightarrow> u32"
  lcr :: u32

text \<open>
  The addresses of the two sets of buffers; \<open>old\<close> is what the arrays of the caller hold: an element
  that is not assigned keeps it.
\<close>

record gemm_addrs =
  a_addr :: "u32 \<Rightarrow> u32"
  b_addr :: "u32 \<Rightarrow> u32"
  c_addr :: "u32 \<Rightarrow> u32"

definition buffer_addrs :: "snrt_cfg \<Rightarrow> snrt_allocator_t \<Rightarrow> u32 \<Rightarrow> u32 \<Rightarrow> u32 \<Rightarrow> bool \<Rightarrow> u32 \<Rightarrow> gemm_addrs" where
  "buffer_addrs c l1 size_a size_b size_c partition_banks banks_per_buffer =
     (let w = SNRT_TCDM_BANK_WIDTH c * banks_per_buffer;
          a0 = snrt_align_up_hyperbank c (snrt_l1_next_v2 l1)
      in if partition_banks then
           (let b0 = a0 + w; c0 = b0 + w;
                (a1, b1, c1) =
                  (if SNRT_TCDM_HYPERBANK_NUM c = 2
                   then (a0 + SNRT_TCDM_HYPERBANK_SIZE c, b0 + SNRT_TCDM_HYPERBANK_SIZE c, c0 + SNRT_TCDM_HYPERBANK_SIZE c)
                   else if SNRT_TCDM_BANK_NUM c \<ge> banks_per_buffer * 6
                   then (c0 + w, c0 + w + w, c0 + w + w + w)
                   else (a0 + SNRT_TCDM_HYPERBANK_WIDTH c * calculate_partitioned_banks_lines c banks_per_buffer size_a,
                         b0 + SNRT_TCDM_HYPERBANK_WIDTH c * calculate_partitioned_banks_lines c banks_per_buffer size_b,
                         c0 + SNRT_TCDM_HYPERBANK_WIDTH c * calculate_partitioned_banks_lines c banks_per_buffer size_c))
            in \<lparr>a_addr = (\<lambda>i. if i = 0 then a0 else a1), b_addr = (\<lambda>i. if i = 0 then b0 else b1),
                c_addr = (\<lambda>i. if i = 0 then c0 else c1)\<rparr>)
         else
           (let b0 = snrt_align_up (a0 + size_a) 8 0; c0 = snrt_align_up (b0 + size_b) 8 0;
                a1 = snrt_align_up (c0 + size_c) 8 0; b1 = snrt_align_up (a1 + size_a) 8 0;
                c1 = snrt_align_up (b1 + size_b) 8 0
            in \<lparr>a_addr = (\<lambda>i. if i = 0 then a0 else a1), b_addr = (\<lambda>i. if i = 0 then b0 else b1),
                c_addr = (\<lambda>i. if i = 0 then c0 else c1)\<rparr>))"

definition assign_buffer :: "bool \<Rightarrow> bool \<Rightarrow> (u32 \<Rightarrow> u32) \<Rightarrow> u32 \<Rightarrow> (u32 \<Rightarrow> u32) \<Rightarrow> u32 \<Rightarrow> u32" where
  "assign_buffer ld db addr ptr old =
     (if ld then (if db then old(0 := addr 0, 1 := addr 1) else old(0 := addr 0)) else old(0 := ptr))"

definition allocate_buffers ::
  "snrt_cfg \<Rightarrow> snrt_allocator_t \<Rightarrow> u32 \<Rightarrow> u32 \<Rightarrow> u32 \<Rightarrow> gemm_args_t \<Rightarrow> u32 \<Rightarrow> gemm_bufs \<Rightarrow> gemm_bufs" where
  "allocate_buffers c l1 size_a size_b size_c largs banks_per_buffer old =
     (let ad = buffer_addrs c l1 size_a size_b size_c (g_partition_banks largs) banks_per_buffer
      in \<lparr>la = assign_buffer (g_load_a largs) (g_double_buffer largs) (a_addr ad) (g_a largs) (la old),
          lb = assign_buffer (g_load_b largs) (g_double_buffer largs) (b_addr ad) (g_b largs) (lb old),
          lc = assign_buffer (g_load_c largs) (g_double_buffer largs) (c_addr ad) (g_c largs) (lc old),
          lcr = (if g_parallelize_k largs then c_addr ad 1 else lcr old)\<rparr>)"

definition calculate_partitioned_banks_stride :: "snrt_cfg \<Rightarrow> u32 \<Rightarrow> u32 \<Rightarrow> u32 \<Rightarrow> u32" where
  "calculate_partitioned_banks_stride c banks_per_buffer row_size prec =
     (let elems_per_line = (banks_per_buffer * SNRT_TCDM_BANK_WIDTH c) div prec;
          lines_per_row = row_size div elems_per_line
      in (lines_per_row * SNRT_TCDM_HYPERBANK_WIDTH c) div prec)"

section \<open>Distribution of the tiles over the clusters\<close>

record gemm_dist =
  cluster_m_tiles :: u32
  cluster_k_tiles :: u32
  num_working_clusters :: u32

definition gemm_distribute :: "snrt_cfg \<Rightarrow> hart \<Rightarrow> gemm_args_t \<Rightarrow> gemm_dist" where
  "gemm_distribute c h largs =
     (let m_tiles = (if g_parallelize_m largs then g_m_tiles largs div snrt_cluster_num c else g_m_tiles largs);
          k_tiles_quotient = g_k_tiles largs div snrt_cluster_num c;
          k_tiles_remainder = g_k_tiles largs mod snrt_cluster_num c
      in if g_parallelize_k largs
         then \<lparr>cluster_m_tiles = m_tiles,
               cluster_k_tiles = (if snrt_cluster_idx c h < k_tiles_remainder then k_tiles_quotient + 1 else k_tiles_quotient),
               num_working_clusters = (if k_tiles_quotient = 0 then k_tiles_remainder else snrt_cluster_num c)\<rparr>
         else \<lparr>cluster_m_tiles = m_tiles, cluster_k_tiles = g_k_tiles largs, num_working_clusters = snrt_cluster_num c\<rparr>)"

text \<open>The indices of the tile in iteration \<open>i\<close> (loops over k, n, m from the inside), relative to the cluster and absolute.\<close>

record tile_idx =
  ti_k :: u32
  ti_mn :: u32
  ti_n :: u32
  ti_m_abs :: u32
  ti_k_abs :: u32

definition tile_index :: "snrt_cfg \<Rightarrow> hart \<Rightarrow> gemm_args_t \<Rightarrow> gemm_dist \<Rightarrow> u32 \<Rightarrow> tile_idx" where
  "tile_index c h largs d i =
     (let k = i mod cluster_k_tiles d;
          mn = i div cluster_k_tiles d;
          n = mn mod g_n_tiles largs;
          m = mn div g_n_tiles largs
      in \<lparr>ti_k = k, ti_mn = mn, ti_n = n,
          ti_m_abs = (if g_parallelize_m largs then m + snrt_cluster_idx c h * cluster_m_tiles d else m),
          ti_k_abs = (if g_parallelize_k largs then k + snrt_cluster_idx c h * cluster_k_tiles d else k)\<rparr>)"

section \<open>The calls of a core\<close>

datatype gemm_call =
    Dma_load_2d_tile u32 u32 u32 u32 u32 u32 u32 u32
  | Dma_store_2d_tile u32 u32 u32 u32 u32 u32 u32 u32
  | Dma_1d_to_2d u32 u32 u32 u32 u32
  | Dma_2d_to_1d u32 u32 u32 u32 u32
  | Dma_start_1d u32 u32 u32
  | Dma_wait_all
  | Cluster_hw_barrier
  | Sc_st_gemm sc_st_gemm_args_t
  | Global_reduction_dma u32 u32 u32 u32
  | Comm_create u32

text \<open>What the loop uses: the configuration, the core, the arguments, the buffers, the distribution, the tile sizes.\<close>

record gemm_env =
  e_cfg :: snrt_cfg
  e_hart :: hart
  e_args :: gemm_args_t
  e_bufs :: gemm_bufs
  e_dist :: gemm_dist
  e_zeromem :: u32
  e_banks :: u32
  e_tile_m :: u32
  e_tile_n :: u32
  e_tile_k :: u32

definition tile_a_size :: "gemm_env \<Rightarrow> u32" where
  "tile_a_size e = e_tile_m e * e_tile_k e * g_prec (e_args e)"

definition tile_b_size :: "gemm_env \<Rightarrow> u32" where
  "tile_b_size e = e_tile_k e * e_tile_n e * g_prec (e_args e)"

definition tile_c_size :: "gemm_env \<Rightarrow> u32" where
  "tile_c_size e = e_tile_m e * e_tile_n e * g_prec (e_args e)"

definition num_tiles :: "gemm_env \<Rightarrow> u32" where
  "num_tiles e = cluster_m_tiles (e_dist e) * g_n_tiles (e_args e) * cluster_k_tiles (e_dist e)"

text \<open>
  The width of the banks of a buffer. The loop keeps its indices in signed variables: the remainder modulo two that selects a buffer
  is the one below for iteration numbers under \<open>2 ^ 31\<close>.
\<close>

definition row_bytes :: "gemm_env \<Rightarrow> u32" where
  "row_bytes e = e_banks e * SNRT_TCDM_BANK_WIDTH (e_cfg e)"

definition dma_out_calls :: "gemm_env \<Rightarrow> u32 \<Rightarrow> gemm_call list" where
  "dma_out_calls e dma_out_i =
     (let g = e_args e;
          t = tile_index (e_cfg e) (e_hart e) g (e_dist e) dma_out_i;
          buff_idx = (if g_double_buffer g then ti_mn t mod 2 else 0)
      in if 0 \<le> sint dma_out_i then
           (if snrt_cluster_idx (e_cfg e) (e_hart e) = 0 \<or> \<not> g_parallelize_k g then
              [if g_partition_banks g
               then Dma_2d_to_1d (g_c g + ti_m_abs t * tile_c_size e) (lc (e_bufs e) buff_idx) (tile_c_size e)
                      (row_bytes e) (SNRT_TCDM_HYPERBANK_WIDTH (e_cfg e))
               else Dma_store_2d_tile (g_c g) (lc (e_bufs e) buff_idx) (ti_m_abs t) (ti_n t)
                      (e_tile_m e) (e_tile_n e) (g_ldc g) (g_prec g), Dma_wait_all]
            else [])
         else [])"

definition load_a_calls :: "gemm_env \<Rightarrow> u32 \<Rightarrow> tile_idx \<Rightarrow> gemm_call list" where
  "load_a_calls e buff_idx t =
     (let g = e_args e in
      if g_load_a g then
        [if g_partition_banks g
         then Dma_1d_to_2d (la (e_bufs e) buff_idx) (g_a g + ti_m_abs t * tile_a_size e) (tile_a_size e)
                (row_bytes e) (SNRT_TCDM_HYPERBANK_WIDTH (e_cfg e))
         else Dma_load_2d_tile (la (e_bufs e) buff_idx) (g_a g) (ti_m_abs t) (ti_k_abs t)
                (e_tile_m e) (e_tile_k e) (g_lda g) (g_prec g)]
      else [])"

definition load_b_calls :: "gemm_env \<Rightarrow> u32 \<Rightarrow> tile_idx \<Rightarrow> gemm_call list" where
  "load_b_calls e buff_idx t =
     (let g = e_args e in
      if g_load_b g then
        [if g_transb g
         then Dma_load_2d_tile (lb (e_bufs e) buff_idx) (g_b g) (ti_n t) (ti_k_abs t)
                (e_tile_n e) (e_tile_k e) (g_ldb g) (g_prec g)
         else if g_partition_banks g
         then Dma_1d_to_2d (lb (e_bufs e) buff_idx) (g_b g + ti_k_abs t * tile_b_size e) (tile_b_size e)
                (row_bytes e) (SNRT_TCDM_HYPERBANK_WIDTH (e_cfg e))
         else Dma_load_2d_tile (lb (e_bufs e) buff_idx) (g_b g) (ti_k_abs t) (ti_n t)
                (e_tile_k e) (e_tile_n e) (g_ldb g) (g_prec g)]
      else [])"

definition load_c_calls :: "gemm_env \<Rightarrow> u32 \<Rightarrow> tile_idx \<Rightarrow> gemm_call list" where
  "load_c_calls e c_buff_idx t =
     (let g = e_args e in
      if g_load_c g then
        (if ti_k_abs t = 0 then
           [if g_partition_banks g
            then Dma_1d_to_2d (lc (e_bufs e) c_buff_idx) (g_c g + ti_m_abs t * tile_c_size e) (tile_c_size e)
                   (row_bytes e) (SNRT_TCDM_HYPERBANK_WIDTH (e_cfg e))
            else Dma_load_2d_tile (lc (e_bufs e) c_buff_idx) (g_c g) (ti_m_abs t) (ti_n t)
                   (e_tile_m e) (e_tile_n e) (g_ldc g) (g_prec g)]
         else if ti_k t = 0 then
           [if g_partition_banks g
            then Dma_1d_to_2d (lc (e_bufs e) c_buff_idx) (e_zeromem e) (tile_c_size e)
                   (row_bytes e) (SNRT_TCDM_HYPERBANK_WIDTH (e_cfg e))
            else Dma_start_1d (lc (e_bufs e) c_buff_idx) (e_zeromem e) (tile_c_size e)]
         else [])
      else [])"

definition dma_in_calls :: "gemm_env \<Rightarrow> u32 \<Rightarrow> gemm_call list" where
  "dma_in_calls e dma_in_i =
     (let g = e_args e;
          t = tile_index (e_cfg e) (e_hart e) g (e_dist e) dma_in_i;
          buff_idx = (if g_double_buffer g then dma_in_i mod 2 else 0);
          c_buff_idx = (if g_double_buffer g then ti_mn t mod 2 else 0)
      in if dma_in_i < num_tiles e
         then load_a_calls e buff_idx t @ load_b_calls e buff_idx t @ load_c_calls e c_buff_idx t @ [Dma_wait_all]
         else [])"

definition tile_args :: "gemm_env \<Rightarrow> u32 \<Rightarrow> u32 \<Rightarrow> tile_idx \<Rightarrow> sc_st_gemm_args_t" where
  "tile_args e buff_idx c_buff_idx t =
     (let g = e_args e;
          stride = (\<lambda>row. calculate_partitioned_banks_stride (e_cfg e) (e_banks e) row (g_prec g))
      in \<lparr>t_prec = g_prec g, t_setup_ssr = g_setup_ssr g, t_partition_banks = g_partition_banks g,
          t_transa = g_transa g, t_transb = g_transb g, t_m = e_tile_m e, t_n = e_tile_n e, t_k = e_tile_k e,
          t_a = la (e_bufs e) buff_idx,
          t_lda = (if g_transa g then e_tile_m e else if g_partition_banks g then stride (e_tile_k e) else e_tile_k e),
          t_b = lb (e_bufs e) buff_idx,
          t_ldb = (if g_transb g then e_tile_k e else if g_partition_banks g then stride (e_tile_n e) else e_tile_n e),
          t_beta = (if ti_k_abs t = 0 then g_beta g else 1),
          t_c = lc (e_bufs e) c_buff_idx,
          t_ldc = (if g_partition_banks g then stride (e_tile_n e) else e_tile_n e)\<rparr>)"

definition compute_calls :: "gemm_env \<Rightarrow> u32 \<Rightarrow> gemm_call list" where
  "compute_calls e comp_i =
     (let g = e_args e;
          t = tile_index (e_cfg e) (e_hart e) g (e_dist e) comp_i;
          buff_idx = (if g_double_buffer g then comp_i mod 2 else 0);
          c_buff_idx = (if g_double_buffer g then ti_mn t mod 2 else 0)
      in if 0 \<le> sint comp_i \<and> comp_i < num_tiles e then
           (if \<not> snrt_is_dm_core (e_cfg e) (e_hart e) then [Sc_st_gemm (tile_args e buff_idx c_buff_idx t)] else []) @
           (if g_parallelize_k g \<and> ti_k t = cluster_k_tiles (e_dist e) - 1 \<and> g_prec g \<in> {8, 4, 2}
            then [Global_reduction_dma (g_prec g) (lcr (e_bufs e)) (lc (e_bufs e) c_buff_idx) (e_tile_m e * e_tile_n e)]
            else [])
         else [])"

definition gemm_iter_calls :: "gemm_env \<Rightarrow> u32 \<Rightarrow> gemm_call list" where
  "gemm_iter_calls e i =
     (let db = g_double_buffer (e_args e);
          dm = snrt_is_dm_core (e_cfg e) (e_hart e);
          dma_in_i = i;
          comp_i = (if db then i - 1 else i);
          dma_out_i = (if db then i - 2 else i - 1)
      in (if dm then dma_out_calls e dma_out_i else []) @
         (if dm then dma_in_calls e dma_in_i else []) @
         (if \<not> db then [Cluster_hw_barrier] else []) @
         compute_calls e comp_i @ [Cluster_hw_barrier])"

definition gemm_env_of ::
  "snrt_cfg \<Rightarrow> hart \<Rightarrow> gemm_args_t \<Rightarrow> snrt_allocator_t \<Rightarrow> u32 \<Rightarrow> gemm_bufs \<Rightarrow> gemm_env" where
  "gemm_env_of c h largs l1 zeromem old =
     (let tile_m = g_m largs div g_m_tiles largs;
          tile_n = g_n largs div g_n_tiles largs;
          tile_k = g_k largs div g_k_tiles largs;
          size_a = tile_m * tile_k * g_prec largs;
          size_b = tile_k * tile_n * g_prec largs;
          size_c = tile_m * tile_n * g_prec largs;
          banks_per_buffer = snrt_cluster_compute_core_num c
      in \<lparr>e_cfg = c, e_hart = h, e_args = largs,
          e_bufs = allocate_buffers c l1 size_a size_b size_c largs banks_per_buffer old,
          e_dist = gemm_distribute c h largs, e_zeromem = zeromem, e_banks = banks_per_buffer,
          e_tile_m = tile_m, e_tile_n = tile_n, e_tile_k = tile_k\<rparr>)"

text \<open>
  From the computation of the tile sizes on, with the arguments in the TCDM (\<open>JOB_ARGS_PRELOADED\<close>, or after their copy): the
  barrier, the creation of the communicator, which ends in a global barrier, then the iterations.
\<close>

definition gemm ::
  "snrt_cfg \<Rightarrow> hart \<Rightarrow> gemm_args_t \<Rightarrow> snrt_allocator_t \<Rightarrow> u32 \<Rightarrow> gemm_bufs \<Rightarrow> gemm_call list" where
  "gemm c h largs l1 zeromem old =
     (let e = gemm_env_of c h largs l1 zeromem old;
          num_iters = num_tiles e + (if g_double_buffer largs then 2 else 1)
      in Cluster_hw_barrier # Comm_create (num_working_clusters (e_dist e)) #
         concat (map (\<lambda>i. gemm_iter_calls e (of_nat i)) [0..<unat num_iters]))"

section \<open>What the calls do, on tiles\<close>

text \<open>
  The state holds the tile in each buffer and, for the matrix at a pointer, the tile at each pair of tile
  coordinates. The kernel \<open>mac\<close> takes the factor \<open>beta\<close>, the operands and the old tile; \<open>zero\<close> is a
  tile of the zero memory. The transfers of the bank-partitioned layout and the reduction over clusters
  are not interpreted.
\<close>

record 't tiles =
  tbuf :: "u32 \<Rightarrow> 't"
  tmat :: "u32 \<Rightarrow> u32 \<Rightarrow> u32 \<Rightarrow> 't"

fun tile_exec :: "(u32 \<Rightarrow> 't \<Rightarrow> 't \<Rightarrow> 't \<Rightarrow> 't) \<Rightarrow> 't \<Rightarrow> gemm_call \<Rightarrow> 't tiles \<Rightarrow> 't tiles" where
  "tile_exec mac zero (Dma_load_2d_tile dst src x1 x0 n1 n0 ld prec) s = s\<lparr>tbuf := (tbuf s)(dst := tmat s src x1 x0)\<rparr>"
| "tile_exec mac zero (Dma_store_2d_tile dst src x1 x0 n1 n0 ld prec) s =
     s\<lparr>tmat := (tmat s)(dst := (tmat s dst)(x1 := (tmat s dst x1)(x0 := tbuf s src)))\<rparr>"
| "tile_exec mac zero (Dma_start_1d dst src n) s = s\<lparr>tbuf := (tbuf s)(dst := zero)\<rparr>"
| "tile_exec mac zero (Sc_st_gemm a) s =
     s\<lparr>tbuf := (tbuf s)(t_c a := mac (t_beta a) (tbuf s (t_a a)) (tbuf s (t_b a)) (tbuf s (t_c a)))\<rparr>"
| "tile_exec mac zero _ s = s"

text \<open>
  The parts of a sequence of calls between barriers; two cores execute each of their parts
  in any interleaving.
\<close>

definition is_sync :: "gemm_call \<Rightarrow> bool" where
  "is_sync x \<longleftrightarrow> (case x of Cluster_hw_barrier \<Rightarrow> True | Comm_create _ \<Rightarrow> True | _ \<Rightarrow> False)"

fun parts :: "gemm_call list \<Rightarrow> gemm_call list list" where
  "parts [] = [[]]"
| "parts (x # xs) =
     (if is_sync x then [] # parts xs
      else (case parts xs of [] \<Rightarrow> [[x]] | p # ps \<Rightarrow> (x # p) # ps))"

fun sync_runs :: "gemm_call list list \<Rightarrow> gemm_call list list \<Rightarrow> gemm_call list set" where
  "sync_runs [] [] = {[]}"
| "sync_runs (p # ps) (q # qs) = {z @ zs |z zs. z \<in> shuffles p q \<and> zs \<in> sync_runs ps qs}"
| "sync_runs _ _ = {}"

definition cluster_runs :: "gemm_call list \<Rightarrow> gemm_call list \<Rightarrow> gemm_call list set" where
  "cluster_runs xs ys = sync_runs (parts xs) (parts ys)"

text \<open>One barrier after the other.\<close>

lemma parts_not_Nil: "parts xs \<noteq> []"
  by (induction xs) (auto split: list.splits)

lemma is_sync_simps [simp]:
  "is_sync Cluster_hw_barrier" "is_sync (Comm_create n)" "\<not> is_sync Dma_wait_all" "\<not> is_sync (Sc_st_gemm g)"
  "\<not> is_sync (Dma_load_2d_tile a1 a2 a3 a4 a5 a6 a7 a8)" "\<not> is_sync (Dma_store_2d_tile a1 a2 a3 a4 a5 a6 a7 a8)"
  by (simp_all add: is_sync_def)

lemma parts_barrier:
  "\<forall>x\<in>set xs. \<not> is_sync x \<Longrightarrow> is_sync b \<Longrightarrow> parts (xs @ b # ys) = xs # parts ys"
  by (induction xs) auto

lemma cluster_runs_barrier:
  assumes "\<forall>x\<in>set xs. \<not> is_sync x" "\<forall>x\<in>set ys. \<not> is_sync x" "is_sync b" "is_sync b'"
  shows "cluster_runs (xs @ b # xs') (ys @ b' # ys') =
    {z @ zs |z zs. z \<in> shuffles xs ys \<and> zs \<in> cluster_runs xs' ys'}"
  by (simp add: cluster_runs_def parts_barrier assms)

lemma cluster_runs_Nil [simp]: "cluster_runs [] [] = {[]}"
  by (simp add: cluster_runs_def)

text \<open>An invariant of the iterations of two cores.\<close>

lemma cluster_runs_iterate:
  assumes "z \<in> cluster_runs (concat (map f [a..<b])) (concat (map g [a..<b]))" "I a s" "a \<le> b"
    and step: "\<And>i s z rest rest' zs. a \<le> i \<Longrightarrow> i < b \<Longrightarrow> I i s \<Longrightarrow>
      zs \<in> cluster_runs (f i @ rest) (g i @ rest') \<Longrightarrow>
      \<exists>z z'. zs = z @ z' \<and> z' \<in> cluster_runs rest rest' \<and> I (Suc i) (fold (tile_exec mac zero) z s)"
  shows "I b (fold (tile_exec mac zero) z s)"
proof -
  have "z \<in> cluster_runs (concat (map f [i..<b])) (concat (map g [i..<b])) \<Longrightarrow> I i s \<Longrightarrow> a \<le> i \<Longrightarrow> i \<le> b \<Longrightarrow>
      I b (fold (tile_exec mac zero) z s)" for i
  proof (induction "b - i" arbitrary: i s z)
    case 0
    then show ?case by simp
  next
    case (Suc k)
    then have i: "i < b" by simp
    have "z \<in> cluster_runs (f i @ concat (map f [Suc i..<b])) (g i @ concat (map g [Suc i..<b]))"
      using Suc.prems(1) i by (simp add: upt_conv_Cons)
    from step [OF Suc.prems(3) i Suc.prems(2) this] obtain z1 z2 where
      "z = z1 @ z2" "z2 \<in> cluster_runs (concat (map f [Suc i..<b])) (concat (map g [Suc i..<b]))"
      "I (Suc i) (fold (tile_exec mac zero) z1 s)" by blast
    with Suc.hyps(1) [of "Suc i" z2 "fold (tile_exec mac zero) z1 s"] Suc.hyps(2) Suc.prems(3) i show ?case by simp
  qed
  from this [OF assms(1,2) order_refl assms(3)] show ?thesis .
qed


section \<open>Layout of the buffers\<close>

text \<open>The next buffer after one of \<open>sz\<close> bytes.\<close>

lemma next_buffer_addr:
  assumes "unat p + unat sz + 8 \<le> 4294967296"
  shows "unat p + unat sz \<le> unat (snrt_align_up (p + sz) 8 0)" "unat (snrt_align_up (p + sz) 8 0) < unat p + unat sz + 8"
proof -
  have "unat (p + sz) = unat p + unat sz" using assms by (intro unat_add_exact) simp
  then show "unat p + unat sz \<le> unat (snrt_align_up (p + sz) 8 0)" "unat (snrt_align_up (p + sz) 8 0) < unat p + unat sz + 8"
    using align_up_range(1,2) [of 8 0 "p + sz"] assms by simp_all
qed

text \<open>
  The space after the allocator's pointer for both sets of buffers, with the padding.
\<close>

definition gemm_fits :: "snrt_cfg \<Rightarrow> snrt_allocator_t \<Rightarrow> u32 \<Rightarrow> u32 \<Rightarrow> u32 \<Rightarrow> bool" where
  "gemm_fits c l1 size_a size_b size_c \<longleftrightarrow>
     SNRT_TCDM_HYPERBANK_WIDTH c \<noteq> 0 \<and> SNRT_TCDM_START_ADDR c \<le> snrt_l1_next_v2 l1 \<and>
     unat (snrt_l1_next_v2 l1) + unat (SNRT_TCDM_HYPERBANK_WIDTH c) + 2 * (unat size_a + unat size_b + unat size_c) + 48 \<le> 2 ^ 32"

text \<open>The six buffers of the layout over all banks, with their sizes, in the order of their addresses.\<close>

definition buffer_list :: "gemm_addrs \<Rightarrow> u32 \<Rightarrow> u32 \<Rightarrow> u32 \<Rightarrow> (nat \<times> u32) list" where
  "buffer_list ad size_a size_b size_c =
     [(unat (a_addr ad 0), size_a), (unat (b_addr ad 0), size_b), (unat (c_addr ad 0), size_c),
      (unat (a_addr ad 1), size_a), (unat (b_addr ad 1), size_b), (unat (c_addr ad 1), size_c)]"

lemma buffer_addrs_ascending:
  assumes "gemm_fits c l1 size_a size_b size_c"
  shows "blocks_ascending unat (buffer_list (buffer_addrs c l1 size_a size_b size_c False bpb) size_a size_b size_c)"
    and "unat (snrt_l1_next_v2 l1) \<le> unat (a_addr (buffer_addrs c l1 size_a size_b size_c False bpb) 0)"
    and "unat (c_addr (buffer_addrs c l1 size_a size_b size_c False bpb) 1) + unat size_c
      \<le> unat (snrt_l1_next_v2 l1) + unat (SNRT_TCDM_HYPERBANK_WIDTH c) + 2 * (unat size_a + unat size_b + unat size_c) + 40"
proof -
  define n w where "n = snrt_l1_next_v2 l1" and "w = SNRT_TCDM_HYPERBANK_WIDTH c"
  define a0 where "a0 = snrt_align_up_hyperbank c n"
  define b0 where "b0 = snrt_align_up (a0 + size_a) 8 0"
  define c0 where "c0 = snrt_align_up (b0 + size_b) 8 0"
  define a1 where "a1 = snrt_align_up (c0 + size_c) 8 0"
  define b1 where "b1 = snrt_align_up (a1 + size_a) 8 0"
  define c1 where "c1 = snrt_align_up (b1 + size_b) 8 0"
  have f: "w \<noteq> 0" "unat (SNRT_TCDM_START_ADDR c) \<le> unat n" "unat n + unat w + 2 * (unat size_a + unat size_b + unat size_c) + 48 \<le> 4294967296"
    using assms by (simp_all add: gemm_fits_def n_def w_def word_le_nat_alt)
  have g: "unat n + unat w + 2 * unat size_a + 2 * unat size_b + 2 * unat size_c + 48 \<le> 4294967296"
    using f(3) by (simp add: distrib_left)
  have A0: "unat n \<le> unat a0" "unat a0 < unat n + unat w"
    using align_up_range(1,2) [OF f(1,2)] f(3) by (simp_all add: a0_def snrt_align_up_hyperbank_def w_def)
  have "unat a0 + unat size_a + 8 \<le> 4294967296" using g A0(2) by linarith
  note B0 = next_buffer_addr [OF this, folded b0_def]
  have "unat b0 + unat size_b + 8 \<le> 4294967296" using g A0(2) B0(2) by linarith
  note C0 = next_buffer_addr [OF this, folded c0_def]
  have "unat c0 + unat size_c + 8 \<le> 4294967296" using g A0(2) B0(2) C0(2) by linarith
  note A1 = next_buffer_addr [OF this, folded a1_def]
  have "unat a1 + unat size_a + 8 \<le> 4294967296" using g A0(2) B0(2) C0(2) A1(2) by linarith
  note B1 = next_buffer_addr [OF this, folded b1_def]
  have "unat b1 + unat size_b + 8 \<le> 4294967296" using g A0(2) B0(2) C0(2) A1(2) B1(2) by linarith
  note C1 = next_buffer_addr [OF this, folded c1_def]
  have ad: "buffer_addrs c l1 size_a size_b size_c False bpb =
      \<lparr>a_addr = (\<lambda>i. if i = 0 then a0 else a1), b_addr = (\<lambda>i. if i = 0 then b0 else b1), c_addr = (\<lambda>i. if i = 0 then c0 else c1)\<rparr>"
    unfolding buffer_addrs_def Let_def n_def [symmetric]
    by (simp only: if_False a0_def [symmetric] b0_def [symmetric] c0_def [symmetric] a1_def [symmetric] b1_def [symmetric] c1_def [symmetric])
  show "blocks_ascending unat (buffer_list (buffer_addrs c l1 size_a size_b size_c False bpb) size_a size_b size_c)"
    unfolding ad buffer_list_def blocks_ascending_def using B0(1) C0(1) A1(1) B1(1) C1(1) by simp
  show "unat (snrt_l1_next_v2 l1) \<le> unat (a_addr (buffer_addrs c l1 size_a size_b size_c False bpb) 0)"
    using A0 by (simp add: ad n_def)
  show "unat (c_addr (buffer_addrs c l1 size_a size_b size_c False bpb) 1) + unat size_c
      \<le> unat (snrt_l1_next_v2 l1) + unat (SNRT_TCDM_HYPERBANK_WIDTH c) + 2 * (unat size_a + unat size_b + unat size_c) + 40"
    using A0 B0 C0 A1 B1 C1 by (simp add: ad n_def [symmetric] w_def [symmetric])
qed


text \<open>
  The buffers of the layout over all banks. Where the sizes of the six buffers with their padding
  fit in the address space, \<open>allocate_buffers\<close> places them one after the other above the allocator's
  pointer, none overlapping the next.
\<close>

theorem gemm_buffers_disjoint:
  assumes "gemm_fits c l1 size_a size_b size_c" "\<not> g_partition_banks largs" "g_double_buffer largs"
    "g_load_a largs" "g_load_b largs" "g_load_c largs"
  shows "let bs = allocate_buffers c l1 size_a size_b size_c largs bpb old
    in blocks_ascending unat [(unat (la bs 0), size_a), (unat (lb bs 0), size_b), (unat (lc bs 0), size_c),
         (unat (la bs 1), size_a), (unat (lb bs 1), size_b), (unat (lc bs 1), size_c)] \<and>
       unat (snrt_l1_next_v2 l1) \<le> unat (la bs 0) \<and>
       unat (lc bs 1) + unat size_c \<le> unat (snrt_l1_next_v2 l1) + unat (SNRT_TCDM_HYPERBANK_WIDTH c) +
         2 * (unat size_a + unat size_b + unat size_c) + 40"
  using buffer_addrs_ascending [OF assms(1), of bpb] assms(2-6)
  by (simp add: allocate_buffers_def assign_buffer_def Let_def buffer_list_def)

text \<open>Arguments for two by two tiles over a reduction of two, in double precision.\<close>

definition sample_gemm :: gemm_args_t where
  "sample_gemm = \<lparr>g_m_tiles = 2, g_n_tiles = 2, g_k_tiles = 2, g_parallelize_m = False, g_parallelize_k = False,
     g_load_a = True, g_load_b = True, g_load_c = True, g_double_buffer = True, g_prec = 8, g_setup_ssr = True,
     g_partition_banks = False, g_transa = False, g_transb = False, g_m = 32, g_n = 32, g_k = 32,
     g_a = 0x80000000, g_lda = 32, g_b = 0x80010000, g_ldb = 32, g_beta = 0, g_c = 0x80020000, g_ldc = 32\<rparr>"

definition sample_l1 :: snrt_allocator_t where
  "sample_l1 = \<lparr>a_base = 0x10000000, a_end = 0x10020000, a_next = 0x10000000\<rparr>"

definition sample_bufs :: gemm_bufs where
  "sample_bufs = \<lparr>la = (\<lambda>_. 0), lb = (\<lambda>_. 0), lc = (\<lambda>_. 0), lcr = 0\<rparr>"

lemma sample_fits: "gemm_fits sample_cfg sample_l1 2048 2048 2048"
  by (simp add: gemm_fits_def sample_cfg_def sample_l1_def snrt_l1_next_v2_def
      SNRT_TCDM_HYPERBANK_WIDTH_def SNRT_TCDM_BANK_PER_HYPERBANK_NUM_def)

theorem gemm_buffers_disjoint_witness:
  "gemm_fits sample_cfg sample_l1 2048 2048 2048 \<and>
   blocks_ascending unat [(unat (la (allocate_buffers sample_cfg sample_l1 2048 2048 2048 sample_gemm 8 sample_bufs) 0), 2048 :: u32),
     (unat (lc (allocate_buffers sample_cfg sample_l1 2048 2048 2048 sample_gemm 8 sample_bufs) 1), 2048)]"
  using gemm_buffers_disjoint [OF sample_fits, of sample_gemm 8 sample_bufs] sample_fits
  by (simp add: Let_def blocks_ascending_def) (simp add: sample_gemm_def)


section \<open>The tiles of the clusters\<close>

text \<open>The indices along k of the tiles that the cluster of core \<open>h\<close> multiplies, and along m.\<close>

definition k_tile_set :: "snrt_cfg \<Rightarrow> hart \<Rightarrow> gemm_args_t \<Rightarrow> nat set" where
  "k_tile_set c h largs =
     (let d = gemm_distribute c h largs
      in (\<lambda>k. unat (ti_k_abs (tile_index c h largs d (of_nat k)))) ` {..<unat (cluster_k_tiles d)})"

lemma block_image: "(\<lambda>k. k + j * n) ` {..<n} = {j * n..<Suc j * n}" for n :: nat
proof (intro equalityI subsetI)
  fix x assume "x \<in> {j * n..<Suc j * n}"
  then show "x \<in> (\<lambda>k. k + j * n) ` {..<n}" by (intro image_eqI [of _ _ "x - j * n"]) auto
qed auto

lemma k_tile_set_block:
  assumes "cfg_wf c" "j < unat (SNRT_CLUSTER_NUM c)" "g_parallelize_k largs"
    "unat (g_k_tiles largs) + unat (SNRT_CLUSTER_NUM c) < 2 ^ 32"
    and q: "q = unat (g_k_tiles largs) div unat (SNRT_CLUSTER_NUM c)" and r: "r = unat (g_k_tiles largs) mod unat (SNRT_CLUSTER_NUM c)"
    and n: "n = (if j < r then q + 1 else q)"
  shows "k_tile_set c (hart_of c j 0) largs = {j * n..<Suc j * n}"
proof -
  define h d where "h = hart_of c j 0" and "d = gemm_distribute c h largs"
  have "0 < unat (SNRT_CLUSTER_CORE_NUM c)" using assms(1) by (auto simp: cfg_wf_def word_less_nat_alt)
  then have idx: "unat (snrt_cluster_idx c h) = j" using hart_of_idx(1) [OF assms(1,2), of 0] by (simp add: h_def)
  have P: "q * unat (SNRT_CLUSTER_NUM c) + r = unat (g_k_tiles largs)" by (simp add: q r)
  have ck: "unat (cluster_k_tiles d) = n"
  proof -
    have "q + 1 < 2 ^ 32"
    proof -
      have "q \<le> unat (g_k_tiles largs)" by (simp add: q)
      then show ?thesis using assms(2,4) by linarith
    qed
    then have "unat (g_k_tiles largs div snrt_cluster_num c + 1) = q + 1"
      by (subst unat_add_exact) (simp_all add: unat_div q snrt_cluster_num_def)
    then show ?thesis
      using assms(3) by (simp add: d_def gemm_distribute_def Let_def n word_less_nat_alt idx unat_div unat_mod q r snrt_cluster_num_def)
  qed
  have top: "Suc j * n \<le> 2 ^ 32"
  proof -
    have "Suc j * n \<le> unat (SNRT_CLUSTER_NUM c) * (q + 1)" using assms(2) by (intro mult_mono) (auto simp: n)
    also have "\<dots> \<le> unat (g_k_tiles largs) + unat (SNRT_CLUSTER_NUM c)" using P by (simp add: algebra_simps)
    finally show ?thesis using assms(4) by linarith
  qed
  have "unat (ti_k_abs (tile_index c h largs d (of_nat k))) = k + j * n" if "k < n" for k
  proof -
    have b: "k + j * n < 4294967296" using top that by simp
    have "k < 4294967296" "j * n < 4294967296" using b by linarith+
    then have u: "unat (of_nat k :: u32) = k" "unat (snrt_cluster_idx c h * cluster_k_tiles d) = j * n"
      by (simp_all add: unat_of_nat_exact unat_mult_exact idx ck)
    have "unat (of_nat k mod cluster_k_tiles d) = k" using that by (simp add: unat_mod u ck)
    then show ?thesis using b u assms(3) by (simp add: tile_index_def Let_def unat_add_exact)
  qed
  then have "k_tile_set c h largs = (\<lambda>k. k + j * n) ` {..<n}"
    unfolding k_tile_set_def Let_def d_def [symmetric] ck by (intro image_cong) auto
  then show ?thesis unfolding block_image h_def .
qed

text \<open>
  C36: The distribution of the tiles along k over the clusters. With \<open>parallelize_k\<close> the clusters multiply together all
  the tiles along k exactly when their number is a multiple of the number of clusters or smaller than it:
  otherwise the offset of the clusters that have no extra tile ignores the extra tiles of the others,
  and tiles at the end are never multiplied.
\<close>

theorem gemm_k_tiles_covered:
  assumes "cfg_wf c" "g_parallelize_k largs" "unat (g_k_tiles largs) + unat (SNRT_CLUSTER_NUM c) < 2 ^ 32"
  shows "(\<Union>j<unat (SNRT_CLUSTER_NUM c). k_tile_set c (hart_of c j 0) largs) = {..<unat (g_k_tiles largs)} \<longleftrightarrow>
    unat (g_k_tiles largs) mod unat (SNRT_CLUSTER_NUM c) = 0 \<or> unat (g_k_tiles largs) < unat (SNRT_CLUSTER_NUM c)"
proof -
  define P K q r where "P = unat (SNRT_CLUSTER_NUM c)" and "K = unat (g_k_tiles largs)" and "q = K div P" and "r = K mod P"
  have KP: "K = P * q + r" by (simp add: q_def r_def)
  have P0: "0 < P" using assms(1) by (auto simp: P_def cfg_wf_def word_less_nat_alt)
  have blk: "(\<Union>j<P. k_tile_set c (hart_of c j 0) largs) = (\<Union>j<P. {j * (if j < r then q + 1 else q)..<Suc j * (if j < r then q + 1 else q)})"
    unfolding P_def by (intro SUP_cong refl) (use k_tile_set_block [OF assms(1) _ assms(2,3) _ _ refl, of _ q r] in \<open>simp add: q_def r_def K_def P_def\<close>)
  have tile: "(\<Union>j<m. {j * n..<Suc j * n}) = {..<m * n}" for m n :: nat
  proof (induction m)
    case (Suc m)
    have "(\<Union>j<Suc m. {j * n..<Suc j * n}) = {..<m * n} \<union> {m * n..<Suc m * n}"
      using Suc by (simp add: lessThan_Suc Un_commute)
    also have "\<dots> = {..<Suc m * n}" by auto
    finally show ?case .
  qed simp
  have "(\<Union>j<P. k_tile_set c (hart_of c j 0) largs) = {..<K} \<longleftrightarrow> r = 0 \<or> q = 0"
  proof
    assume eq: "(\<Union>j<P. k_tile_set c (hart_of c j 0) largs) = {..<K}"
    show "r = 0 \<or> q = 0"
    proof (rule ccontr)
      assume n: "\<not> (r = 0 \<or> q = 0)"
      have rP: "r < P" using P0 by (simp add: r_def)
      have "K - 1 \<in> (\<Union>j<P. k_tile_set c (hart_of c j 0) largs)" using eq n KP by auto
      then obtain j where j: "j < P" "K - 1 < Suc j * (if j < r then q + 1 else q)" unfolding blk by auto
      show False
      proof (cases "j < r")
        case True
        have "Suc j * (q + 1) \<le> r * (q + 1)" using True by (intro mult_right_mono) simp_all
        also have "\<dots> = r * q + r" by simp
        also have "\<dots> \<le> (P - 1) * q + r" using rP by (intro add_right_mono mult_right_mono) simp_all
        also have "\<dots> = P * q - q + r" by (simp add: diff_mult_distrib)
        also have "\<dots> \<le> K - 1" using n KP P0 by (simp add: diff_le_mono2 Suc_le_eq)
        finally show False using j(2) True by simp
      next
        case False
        have "Suc j * q \<le> P * q" using j(1) by (intro mult_right_mono) simp_all
        also have "\<dots> \<le> K - 1" using n KP by linarith
        finally show False using j(2) False by simp
      qed
    qed
  next
    assume "r = 0 \<or> q = 0"
    then show "(\<Union>j<P. k_tile_set c (hart_of c j 0) largs) = {..<K}"
    proof
      assume "r = 0"
      then show ?thesis using tile [of q P] KP unfolding blk by simp
    next
      assume q0: "q = 0"
      have "(\<Union>j<P. {j * (if j < r then q + 1 else q)..<Suc j * (if j < r then q + 1 else q)}) = {..<r}"
      proof (intro equalityI subsetI)
        fix x assume "x \<in> {..<r}"
        then show "x \<in> (\<Union>j<P. {j * (if j < r then q + 1 else q)..<Suc j * (if j < r then q + 1 else q)})"
          using mod_less_divisor [OF P0, of K, folded r_def] q0 by (intro UN_I [of x]) simp_all
      qed (auto simp: q0 split: if_splits)
      then show ?thesis using KP q0 unfolding blk by simp
    qed
  qed
  moreover have "q = 0 \<longleftrightarrow> K < P" using P0 by (simp add: q_def div_eq_0_iff)
  ultimately show ?thesis by (simp add: P_def K_def r_def)
qed

theorem gemm_k_tiles_covered_witness:
  "(\<Union>j<unat (SNRT_CLUSTER_NUM sample_cfg). k_tile_set sample_cfg (hart_of sample_cfg j 0) (sample_gemm\<lparr>g_parallelize_k := True, g_k_tiles := 3\<rparr>)) \<noteq> {..<3} \<and>
   (\<Union>j<unat (SNRT_CLUSTER_NUM sample_cfg). k_tile_set sample_cfg (hart_of sample_cfg j 0) (sample_gemm\<lparr>g_parallelize_k := True, g_k_tiles := 4\<rparr>)) = {..<4}"
  using gemm_k_tiles_covered [OF cfg_wf_sample, of "sample_gemm\<lparr>g_parallelize_k := True, g_k_tiles := 3\<rparr>"]
    gemm_k_tiles_covered [OF cfg_wf_sample, of "sample_gemm\<lparr>g_parallelize_k := True, g_k_tiles := 4\<rparr>"]
  by (simp add: sample_cfg_def)


text \<open>
  The buffers are not reserved in the allocator, so that the structure of the communicator created after
  them is placed over the first buffer of \<open>A\<close> when the allocator's pointer is aligned to a row of a hyperbank.
\<close>

lemma gemm_comm_over_buffer:
  assumes "gemm_fits c l1 size_a size_b size_c"
    "(unat (snrt_l1_next_v2 l1) - unat (SNRT_TCDM_START_ADDR c)) mod unat (SNRT_TCDM_HYPERBANK_WIDTH c) = 0"
    "snrt_l1_alloc_cluster_local 12 1 l1 = Inr (communicator, l1')"
  shows "communicator = a_addr (buffer_addrs c l1 size_a size_b size_c pb bpb) 0"
proof -
  define n w b where "n = snrt_l1_next_v2 l1" and "w = SNRT_TCDM_HYPERBANK_WIDTH c" and "b = SNRT_TCDM_START_ADDR c"
  have f: "w \<noteq> 0" "unat b \<le> unat n" "unat n + unat w \<le> 2 ^ 32"
    using assms(1) by (simp_all add: gemm_fits_def n_def w_def b_def word_le_nat_alt)
  have w: "0 < unat w" using f(1) by (simp add: unat_gt_0)
  have "(unat n - unat b + unat w - 1) div unat w * unat w = unat n - unat b"
  proof -
    obtain k where k: "unat n - unat b = k * unat w" using assms(2) by (auto simp: n_def w_def b_def mod_eq_0_iff_dvd dvd_def mult.commute)
    have "k * unat w + unat w - 1 = (unat w - 1) + k * unat w" using w by simp
    then have "(k * unat w + unat w - 1) div unat w = k" using w by (simp only: div_mult_self1) simp
    then show ?thesis by (simp add: k)
  qed
  then have "unat (snrt_align_up_hyperbank c n) = unat n"
    using unat_align_up [OF f] f(2) by (simp add: snrt_align_up_hyperbank_def w_def b_def)
  then have 1: "snrt_align_up_hyperbank c n = n" by (rule unsigned_word_eqI)
  have 2: "snrt_align_up n 1 0 = n" by (simp add: snrt_align_up_def)
  have "communicator = n"
    using assms(3) 2 by (simp add: snrt_l1_alloc_cluster_local_def Let_def snrt_l1_next_v2_def n_def split: sum.splits)
  then show ?thesis using 1 by (simp add: buffer_addrs_def Let_def n_def [symmetric] split: prod.splits)
qed

end
