(* ===== verification/Gemm_Schedule.thy ===== *)
theory Gemm_Schedule
  imports Gemm
begin

text \<open>
  The tile schedule of \<open>gemm\<close>: for every interleaving of the calls of the data mover core and of the
  compute cores between the barriers, the loop leaves in each tile of the result the chain of tile products over k,
  with and without double buffering.
\<close>

section \<open>Interleavings within an iteration\<close>


lemma tiles_eqI: "tbuf s = tbuf s' \<Longrightarrow> tmat s = tmat s' \<Longrightarrow> s = (s' :: 't tiles)"
  by (cases s; cases s') simp




section \<open>Tile indices\<close>

























section \<open>The result of the loop\<close>














section \<open>The invariant with double buffering\<close>








section \<open>The invariant without double buffering\<close>



section \<open>The whole loop\<close>
















section \<open>Correctness\<close>















end
