(* ===== verification/Gemm_Fp64.thy ===== *)
theory Gemm_Fp64
  imports Gemm
begin

text \<open>
  The double-precision tile kernels of \<open>sw/kernels/blas/gemm/src/gemm_fp64.h\<close> on the memory of a cluster, and the
  distribution of the rows of a tile over its compute cores (\<open>sc_st_gemm\<close>). The theorems state the element
  of the result that the cores leave, as a function of the initial memory and of the operations of the
  floating-point unit.
\<close>

section \<open>The plain kernel\<close>

text \<open>\<open>multiply_opt\<close> of \<open>blas.h\<close>: a product unless the factor is a zero of either sign.\<close>

definition multiply_opt :: "fpu \<Rightarrow> u64 \<Rightarrow> u64 \<Rightarrow> u64" where
  "multiply_opt f multiplicand multiplier =
     (if push_bit 1 multiplier \<noteq> 0 then fmul f multiplicand multiplier else 0)"

definition elems_per_line :: "snrt_cfg \<Rightarrow> u32" where
  "elems_per_line c = (snrt_cluster_compute_core_num c * SNRT_TCDM_BANK_WIDTH c) div 8"

text \<open>Element \<open>x\<close> of a row that is laid out over the banks of one buffer.\<close>

definition bank_col :: "snrt_cfg \<Rightarrow> u32 \<Rightarrow> u32" where
  "bank_col c x =
     (x div elems_per_line c) * (SNRT_TCDM_HYPERBANK_WIDTH c div 8) + x mod elems_per_line c"

definition naive_c_idx :: "snrt_cfg \<Rightarrow> gemm_fp_args \<Rightarrow> u32 \<Rightarrow> u32 \<Rightarrow> u32" where
  "naive_c_idx c g m n =
     (if \<not> k_transa g \<and> \<not> k_transb g \<and> k_partition_banks g then m * k_ldc g + bank_col c n else m * k_ldc g + n)"

definition naive_a_idx :: "snrt_cfg \<Rightarrow> gemm_fp_args \<Rightarrow> u32 \<Rightarrow> u32 \<Rightarrow> u32" where
  "naive_a_idx c g m k =
     (if k_transa g then k * k_M g * k_lda g + m * k_lda g
      else if \<not> k_transb g \<and> k_partition_banks g then m * k_lda g + bank_col c k else m * k_lda g + k)"

definition naive_b_idx :: "snrt_cfg \<Rightarrow> gemm_fp_args \<Rightarrow> u32 \<Rightarrow> u32 \<Rightarrow> u32" where
  "naive_b_idx c g k n =
     (if k_transb g then n * k_ldb g + k
      else if \<not> k_transa g \<and> k_partition_banks g then k * k_ldb g + bank_col c n else k * k_ldb g + n)"

text \<open>The value of an element and the loops over the rows and columns; \<open>cv\<close> converts \<open>beta\<close> to a double.\<close>

definition naive_elem :: "fpu \<Rightarrow> (u32 \<Rightarrow> u64) \<Rightarrow> snrt_cfg \<Rightarrow> gemm_fp_args \<Rightarrow> u32 \<Rightarrow> u32 \<Rightarrow> mem \<Rightarrow> u64" where
  "naive_elem f cv c g m n mem =
     fold (\<lambda>k c0. fadd f c0 (fmul f (rd_d mem (k_A g) (naive_a_idx c g m (of_nat k))) (rd_d mem (k_B g) (naive_b_idx c g (of_nat k) n))))
       [0..<unat (k_K g)] (multiply_opt f (rd_d mem (k_C g) (naive_c_idx c g m n)) (cv (k_beta g)))"

definition gemm_fp64_naive :: "fpu \<Rightarrow> (u32 \<Rightarrow> u64) \<Rightarrow> snrt_cfg \<Rightarrow> gemm_fp_args \<Rightarrow> mem \<Rightarrow> mem" where
  "gemm_fp64_naive f cv c g mem =
     fold (\<lambda>m. fold (\<lambda>n mem. wr_d mem (k_C g) (naive_c_idx c g (of_nat m) (of_nat n))
         (naive_elem f cv c g (of_nat m) (of_nat n) mem)) [0..<unat (k_N g)])
       [0..<unat (k_M g)] mem"

section \<open>A tile on the cores of a cluster\<close>

text \<open>The compute cores one after the other in the order given, each with its stream registers.\<close>

fun sc_st_cluster ::
  "snrt_cfg \<Rightarrow> (gemm_fp_args \<Rightarrow> mem \<times> ssr_core \<Rightarrow> (mem \<times> ssr_core) option) \<Rightarrow> sc_st_gemm_args_t \<Rightarrow>
   (hart \<Rightarrow> ssr_core) \<Rightarrow> hart list \<Rightarrow> mem \<Rightarrow> mem option" where
  "sc_st_cluster c krn t sts [] mem = Some mem"
| "sc_st_cluster c krn t sts (h # hs) mem = do {
     (mem, st) \<leftarrow> sc_st_gemm c h krn t (mem, sts h);
     sc_st_cluster c krn t sts hs mem }"

text \<open>The addresses of the elements of the operands and the result of a tile.\<close>

definition tile_col :: "snrt_cfg \<Rightarrow> sc_st_gemm_args_t \<Rightarrow> nat \<Rightarrow> u32" where
  "tile_col c t x = (if \<not> t_transb t \<and> t_partition_banks t then bank_col c (of_nat x) else of_nat x)"

definition tile_a_at :: "snrt_cfg \<Rightarrow> sc_st_gemm_args_t \<Rightarrow> nat \<Rightarrow> nat \<Rightarrow> u32" where
  "tile_a_at c t i k = t_a t + 8 * (of_nat i * t_lda t + tile_col c t k)"

definition tile_b_at :: "snrt_cfg \<Rightarrow> sc_st_gemm_args_t \<Rightarrow> nat \<Rightarrow> nat \<Rightarrow> u32" where
  "tile_b_at c t k j =
     t_b t + 8 * (if t_transb t then of_nat j * t_ldb t + of_nat k else of_nat k * t_ldb t + tile_col c t j)"

definition tile_c_at :: "snrt_cfg \<Rightarrow> sc_st_gemm_args_t \<Rightarrow> nat \<times> nat \<Rightarrow> u32" where
  "tile_c_at c t = (\<lambda>(i, j). t_c t + 8 * (of_nat i * t_ldc t + tile_col c t j))"

text \<open>The element \<open>(i, j)\<close> of the result of the plain kernel.\<close>

definition tile_elem :: "fpu \<Rightarrow> (u32 \<Rightarrow> u64) \<Rightarrow> snrt_cfg \<Rightarrow> sc_st_gemm_args_t \<Rightarrow> nat \<times> nat \<Rightarrow> mem \<Rightarrow> u64" where
  "tile_elem f cv c t = (\<lambda>(i, j) mem.
     fold (\<lambda>k c0. fadd f c0 (fmul f (ld64 mem (ucast (tile_a_at c t i k))) (ld64 mem (ucast (tile_b_at c t k j)))))
       [0..<unat (t_k t)] (multiply_opt f (ld64 mem (ucast (tile_c_at c t (i, j)))) (cv (t_beta t))))"

text \<open>The result lies in distinct places that are not among the operands.\<close>

definition tile_apart :: "snrt_cfg \<Rightarrow> sc_st_gemm_args_t \<Rightarrow> bool" where
  "tile_apart c t \<longleftrightarrow>
     (let I = {..<unat (t_m t)} \<times> {..<unat (t_n t)}
      in inj_on (tile_c_at c t) I \<and>
         (\<forall>p\<in>I. \<forall>i<unat (t_m t). \<forall>k<unat (t_k t). \<forall>j<unat (t_n t).
            tile_c_at c t p \<noteq> tile_a_at c t i k \<and> tile_c_at c t p \<noteq> tile_b_at c t k j))"

section \<open>The rows of a core\<close>

lemma stride_list_count:
  fixes n :: nat
  assumes "i < P"
  shows "(n - i + P - 1) div P = (if i < n mod P then n div P + 1 else n div P)"
proof -
  have n: "n = (n div P) * P + n mod P" by (rule div_mult_mod_eq [symmetric])
  have r: "n mod P < P" using assms by simp
  show ?thesis
  proof (cases "i < n mod P")
    case True
    then have "n - i + P - 1 = (n mod P - i - 1) + (n div P * P + P)" using n assms by linarith
    then have "n - i + P - 1 = (n mod P - i - 1) + (n div P + 1) * P" by simp
    moreover have "n mod P - i - 1 < P" using r by simp
    ultimately show ?thesis using True assms by (simp only: div_mult_self1) simp
  next
    case False
    show ?thesis
    proof (cases "i \<le> n")
      case True
      then have "n - i + P - 1 = (n mod P + P - 1 - i) + (n div P) * P" using n assms False by linarith
      moreover have "n mod P + P - 1 - i < P" using False assms by linarith
      ultimately show ?thesis using False assms by (simp only: div_mult_self1) simp
    next
      case False
      then show ?thesis using assms by simp
    qed
  qed
qed


text \<open>What the kernel of core \<open>h\<close> is called with, and the elements it is to compute.\<close>

definition core_args :: "snrt_cfg \<Rightarrow> hart \<Rightarrow> sc_st_gemm_args_t \<Rightarrow> gemm_fp_args" where
  "core_args c h t =
     (let P = snrt_cluster_compute_core_num c; i = snrt_cluster_core_idx c h
      in \<lparr>k_setup_ssr = t_setup_ssr t, k_partition_banks = t_partition_banks t, k_transa = t_transa t,
          k_transb = t_transb t, k_M = of_nat (length (stride_list (unat i) (unat P) (unat (t_m t)))), k_N = t_n t,
          k_K = t_k t, k_A = t_a t + i * t_lda t * t_prec t, k_lda = P * t_lda t, k_B = t_b t, k_ldb = t_ldb t,
          k_beta = t_beta t, k_C = t_c t + i * t_ldc t * t_prec t, k_ldc = P * t_ldc t\<rparr>)"

definition core_rows :: "snrt_cfg \<Rightarrow> hart \<Rightarrow> sc_st_gemm_args_t \<Rightarrow> nat list" where
  "core_rows c h t = stride_list (unat (snrt_cluster_core_idx c h)) (unat (snrt_cluster_compute_core_num c)) (unat (t_m t))"

definition core_elems :: "snrt_cfg \<Rightarrow> hart \<Rightarrow> sc_st_gemm_args_t \<Rightarrow> (nat \<times> nat) list" where
  "core_elems c h t = concat (map (\<lambda>i. map (Pair i) [0..<unat (t_n t)]) (core_rows c h t))"

lemma is_compute_idx: "snrt_is_compute_core c h \<longleftrightarrow> unat (snrt_cluster_core_idx c h) < unat (snrt_cluster_compute_core_num c)"
  by (simp add: snrt_is_compute_core_def word_less_nat_alt)

lemma sc_st_gemm_core:
  assumes "snrt_is_compute_core c h"
  shows "sc_st_gemm c h krn t s = (if core_rows c h t = [] then Some s else krn (core_args c h t) s)"
    and "unat (k_M (core_args c h t)) = length (core_rows c h t)"
proof -
  define P i M where "P = unat (snrt_cluster_compute_core_num c)" and "i = unat (snrt_cluster_core_idx c h)" and "M = unat (t_m t)"
  have iP: "i < P" using assms by (simp add: is_compute_idx P_def i_def)
  have len: "length (core_rows c h t) = (if i < M mod P then M div P + 1 else M div P)"
    using stride_list_count [OF iP, of M] by (simp add: core_rows_def stride_list_def P_def i_def M_def)
  have "length (core_rows c h t) \<le> M"
  proof -
    have "M div P * 1 \<le> M div P * P" using iP by (intro mult_left_mono) simp_all
    then show ?thesis unfolding len using div_mult_mod_eq [of M P] by (cases "i < M mod P"; simp only: if_True if_False; linarith)
  qed
  then have lt: "length (core_rows c h t) < 4294967296" using unat_u32_bound [of "t_m t"] unfolding M_def by linarith
  then show m: "unat (k_M (core_args c h t)) = length (core_rows c h t)"
    by (simp add: core_args_def Let_def core_rows_def [symmetric] unat_of_nat_exact)
  define frac where "frac = (if snrt_cluster_core_idx c h < t_m t mod snrt_cluster_compute_core_num c
      then t_m t div snrt_cluster_compute_core_num c + 1 else t_m t div snrt_cluster_compute_core_num c)"
  have "unat frac = length (core_rows c h t)"
  proof -
    have "M div P + 1 < 4294967296" if "i < M mod P" using that lt len by simp
    then show ?thesis
      unfolding len by (auto simp: frac_def word_less_nat_alt unat_mod unat_div P_def i_def M_def unat_add_exact)
  qed
  then have "unat frac = unat (k_M (core_args c h t))" using m by simp
  then have "frac = k_M (core_args c h t)" by (rule unsigned_word_eqI)
  moreover have "frac > 0 \<longleftrightarrow> core_rows c h t \<noteq> []" using \<open>unat frac = length (core_rows c h t)\<close> by (simp add: word_less_nat_alt)
  ultimately show "sc_st_gemm c h krn t s = (if core_rows c h t = [] then Some s else krn (core_args c h t) s)"
    using assms by (simp add: sc_st_gemm_def Let_def core_args_def frac_def [symmetric])
qed

lemma core_addrs:
  assumes "\<not> t_transa t" "t_prec t = 8" and i: "i = unat (snrt_cluster_core_idx c h) + r * unat (snrt_cluster_compute_core_num c)"
  defines "g \<equiv> core_args c h t"
  shows "k_C g + 8 * naive_c_idx c g (of_nat r) (of_nat j) = tile_c_at c t (i, j)"
    and "k_A g + 8 * naive_a_idx c g (of_nat r) (of_nat k) = tile_a_at c t i k"
    and "k_B g + 8 * naive_b_idx c g (of_nat k) (of_nat j) = tile_b_at c t k j"
proof -
  have "(of_nat i :: u32) = snrt_cluster_core_idx c h + of_nat r * snrt_cluster_compute_core_num c" by (simp add: i)
  then show "k_C g + 8 * naive_c_idx c g (of_nat r) (of_nat j) = tile_c_at c t (i, j)"
    "k_A g + 8 * naive_a_idx c g (of_nat r) (of_nat k) = tile_a_at c t i k"
    "k_B g + 8 * naive_b_idx c g (of_nat k) (of_nat j) = tile_b_at c t k j"
    using assms(1,2)
    by (simp_all add: g_def core_args_def Let_def naive_c_idx_def naive_a_idx_def naive_b_idx_def tile_c_at_def tile_a_at_def
        tile_b_at_def tile_col_def algebra_simps)
qed

lemma fold_concat_rows: "fold (\<lambda>i. fold (\<lambda>j. F (i, j)) ys) xs m = fold F (concat (map (\<lambda>i. map (Pair i) ys) xs)) m"
  by (induction xs arbitrary: m) (simp_all add: fold_map comp_def)

definition naive_krn :: "fpu \<Rightarrow> (u32 \<Rightarrow> u64) \<Rightarrow> snrt_cfg \<Rightarrow> gemm_fp_args \<Rightarrow> mem \<times> ssr_core \<Rightarrow> (mem \<times> ssr_core) option" where
  "naive_krn f cv c g = (\<lambda>(mem, st). Some (gemm_fp64_naive f cv c g mem, st))"

lemma naive_core:
  assumes "snrt_is_compute_core c h" "\<not> t_transa t" "t_prec t = 8"
  shows "sc_st_gemm c h (naive_krn f cv c) t (mem, st) =
    Some (fold (\<lambda>p mem. st64 mem (ucast (tile_c_at c t p)) (tile_elem f cv c t p mem)) (core_elems c h t) mem, st)"
proof -
  define g where "g = core_args c h t"
  define idx P where "idx = unat (snrt_cluster_core_idx c h)" and "P = unat (snrt_cluster_compute_core_num c)"
  define F where "F = (\<lambda>p mem. st64 mem (ucast (tile_c_at c t p)) (tile_elem f cv c t p mem))"
  have N: "k_N g = t_n t" "k_K g = t_k t" "k_beta g = t_beta t" by (simp_all add: g_def core_args_def Let_def)
  have el: "wr_d mem (k_C g) (naive_c_idx c g (of_nat r) (of_nat j)) (naive_elem f cv c g (of_nat r) (of_nat j) mem) =
      F (idx + r * P, j) mem" for r j mem
    using core_addrs [OF assms(2,3), of "idx + r * P" c h r, folded g_def]
    by (simp add: wr_d_def F_def naive_elem_def tile_elem_def rd_d_def N idx_def P_def)
  have rows: "core_rows c h t = map (\<lambda>r. idx + r * P) [0..<unat (k_M g)]"
    using sc_st_gemm_core(2) [OF assms(1), of t] by (simp add: g_def core_rows_def stride_list_def idx_def P_def)
  have "gemm_fp64_naive f cv c g mem = fold (\<lambda>r. fold (\<lambda>j. F (idx + r * P, j)) [0..<unat (t_n t)]) [0..<unat (k_M g)] mem"
    unfolding gemm_fp64_naive_def el N ..
  also have "\<dots> = fold (\<lambda>i. fold (\<lambda>j. F (i, j)) [0..<unat (t_n t)]) (core_rows c h t) mem"
    unfolding rows fold_map comp_def ..
  also have "\<dots> = fold F (core_elems c h t) mem"
    unfolding fold_concat_rows core_elems_def ..
  finally have run: "gemm_fp64_naive f cv c g mem = fold F (core_elems c h t) mem" .
  have "core_rows c h t = [] \<Longrightarrow> core_elems c h t = []" by (simp add: core_elems_def)
  then show ?thesis
    using run by (simp add: sc_st_gemm_core(1) [OF assms(1)] naive_krn_def g_def [symmetric] F_def [symmetric])
qed


section \<open>The tile\<close>

text \<open>The elements of all cores, in the order in which the cores compute them.\<close>

definition tile_order :: "snrt_cfg \<Rightarrow> hart list \<Rightarrow> sc_st_gemm_args_t \<Rightarrow> (nat \<times> nat) list" where
  "tile_order c hs t = concat (map (\<lambda>h. core_elems c h t) hs)"

definition compute_team :: "snrt_cfg \<Rightarrow> hart list \<Rightarrow> bool" where
  "compute_team c hs \<longleftrightarrow> snrt_cluster_compute_core_num c \<noteq> 0 \<and>
     mset (map (\<lambda>h. unat (snrt_cluster_core_idx c h)) hs) = mset [0..<unat (snrt_cluster_compute_core_num c)]"

lemma compute_teamD:
  assumes "compute_team c hs"
  shows "h \<in> set hs \<Longrightarrow> snrt_is_compute_core c h" "distinct (map (\<lambda>h. unat (snrt_cluster_core_idx c h)) hs)"
    "set (map (\<lambda>h. unat (snrt_cluster_core_idx c h)) hs) = {..<unat (snrt_cluster_compute_core_num c)}"
    "0 < unat (snrt_cluster_compute_core_num c)"
proof -
  let ?k = "map (\<lambda>h. unat (snrt_cluster_core_idx c h)) hs" and ?P = "unat (snrt_cluster_compute_core_num c)"
  have m: "mset ?k = mset [0..<?P]" using assms by (simp add: compute_team_def)
  show "distinct ?k" unfolding mset_eq_imp_distinct_iff [OF m] by simp
  show s: "set ?k = {..<?P}" unfolding mset_eq_setD [OF m] by auto
  show "0 < ?P" using assms by (simp add: compute_team_def unat_gt_0)
  assume "h \<in> set hs"
  then have "unat (snrt_cluster_core_idx c h) \<in> set ?k" by simp
  then show "snrt_is_compute_core c h" unfolding s by (simp add: is_compute_idx)
qed

lemma set_concat_rows: "set (concat (map (\<lambda>i. map (Pair i) [0..<n]) xs)) = set xs \<times> {..<n}"
  by (auto simp: image_iff)

lemma distinct_concat_rows: "distinct xs \<Longrightarrow> distinct ys \<Longrightarrow> distinct (concat (map (\<lambda>i. map (Pair i) ys) xs))"
  by (induction xs) (auto simp: distinct_map inj_on_def)

lemma tile_order_elems:
  assumes "compute_team c hs"
  shows "distinct (tile_order c hs t)" "set (tile_order c hs t) = {..<unat (t_m t)} \<times> {..<unat (t_n t)}"
proof -
  note d = compute_teamD [OF assms]
  define ks where "ks = map (\<lambda>h. unat (snrt_cluster_core_idx c h)) hs"
  define P where "P = unat (snrt_cluster_compute_core_num c)"
  define rows where "rows = concat (map (\<lambda>k. stride_list k P (unat (t_m t))) ks)"
  have o: "tile_order c hs t = concat (map (\<lambda>i. map (Pair i) [0..<unat (t_n t)]) rows)"
    unfolding rows_def ks_def tile_order_def
    by (induction hs) (simp_all add: core_elems_def core_rows_def P_def)
  have ks: "distinct ks" "set ks = {..<P}" "0 < P" using d(2-4) unfolding ks_def P_def .
  have r: "distinct rows" unfolding rows_def by (rule distinct_strides) (use ks in auto)
  have s: "set rows = {..<unat (t_m t)}" unfolding rows_def by (rule set_strides [OF ks(2,3)])
  show "set (tile_order c hs t) = {..<unat (t_m t)} \<times> {..<unat (t_n t)}" unfolding o set_concat_rows s ..
  show "distinct (tile_order c hs t)" unfolding o by (rule distinct_concat_rows [OF r distinct_upt])
qed

lemma sc_st_cluster_fold:
  assumes "\<And>h mem. h \<in> set hs \<Longrightarrow> \<exists>st'. sc_st_gemm c h krn t (mem, sts h) = Some (fold F (core_elems c h t) mem, st')"
  shows "sc_st_cluster c krn t sts hs mem = Some (fold F (tile_order c hs t) mem)"
  using assms
proof (induction hs arbitrary: mem)
  case (Cons h hs)
  from Cons.prems obtain st' where "sc_st_gemm c h krn t (mem, sts h) = Some (fold F (core_elems c h t) mem, st')" by fastforce
  with Cons show ?case by (simp add: tile_order_def)
qed (simp add: tile_order_def)

text \<open>The value of an element does not depend on the other elements of the result.\<close>

lemma tile_addr_ok [simp]:
  "dptr (t_a t) \<Longrightarrow> dptr (tile_a_at c t i k)" "dptr (t_b t) \<Longrightarrow> dptr (tile_b_at c t k j)" "dptr (t_c t) \<Longrightarrow> dptr (tile_c_at c t p)"
  unfolding tile_a_at_def tile_b_at_def tile_c_at_def by (simp_all only: dptr_add split: prod.splits) simp

lemma tile_frame:
  assumes "tile_apart c t" "dptr (t_a t)" "dptr (t_b t)" "dptr (t_c t)"
    "p \<in> {..<unat (t_m t)} \<times> {..<unat (t_n t)}" "i < unat (t_m t)" "j < unat (t_n t)" "p \<noteq> (i, j)"
  shows "k < unat (t_k t) \<Longrightarrow> ld64 (st64 mem (ucast (tile_c_at c t p)) v) (ucast (tile_a_at c t i k)) = ld64 mem (ucast (tile_a_at c t i k))"
    "k < unat (t_k t) \<Longrightarrow> ld64 (st64 mem (ucast (tile_c_at c t p)) v) (ucast (tile_b_at c t k j)) = ld64 mem (ucast (tile_b_at c t k j))"
    "ld64 (st64 mem (ucast (tile_c_at c t p)) v) (ucast (tile_c_at c t (i, j))) = ld64 mem (ucast (tile_c_at c t (i, j)))"
proof -
  have inj: "inj_on (tile_c_at c t) ({..<unat (t_m t)} \<times> {..<unat (t_n t)})"
    and ap: "\<And>k. k < unat (t_k t) \<Longrightarrow> tile_c_at c t p \<noteq> tile_a_at c t i k \<and> tile_c_at c t p \<noteq> tile_b_at c t k j"
    using assms(1,5-7) unfolding tile_apart_def Let_def by blast+
  have "tile_c_at c t p \<noteq> tile_c_at c t (i, j)" using inj_onD [OF inj _ assms(5)] assms(6-8) by auto
  then show "ld64 (st64 mem (ucast (tile_c_at c t p)) v) (ucast (tile_c_at c t (i, j))) = ld64 mem (ucast (tile_c_at c t (i, j)))"
    by (intro dstore.rd_wr_other) (simp_all add: assms(4))
  assume k: "k < unat (t_k t)"
  show "ld64 (st64 mem (ucast (tile_c_at c t p)) v) (ucast (tile_a_at c t i k)) = ld64 mem (ucast (tile_a_at c t i k))"
    "ld64 (st64 mem (ucast (tile_c_at c t p)) v) (ucast (tile_b_at c t k j)) = ld64 mem (ucast (tile_b_at c t k j))"
    using ap [OF k] by (intro dstore.rd_wr_other; simp add: assms(2-4))+
qed

lemma tile_elem_frame:
  assumes "tile_apart c t" "dptr (t_a t)" "dptr (t_b t)" "dptr (t_c t)"
    "p \<in> {..<unat (t_m t)} \<times> {..<unat (t_n t)}" "q \<in> {..<unat (t_m t)} \<times> {..<unat (t_n t)}" "p \<noteq> q"
  shows "tile_elem f cv c t q (st64 mem (ucast (tile_c_at c t p)) v) = tile_elem f cv c t q mem"
proof -
  obtain i j where q: "q = (i, j)" "i < unat (t_m t)" "j < unat (t_n t)" using assms(6) by auto
  note fr = tile_frame [OF assms(1-5) q(2,3) assms(7) [unfolded q(1)]]
  show ?thesis unfolding tile_elem_def q(1) prod.case fr(3)
    by (rule fold_cong) (simp_all add: fr(1,2))
qed

text \<open>Dense matrices at disjoint intervals of addresses are apart.\<close>

lemma matrix_addr:
  assumes "r < R" "x < unat l" "unat p + 8 * (R * unat l) \<le> 2 ^ 32"
  shows "unat (p + 8 * (of_nat r * l + of_nat x) :: u32) = unat p + 8 * (r * unat l + x)"
    and "unat p \<le> unat p + 8 * (r * unat l + x)" "unat p + 8 * (r * unat l + x) < unat p + 8 * (R * unat l)"
proof -
  have "r * unat l + x < Suc r * unat l" using assms(2) by simp
  also have "\<dots> \<le> R * unat l" using assms(1) by (intro mult_right_mono) simp_all
  finally have lt: "r * unat l + x < R * unat l" .
  then show "unat p \<le> unat p + 8 * (r * unat l + x)" "unat p + 8 * (r * unat l + x) < unat p + 8 * (R * unat l)" by simp_all
  have b: "unat p + 8 * (r * unat l + x) < 2 ^ LENGTH(32)" using lt assms(3) by simp
  have e: "p + 8 * (of_nat r * l + of_nat x) = p + of_nat (8 * (r * unat l + x))" by simp
  have "unat (of_nat (8 * (r * unat l + x)) :: u32) = 8 * (r * unat l + x)" using b by (intro unat_of_nat_exact) linarith
  then show "unat (p + 8 * (of_nat r * l + of_nat x) :: u32) = unat p + 8 * (r * unat l + x)"
    unfolding e using b by (subst unat_add_exact) (simp_all only: refl)
qed

definition tile_ranges :: "sc_st_gemm_args_t \<Rightarrow> bool" where
  "tile_ranges t \<longleftrightarrow>
     (let a = unat (t_a t); a' = a + 8 * (unat (t_m t) * unat (t_lda t));
          b = unat (t_b t); b' = b + 8 * (unat (if t_transb t then t_n t else t_k t) * unat (t_ldb t));
          cc = unat (t_c t); c' = cc + 8 * (unat (t_m t) * unat (t_ldc t))
      in \<not> t_partition_banks t \<and> t_n t \<le> t_ldc t \<and> t_k t \<le> t_lda t \<and> (if t_transb t then t_k t else t_n t) \<le> t_ldb t \<and>
         a' \<le> 2 ^ 32 \<and> b' \<le> 2 ^ 32 \<and> c' \<le> 2 ^ 32 \<and> (a' \<le> cc \<or> c' \<le> a) \<and> (b' \<le> cc \<or> c' \<le> b))"

lemma tile_ranges_apart:
  assumes "tile_ranges t"
  shows "tile_apart c t"
proof -
  define m n k where "m = unat (t_m t)" and "n = unat (t_n t)" and "k = unat (t_k t)"
  define La Lb Lc where "La = unat (t_lda t)" and "Lb = unat (t_ldb t)" and "Lc = unat (t_ldc t)"
  define a b cc where "a = unat (t_a t)" and "b = unat (t_b t)" and "cc = unat (t_c t)"
  define R where "R = (if t_transb t then n else k)"
  have r: "\<not> t_partition_banks t" "n \<le> Lc" "k \<le> La" "(if t_transb t then k else n) \<le> Lb"
    "a + 8 * (m * La) \<le> 2 ^ 32" "b + 8 * (R * Lb) \<le> 2 ^ 32" "cc + 8 * (m * Lc) \<le> 2 ^ 32"
    "a + 8 * (m * La) \<le> cc \<or> cc + 8 * (m * Lc) \<le> a" "b + 8 * (R * Lb) \<le> cc \<or> cc + 8 * (m * Lc) \<le> b"
    using assms unfolding tile_ranges_def Let_def word_le_nat_alt m_def n_def k_def La_def Lb_def Lc_def a_def b_def cc_def R_def
    by (simp_all split: if_splits)
  have C: "unat (tile_c_at c t (i, j)) = cc + 8 * (i * Lc + j)" "cc + 8 * (i * Lc + j) < cc + 8 * (m * Lc)" if "i < m" "j < n" for i j
  proof -
    have j: "j < unat (t_ldc t)" using that r(2) by (simp add: Lc_def)
    show "unat (tile_c_at c t (i, j)) = cc + 8 * (i * Lc + j)" "cc + 8 * (i * Lc + j) < cc + 8 * (m * Lc)"
      using matrix_addr(1,3) [OF that(1) j, of "t_c t"] r(1,7) by (simp_all add: tile_c_at_def tile_col_def cc_def Lc_def)
  qed
  have A: "unat (tile_a_at c t i x) \<ge> a" "unat (tile_a_at c t i x) < a + 8 * (m * La)" if "i < m" "x < k" for i x
  proof -
    have x: "x < unat (t_lda t)" using that r(3) by (simp add: La_def)
    show "unat (tile_a_at c t i x) \<ge> a" "unat (tile_a_at c t i x) < a + 8 * (m * La)"
      using matrix_addr [OF that(1) x, of "t_a t"] r(1,5) by (simp_all add: tile_a_at_def tile_col_def a_def La_def)
  qed
  have B: "unat (tile_b_at c t x j) \<ge> b" "unat (tile_b_at c t x j) < b + 8 * (R * Lb)" if "x < k" "j < n" for x j
  proof -
    have "(if t_transb t then j else x) < R" using that by (simp add: R_def)
    moreover have "(if t_transb t then x else j) < unat (t_ldb t)" using that r(4) by (simp add: Lb_def split: if_splits)
    ultimately show "unat (tile_b_at c t x j) \<ge> b" "unat (tile_b_at c t x j) < b + 8 * (R * Lb)"
      using matrix_addr [of "if t_transb t then j else x" R "if t_transb t then x else j" "t_ldb t" "t_b t"] r(1,6)
      by (simp_all add: tile_b_at_def tile_col_def b_def Lb_def split: if_splits)
  qed
  have inj: "inj_on (tile_c_at c t) ({..<m} \<times> {..<n})"
  proof (rule inj_onI, clarsimp)
    fix i j i' j' assume ij: "i < m" "j < n" "i' < m" "j' < n" and eq: "tile_c_at c t (i, j) = tile_c_at c t (i', j')"
    have "i * Lc + j = i' * Lc + j'" using C(1) [OF ij(1,2)] C(1) [OF ij(3,4)] eq by simp
    moreover have "j < Lc" "j' < Lc" using ij r(2) by simp_all
    ultimately show "i = i' \<and> j = j'"
      by (metis (no_types) add.commute div_mult_self3 div_less mod_less mod_mult_self3 add_cancel_right_right less_nat_zero_code)
  qed
  have "tile_c_at c t (i', j') \<noteq> tile_a_at c t i x \<and> tile_c_at c t (i', j') \<noteq> tile_b_at c t x j"
    if "i' < m" "j' < n" "i < m" "x < k" "j < n" for i j i' j' x
  proof -
    have "unat (tile_c_at c t (i', j')) \<noteq> unat (tile_a_at c t i x)" using C [OF that(1,2)] A [OF that(3,4)] r(8) by linarith
    moreover have "unat (tile_c_at c t (i', j')) \<noteq> unat (tile_b_at c t x j)" using C [OF that(1,2)] B [OF that(4,5)] r(9) by linarith
    ultimately show ?thesis by metis
  qed
  then show ?thesis using inj unfolding tile_apart_def Let_def m_def n_def k_def by blast
qed

text \<open>
  C20: A tile on the compute cores of a cluster with the plain double-precision kernel, in any order of the
  cores: every element \<open>(i, j)\<close> of the tile is the old one times \<open>beta\<close> (zero for a zero \<open>beta\<close>) with the products
  of row \<open>i\<close> of \<open>A\<close> and column \<open>j\<close> of \<open>B\<close>, transposed or not and in either layout, added in order; every other aligned
  word keeps its value.
\<close>

theorem sc_st_gemm_naive_correct:
  assumes "compute_team c hs" "\<not> t_transa t" "t_prec t = 8" "dptr (t_a t)" "dptr (t_b t)" "dptr (t_c t)" "tile_apart c t"
  shows "\<exists>mem'. sc_st_cluster c (naive_krn f cv c) t sts hs mem = Some mem' \<and>
    (\<forall>i < unat (t_m t). \<forall>j < unat (t_n t). ld64 mem' (ucast (tile_c_at c t (i, j))) = tile_elem f cv c t (i, j) mem) \<and>
    (\<forall>p. dptr p \<longrightarrow> p \<notin> tile_c_at c t ` ({..<unat (t_m t)} \<times> {..<unat (t_n t)}) \<longrightarrow> ld64 mem' (ucast p) = ld64 mem (ucast p))"
proof -
  define F where "F = (\<lambda>p mem. st64 mem (ucast (tile_c_at c t p)) (tile_elem f cv c t p mem))"
  note o = tile_order_elems [OF assms(1), of t]
  have run: "sc_st_cluster c (naive_krn f cv c) t sts hs mem = Some (fold F (tile_order c hs t) mem)"
    unfolding F_def by (rule sc_st_cluster_fold, rule exI, rule naive_core [OF compute_teamD(1) [OF assms(1)] assms(2,3)])
  have inj: "inj_on (tile_c_at c t) (set (tile_order c hs t))" using assms(7) by (simp add: o(2) tile_apart_def Let_def)
  have "ld64 (fold F (tile_order c hs t) mem) (ucast (tile_c_at c t q)) = tile_elem f cv c t q mem"
    if "q \<in> set (tile_order c hs t)" for q
    unfolding F_def
    by (rule dstore.fold_wr_at_once [OF o(1) that inj]) (use assms(6) tile_elem_frame [OF assms(7,4-6)] o(2) in auto)
  moreover have "ld64 (fold F (tile_order c hs t) mem) (ucast p) = ld64 mem (ucast p)"
    if "dptr p" "p \<notin> tile_c_at c t ` ({..<unat (t_m t)} \<times> {..<unat (t_n t)})" for p
    unfolding F_def by (rule dstore.fold_wr_other) (use that o(2) assms(6) in auto)
  ultimately show ?thesis unfolding run by (intro exI [of _ "fold F (tile_order c hs t) mem"]) (simp add: o(2))
qed


text \<open>A tile of three rows, eight columns and a reduction of three.\<close>

definition sample_tile :: sc_st_gemm_args_t where
  "sample_tile = \<lparr>t_prec = 8, t_setup_ssr = True, t_partition_banks = False, t_transa = False, t_transb = False,
     t_m = 3, t_n = 8, t_k = 3, t_a = 0x1000, t_lda = 3, t_b = 0x2000, t_ldb = 8, t_beta = 1, t_c = 0x3000, t_ldc = 8\<rparr>"

lemma sample_tile_ok: "tile_ranges sample_tile" "dptr (t_a sample_tile)" "dptr (t_b sample_tile)" "dptr (t_c sample_tile)"
  by (simp_all add: tile_ranges_def sample_tile_def dptr_mod)

lemma sample_compute_team: "compute_team sample_cfg [3, 1, 2, 0, 7, 6, 5, 4]"
  using sample_team by (simp add: compute_team_def team_defs sample_cfg_def)

theorem sc_st_gemm_naive_correct_witness:
  "\<exists>mem'. sc_st_cluster sample_cfg (naive_krn int_fpu (\<lambda>x. ucast x) sample_cfg) sample_tile (\<lambda>_. reset_ssr_core) [3, 1, 2, 0, 7, 6, 5, 4] (\<lambda>_. 1) = Some mem' \<and>
     ld64 mem' 0x30B8 = tile_elem int_fpu (\<lambda>x. ucast x) sample_cfg sample_tile (2, 7) (\<lambda>_. 1)"
proof -
  have p: "\<not> t_transa sample_tile" "t_prec sample_tile = 8" "tile_c_at sample_cfg sample_tile (2, 7) = 0x30B8"
    "2 < unat (t_m sample_tile)" "7 < unat (t_n sample_tile)"
    by (simp_all add: sample_tile_def tile_c_at_def tile_col_def)
  from sc_st_gemm_naive_correct [OF sample_compute_team p(1,2) sample_tile_ok(2-4) tile_ranges_apart [OF sample_tile_ok(1)],
      of int_fpu "\<lambda>x. ucast x" "\<lambda>_. reset_ssr_core" "\<lambda>_. 1"]
  obtain mem' where m: "sc_st_cluster sample_cfg (naive_krn int_fpu (\<lambda>x. ucast x) sample_cfg) sample_tile (\<lambda>_. reset_ssr_core) [3, 1, 2, 0, 7, 6, 5, 4] (\<lambda>_. 1) = Some mem'"
    "\<forall>i < unat (t_m sample_tile). \<forall>j < unat (t_n sample_tile). ld64 mem' (ucast (tile_c_at sample_cfg sample_tile (i, j))) =
       tile_elem int_fpu (\<lambda>x. ucast x) sample_cfg sample_tile (i, j) (\<lambda>_. 1)" by blast
  from m(2) [rule_format, OF p(4,5)] m(1) p(3) show ?thesis by auto
qed

end
