(* ===== verification/Gemm_Opt.thy ===== *)
theory Gemm_Opt
  imports Gemm_Fp64
begin

text \<open>
  The streamed double-precision kernel \<open>gemm_fp64_opt\<close> of \<open>gemm_fp64.h\<close>: the configuration of the three stream
  registers, the blocks of eight accumulators in the hardware loop, the preload of the result for a non-zero
  \<open>beta\<close>. The theorem gives the elements the cores leave: the chain of fused multiply-adds of a row and a column.
\<close>

section \<open>The streams\<close>

definition unroll :: u32 where
  "unroll = 8"

definition n_outer_incr :: "snrt_cfg \<Rightarrow> gemm_fp_args \<Rightarrow> u32" where
  "n_outer_incr c g = (if k_partition_banks g then SNRT_TCDM_HYPERBANK_WIDTH c else 8 * unroll)"

definition setup_ssr0 :: "snrt_cfg \<Rightarrow> gemm_fp_args \<Rightarrow> ssr_core \<Rightarrow> ssr_core option" where
  "setup_ssr0 c g st = do {
     st \<leftarrow> (if k_transa g
           then snrt_ssr_loop_3d SNRT_SSR_DM0 (k_K g) (k_N g div unroll) (k_M g) (8 * k_lda g) 0 (8 * 8) st
           else if k_partition_banks g
           then snrt_ssr_loop_4d SNRT_SSR_DM0 (elems_per_line c) (k_K g div elems_per_line c) (k_N g div unroll) (k_M g)
                  8 (SNRT_TCDM_HYPERBANK_WIDTH c) 0 (8 * k_lda g) st
           else snrt_ssr_loop_3d SNRT_SSR_DM0 (k_K g) (k_N g div unroll) (k_M g) 8 0 (8 * k_lda g) st);
     snrt_ssr_repeat SNRT_SSR_DM0 unroll st }"

definition setup_ssr1 :: "snrt_cfg \<Rightarrow> gemm_fp_args \<Rightarrow> ssr_core \<Rightarrow> ssr_core option" where
  "setup_ssr1 c g st =
     (if k_transb g
      then snrt_ssr_loop_4d SNRT_SSR_DM1 unroll (k_K g) (k_N g div unroll) (k_M g) (8 * k_ldb g) 8 (8 * k_ldb g * unroll) 0 st
      else snrt_ssr_loop_4d SNRT_SSR_DM1 unroll (k_K g) (k_N g div unroll) (k_M g) 8 (8 * k_ldb g) (n_outer_incr c g) 0 st)"

definition setup_ssr2 :: "snrt_cfg \<Rightarrow> gemm_fp_args \<Rightarrow> ssr_core \<Rightarrow> ssr_core option" where
  "setup_ssr2 c g st =
     snrt_ssr_loop_3d SNRT_SSR_DM2 unroll (k_N g div unroll) (k_M g) 8 (n_outer_incr c g) (k_ldc g * 8) st"

definition gemm_streams :: "snrt_cfg \<Rightarrow> gemm_fp_args \<Rightarrow> ssr_core \<Rightarrow> ssr_core option" where
  "gemm_streams c g st = do {
     st \<leftarrow> (if k_setup_ssr g then do { st \<leftarrow> setup_ssr0 c g st; st \<leftarrow> setup_ssr1 c g st; setup_ssr2 c g st } else Some st);
     st \<leftarrow> snrt_ssr_read SNRT_SSR_DM0 SNRT_SSR_4D (k_A g) st;
     st \<leftarrow> snrt_ssr_read SNRT_SSR_DM1 SNRT_SSR_4D (k_B g) st;
     st \<leftarrow> snrt_ssr_write SNRT_SSR_DM2 SNRT_SSR_3D (k_C g) st;
     Some (snrt_ssr_enable st) }"

section \<open>The blocks\<close>

text \<open>
  Eight operations on the accumulators, with the operands of \<open>ft0\<close> and \<open>ft1\<close>; then the hardware loop of fused multiply-adds,
  and the last eight with the results written to \<open>ft2\<close>. Without streams these registers are plain ones, which the model
  does not have: None.
\<close>

definition acc_pass ::
  "(u64 \<Rightarrow> u64 \<Rightarrow> u64 \<Rightarrow> u64) \<Rightarrow> mem \<Rightarrow> u64 list \<Rightarrow> ssr_core \<Rightarrow> (u64 list \<times> ssr_core) option" where
  "acc_pass f mem cs st =
     (if ssr_en st then do {
        (as, st) \<leftarrow> ssr_pop (unat unroll) 0 st;
        (bs, st) \<leftarrow> ssr_pop (unat unroll) 1 st;
        Some (map (\<lambda>((p, q), c). f (ld64 mem (ucast p)) (ld64 mem (ucast q)) c) (zip (zip as bs) cs), st) }
      else None)"

fun acc_loop :: "fpu \<Rightarrow> mem \<Rightarrow> nat \<Rightarrow> u64 list \<Rightarrow> ssr_core \<Rightarrow> (u64 list \<times> ssr_core) option" where
  "acc_loop f mem 0 cs st = Some (cs, st)"
| "acc_loop f mem (Suc n) cs st = do { (cs, st) \<leftarrow> acc_pass (fmadd f) mem cs st; acc_loop f mem n cs st }"

text \<open>A block without and with the accumulators preloaded.\<close>

definition acc_block :: "fpu \<Rightarrow> nat \<Rightarrow> (mem \<Rightarrow> u64 list) option \<Rightarrow> mem \<Rightarrow> ssr_core \<Rightarrow> (mem \<times> ssr_core) option" where
  "acc_block f n pre mem st = do {
     (cs, st) \<leftarrow> (case pre of
                    None \<Rightarrow> acc_pass (\<lambda>x y _. fmul f x y) mem (replicate (unat unroll) 0) st
                  | Some p \<Rightarrow> acc_pass (fmadd f) mem (p mem) st);
     (cs, st) \<leftarrow> acc_loop f mem n cs st;
     (cs, st) \<leftarrow> acc_pass (fmadd f) mem cs st;
     (ws, st) \<leftarrow> ssr_pop (unat unroll) 2 st;
     Some (fold (\<lambda>(w, v) mem. st64 mem (ucast w) v) (zip ws cs) mem, st) }"

fun acc_blocks :: "fpu \<Rightarrow> nat \<Rightarrow> (mem \<Rightarrow> u64 list) option list \<Rightarrow> mem \<Rightarrow> ssr_core \<Rightarrow> (mem \<times> ssr_core) option" where
  "acc_blocks f n [] mem st = Some (mem, st)"
| "acc_blocks f n (pre # pres) mem st = do { (mem, st) \<leftarrow> acc_block f n pre mem st; acc_blocks f n pres mem st }"

text \<open>The elements of the result that a block is preloaded with.\<close>

definition preload_c :: "gemm_fp_args \<Rightarrow> u32 \<Rightarrow> u32 \<Rightarrow> mem \<Rightarrow> u64 list" where
  "preload_c g m n0 mem =
     (let p = k_C g + 8 * (m * k_ldc g + n0 * unroll)
      in map (\<lambda>u. ld64 mem (ucast (p + 8 * of_nat u))) [0..<8])"

text \<open>
  With two sequencer loops and room for 24 instructions, and a zero \<open>beta\<close>, all blocks are one hardware loop; otherwise two
  loops of the core.
\<close>

definition opt_preloads :: "nat \<Rightarrow> nat \<Rightarrow> gemm_fp_args \<Rightarrow> (mem \<Rightarrow> u64 list) option list" where
  "opt_preloads num_loops num_insns g =
     (if num_loops > 1 \<and> num_insns \<ge> 24 \<and> k_beta g = 0
      then replicate (frep_iters (k_M g * k_N g div unroll - 1)) None
      else concat (map (\<lambda>m. map (\<lambda>n0. if k_beta g = 0 then None else Some (preload_c g (of_nat m) (of_nat n0)))
             [0..<unat (k_N g div unroll)]) [0..<unat (k_M g)]))"

definition gemm_fp64_opt ::
  "fpu \<Rightarrow> snrt_cfg \<Rightarrow> nat \<Rightarrow> nat \<Rightarrow> gemm_fp_args \<Rightarrow> mem \<times> ssr_core \<Rightarrow> (mem \<times> ssr_core) option" where
  "gemm_fp64_opt f c num_loops num_insns g = (\<lambda>(mem, st). do {
     st \<leftarrow> (if k_N g \<ge> unroll then gemm_streams c g st else Some st);
     (mem, st) \<leftarrow> acc_blocks f (frep_iters (k_K g - 3)) (opt_preloads num_loops num_insns g) mem st;
     Some (mem, snrt_ssr_disable st) })"

section \<open>A block\<close>

text \<open>The accumulators as a function of their number.\<close>

lemma unat_unroll [simp]: "unat unroll = 8"
  by (simp add: unroll_def)

lemma pop_en: "ssr_pop n i st = Some (as, st') \<Longrightarrow> ssr_en st' = ssr_en st"
  by (auto simp: ssr_pop_def split: prod.splits if_splits)

lemma acc_pass_ok:
  assumes "ssr_en st" "stream_is (replicate 8 a @ as) 0 st" "stream_is (map b [0..<8] @ bs) 1 st"
  shows "\<exists>st'. acc_pass f mem (map F [0..<8]) st =
      Some (map (\<lambda>u. f (ld64 mem (ucast a)) (ld64 mem (ucast (b u))) (F u)) [0..<8], st') \<and>
    ssr_en st' \<and> stream_is as 0 st' \<and> stream_is bs 1 st' \<and> ssrs st' 2 = ssrs st 2"
proof -
  obtain st1 where 1: "ssr_pop 8 0 st = Some (replicate 8 a, st1)" "stream_is as 0 st1" "\<forall>k. k \<noteq> 0 \<longrightarrow> ssrs st1 k = ssrs st k"
    using pop_stream [OF assms(2)] by auto
  have "stream_is (map b [0..<8] @ bs) 1 st1" using assms(3) stream_is_other [of st1 1 st] 1(3) by simp
  then obtain st2 where 2: "ssr_pop 8 1 st1 = Some (map b [0..<8], st2)" "stream_is bs 1 st2" "\<forall>k. k \<noteq> 1 \<longrightarrow> ssrs st2 k = ssrs st1 k"
    using pop_stream [of "map b [0..<8]" bs 1 st1] by auto
  have r: "replicate 8 a = map (\<lambda>_. a) [0..<8]" by (simp add: map_replicate_const)
  have "zip (zip (replicate 8 a) (map b [0..<8])) (map F [0..<8]) = map (\<lambda>u. ((a, b u), F u)) [0..<8]"
    unfolding r by (simp add: zip_map_map zip_same_conv_map comp_def)
  then have "acc_pass f mem (map F [0..<8]) st =
      Some (map (\<lambda>u. f (ld64 mem (ucast a)) (ld64 mem (ucast (b u))) (F u)) [0..<8], st2)"
    using assms(1) 1(1) 2(1) [unfolded One_nat_def] by (simp add: acc_pass_def comp_def del: upt_Suc replicate.simps)
  moreover have "stream_is as 0 st2" using 1(2) stream_is_other [of st2 0 st1] 2(3) by simp
  moreover have "ssr_en st2" using assms(1) pop_en [OF 1(1)] pop_en [OF 2(1)] by simp
  ultimately show ?thesis using 1(3) 2(2,3) by auto
qed

lemma acc_loop_ok:
  assumes "ssr_en st" "stream_is (concat (map (\<lambda>k. replicate 8 (a k)) [i..<i + n]) @ as) 0 st"
    "stream_is (concat (map (\<lambda>k. map (b k) [0..<8]) [i..<i + n]) @ bs) 1 st"
  shows "\<exists>st'. acc_loop f mem n (map F [0..<8]) st =
      Some (map (\<lambda>u. fold (\<lambda>k. fmadd f (ld64 mem (ucast (a k))) (ld64 mem (ucast (b k u)))) [i..<i + n] (F u)) [0..<8], st') \<and>
    ssr_en st' \<and> stream_is as 0 st' \<and> stream_is bs 1 st' \<and> ssrs st' 2 = ssrs st 2"
  using assms
proof (induction n arbitrary: i F st)
  case (Suc n)
  have u: "[i..<i + Suc n] = i # [Suc i..<Suc i + n]" by (simp add: upt_conv_Cons)
  from acc_pass_ok [OF Suc.prems(1), of "a i" _ "b i" _ "fmadd f" mem F] Suc.prems(2,3) obtain st1 where
    1: "acc_pass (fmadd f) mem (map F [0..<8]) st =
      Some (map (\<lambda>u. fmadd f (ld64 mem (ucast (a i))) (ld64 mem (ucast (b i u))) (F u)) [0..<8], st1)" "ssr_en st1"
    "stream_is (concat (map (\<lambda>k. replicate 8 (a k)) [Suc i..<Suc i + n]) @ as) 0 st1"
    "stream_is (concat (map (\<lambda>k. map (b k) [0..<8]) [Suc i..<Suc i + n]) @ bs) 1 st1" "ssrs st1 2 = ssrs st 2"
    unfolding u by (simp del: upt_Suc replicate.simps) blast
  show ?case
    unfolding u using 1(1,5) Suc.IH [OF 1(2-4), of "\<lambda>u. fmadd f (ld64 mem (ucast (a i))) (ld64 mem (ucast (b i u))) (F u)"]
    by (simp del: upt_Suc)
qed simp


definition block_init :: "fpu \<Rightarrow> mem \<Rightarrow> (mem \<Rightarrow> u64 list) option \<Rightarrow> u32 \<Rightarrow> u32 \<Rightarrow> nat \<Rightarrow> u64" where
  "block_init f mem pre p q u =
     (case pre of None \<Rightarrow> fmul f (ld64 mem (ucast p)) (ld64 mem (ucast q))
      | Some c \<Rightarrow> fmadd f (ld64 mem (ucast p)) (ld64 mem (ucast q)) (c mem ! u))"

definition block_val :: "fpu \<Rightarrow> mem \<Rightarrow> (mem \<Rightarrow> u64 list) option \<Rightarrow> nat \<Rightarrow> (nat \<Rightarrow> u32) \<Rightarrow> (nat \<Rightarrow> nat \<Rightarrow> u32) \<Rightarrow> nat \<Rightarrow> u64" where
  "block_val f mem pre K a b u =
     fold (\<lambda>k. fmadd f (ld64 mem (ucast (a k))) (ld64 mem (ucast (b k u)))) [1..<K] (block_init f mem pre (a 0) (b 0 u) u)"

lemma upt_3: "3 \<le> K \<Longrightarrow> [0..<K] = 0 # [1..<1 + (K - 2)] @ [K - 1]" "3 \<le> K \<Longrightarrow> [1..<K] = [1..<1 + (K - 2)] @ [K - 1]"
proof -
  assume K: "3 \<le> K"
  then have k: "K = Suc (K - 1)" "1 + (K - 2) = K - 1" by simp_all
  have "[1..<Suc (K - 1)] = [1..<K - 1] @ [K - 1]" using K by (subst upt_Suc_append) simp_all
  then show "[1..<K] = [1..<1 + (K - 2)] @ [K - 1]" using k by simp
  then show "[0..<K] = 0 # [1..<1 + (K - 2)] @ [K - 1]" using K by (simp add: upt_conv_Cons)
qed

lemma acc_block_ok:
  assumes "3 \<le> K" "ssr_en st" "stream_is (concat (map (\<lambda>k. replicate 8 (a k)) [0..<K]) @ as) 0 st"
    "stream_is (concat (map (\<lambda>k. map (b k) [0..<8]) [0..<K]) @ bs) 1 st" "stream_is (map w [0..<8] @ ws) 2 st"
    "case pre of None \<Rightarrow> True | Some p \<Rightarrow> length (p mem) = 8"
  shows "\<exists>st'. acc_block f (K - 2) pre mem st =
      Some (fold (\<lambda>u mem'. st64 mem' (ucast (w u)) (block_val f mem pre K a b u)) [0..<8] mem, st') \<and>
    ssr_en st' \<and> stream_is as 0 st' \<and> stream_is bs 1 st' \<and> stream_is ws 2 st'"
proof -
  let ?L = "[1..<1 + (K - 2)]"
  define I where "I = (\<lambda>u. block_init f mem pre (a 0) (b 0 u) u)"
  have s0: "stream_is (replicate 8 (a 0) @ concat (map (\<lambda>k. replicate 8 (a k)) ?L) @ replicate 8 (a (K - 1)) @ as) 0 st"
    and s1: "stream_is (map (b 0) [0..<8] @ concat (map (\<lambda>k. map (b k) [0..<8]) ?L) @ map (b (K - 1)) [0..<8] @ bs) 1 st"
    using assms(3,4) unfolding upt_3(1) [OF assms(1)] by (simp_all del: upt_Suc replicate.simps)
  have z: "replicate (unat unroll) 0 = map (\<lambda>_. 0 :: u64) [0..<8]" by (simp add: map_replicate_const)
  have "\<exists>st1. (case pre of None \<Rightarrow> acc_pass (\<lambda>x y _. fmul f x y) mem (replicate (unat unroll) 0) st
                  | Some p \<Rightarrow> acc_pass (fmadd f) mem (p mem) st) = Some (map I [0..<8], st1) \<and> ssr_en st1 \<and>
    stream_is (concat (map (\<lambda>k. replicate 8 (a k)) ?L) @ replicate 8 (a (K - 1)) @ as) 0 st1 \<and>
    stream_is (concat (map (\<lambda>k. map (b k) [0..<8]) ?L) @ map (b (K - 1)) [0..<8] @ bs) 1 st1 \<and> ssrs st1 2 = ssrs st 2"
  proof (cases pre)
    case None
    show ?thesis unfolding I_def None option.case block_init_def z by (rule acc_pass_ok [OF assms(2) s0 s1])
  next
    case (Some p)
    have "length (p mem) = 8" using assms(6) Some by simp
    then have e: "p mem = map (\<lambda>u. p mem ! u) [0..<8]" using map_nth [of "p mem"] by (simp only:)
    show ?thesis
      unfolding I_def Some option.case block_init_def by (subst (1) e) (rule acc_pass_ok [OF assms(2) s0 s1])
  qed
  then obtain st1 where 1: "(case pre of None \<Rightarrow> acc_pass (\<lambda>x y _. fmul f x y) mem (replicate (unat unroll) 0) st
                  | Some p \<Rightarrow> acc_pass (fmadd f) mem (p mem) st) = Some (map I [0..<8], st1)" "ssr_en st1"
    "stream_is (concat (map (\<lambda>k. replicate 8 (a k)) ?L) @ replicate 8 (a (K - 1)) @ as) 0 st1"
    "stream_is (concat (map (\<lambda>k. map (b k) [0..<8]) ?L) @ map (b (K - 1)) [0..<8] @ bs) 1 st1" "ssrs st1 2 = ssrs st 2"
    by blast
  define V where "V u = fold (\<lambda>k. fmadd f (ld64 mem (ucast (a k))) (ld64 mem (ucast (b k u)))) ?L (I u)" for u
  from acc_loop_ok [OF 1(2-4), of f mem I] obtain st2 where 2: "acc_loop f mem (K - 2) (map I [0..<8]) st1 = Some (map V [0..<8], st2)"
    "ssr_en st2" "stream_is (replicate 8 (a (K - 1)) @ as) 0 st2" "stream_is (map (b (K - 1)) [0..<8] @ bs) 1 st2" "ssrs st2 2 = ssrs st1 2"
    unfolding V_def by blast
  have v: "fmadd f (ld64 mem (ucast (a (K - 1)))) (ld64 mem (ucast (b (K - 1) u))) (V u) = block_val f mem pre K a b u" for u
    unfolding block_val_def upt_3(2) [OF assms(1)] V_def I_def by (simp del: upt_Suc)
  from acc_pass_ok [OF 2(2-4), of "fmadd f" mem V, unfolded v] obtain st3 where
    3: "acc_pass (fmadd f) mem (map V [0..<8]) st2 = Some (map (block_val f mem pre K a b) [0..<8], st3)"
    "ssr_en st3" "stream_is as 0 st3" "stream_is bs 1 st3" "ssrs st3 2 = ssrs st2 2" by auto
  have "stream_is (map w [0..<8] @ ws) 2 st3" using assms(5) stream_is_other [of st3 2 st] 1(5) 2(5) 3(5) by simp
  from pop_stream [OF this] obtain st4 where 4: "ssr_pop 8 2 st3 = Some (map w [0..<8], st4)" "stream_is ws 2 st4"
    "\<forall>k. k \<noteq> 2 \<longrightarrow> ssrs st4 k = ssrs st3 k" by auto
  have "zip (map w [0..<8]) (map (block_val f mem pre K a b) [0..<8]) = map (\<lambda>u. (w u, block_val f mem pre K a b u)) [0..<8]"
    by (simp add: zip_map_map zip_same_conv_map comp_def)
  then have "acc_block f (K - 2) pre mem st =
      Some (fold (\<lambda>u mem'. st64 mem' (ucast (w u)) (block_val f mem pre K a b u)) [0..<8] mem, st4)"
    using 1(1) 2(1) 3(1) 4(1) by (simp add: acc_block_def fold_map comp_def del: upt_Suc)
  moreover have "stream_is as 0 st4" "stream_is bs 1 st4"
    using 3(3,4) stream_is_other [of st4 0 st3] stream_is_other [of st4 1 st3] 4(3) by simp_all
  ultimately show ?thesis using 3(2) 4(2) pop_en [OF 4(1)] by simp
qed

text \<open>A list of blocks, given by their addresses; a block reads none of the words it or another block writes.\<close>

record block =
  blk_pre :: "(mem \<Rightarrow> u64 list) option"
  blk_a :: "nat \<Rightarrow> u32"
  blk_b :: "nat \<Rightarrow> nat \<Rightarrow> u32"
  blk_w :: "nat \<Rightarrow> u32"

lemma acc_blocks_ok:
  assumes "3 \<le> K" "ssr_en st" "stream_is (concat (map (\<lambda>x. concat (map (\<lambda>k. replicate 8 (blk_a x k)) [0..<K])) xs)) 0 st"
    "stream_is (concat (map (\<lambda>x. concat (map (\<lambda>k. map (blk_b x k) [0..<8]) [0..<K])) xs)) 1 st"
    "stream_is (concat (map (\<lambda>x. map (blk_w x) [0..<8]) xs)) 2 st"
    "\<And>x mem. x \<in> set xs \<Longrightarrow> case blk_pre x of None \<Rightarrow> True | Some p \<Rightarrow> length (p mem) = 8"
  shows "\<exists>st'. acc_blocks f (K - 2) (map blk_pre xs) mem st =
    Some (fold (\<lambda>x mem. fold (\<lambda>u mem'. st64 mem' (ucast (blk_w x u)) (block_val f mem (blk_pre x) K (blk_a x) (blk_b x) u)) [0..<8] mem) xs mem, st')"
  using assms(2-6)
proof (induction xs arbitrary: mem st)
  case (Cons x xs)
  from acc_block_ok [OF assms(1) Cons.prems(1), where a = "blk_a x" and b = "blk_b x" and w = "blk_w x" and pre = "blk_pre x" and mem = mem and f = f] Cons.prems(2-5)
  obtain st1 where 1: "acc_block f (K - 2) (blk_pre x) mem st =
      Some (fold (\<lambda>u mem'. st64 mem' (ucast (blk_w x u)) (block_val f mem (blk_pre x) K (blk_a x) (blk_b x) u)) [0..<8] mem, st1)"
    "ssr_en st1" "stream_is (concat (map (\<lambda>x. concat (map (\<lambda>k. replicate 8 (blk_a x k)) [0..<K])) xs)) 0 st1"
    "stream_is (concat (map (\<lambda>x. concat (map (\<lambda>k. map (blk_b x k) [0..<8]) [0..<K])) xs)) 1 st1"
    "stream_is (concat (map (\<lambda>x. map (blk_w x) [0..<8]) xs)) 2 st1"
    by (simp del: upt_Suc replicate.simps) blast
  from Cons.IH [OF 1(2-5)] Cons.prems(5) show ?case by (simp add: 1(1) del: upt_Suc)
qed simp


section \<open>The configuration\<close>

text \<open>
  Three loops read as a stream of four dimensions: the stream begins with the elements of the three loops, and ends with them
  when the bound register of the fourth, which is not written, holds zero.
\<close>

lemma strides_3d_as_4d:
  assumes "b0 \<noteq> 0" "b1 \<noteq> 0" "b2 \<noteq> 0"
  shows "\<exists>s3. job_strides (start_job w 3 p ((job_3d b0 b1 b2 s0 s1 s2 j)\<lparr>j_rep := R\<rparr>)) (st4 s0 s1 s2 s3)"
    and "iters (start_job w 3 p ((job_3d b0 b1 b2 s0 s1 s2 j)\<lparr>j_rep := R\<rparr>)) =
      (\<lambda>_. 1)(0 := unat b0, 1 := unat b1, 2 := unat b2, 3 := Suc (unat (j_bound j 3)))"
proof -
  have d: "of_nat (unat b - Suc 0) = b - 1" if "b \<noteq> 0" for b :: u32
    using unat_dec [OF that] by (metis One_nat_def add_diff_cancel_right' of_nat_unat ucast_id)
  show it: "iters (start_job w 3 p ((job_3d b0 b1 b2 s0 s1 s2 j)\<lparr>j_rep := R\<rparr>)) =
      (\<lambda>_. 1)(0 := unat b0, 1 := unat b1, 2 := unat b2, 3 := Suc (unat (j_bound j 3)))"
    using assms unat_dec by (auto intro!: ext simp: iters_def start_job_def job_defs)
  show "\<exists>s3. job_strides (start_job w 3 p ((job_3d b0 b1 b2 s0 s1 s2 j)\<lparr>j_rep := R\<rparr>)) (st4 s0 s1 s2 s3)"
    by (rule exI [of _ "j_stride j 3 + (s0 * (b0 - 1) + s1 * (b1 - 1) + s2 * (b2 - 1))"])
      (unfold job_strides_def it, auto simp: start_job_def job_defs st4_def le_cases sums_below d assms)
qed

lemma affine_nest_first: "\<exists>bs. affine_nest p ((Suc n, s) # ls) = affine_nest p ls @ bs"
  by (simp add: upt_conv_Cons del: upt_Suc)

lemma nest_3d:
  "affine_nest p [(n2, s2), (n1, s1), (n0, s0)] = concat (map (\<lambda>i. concat (map (\<lambda>j.
     map (\<lambda>k. p + of_nat i * s2 + of_nat j * s1 + of_nat k * s0) [0..<n0]) [0..<n1])) [0..<n2])"
  by (simp add: comp_def concat_map_singleton)

lemma nest_4d:
  "affine_nest p [(n3, s3), (n2, s2), (n1, s1), (n0, s0)] = concat (map (\<lambda>h. concat (map (\<lambda>i. concat (map (\<lambda>j.
     map (\<lambda>k. p + of_nat h * s3 + of_nat i * s2 + of_nat j * s1 + of_nat k * s0) [0..<n0]) [0..<n1])) [0..<n2])) [0..<n3])"
  by (simp add: comp_def concat_map_singleton)

lemma stream_3d_as_4d:
  assumes "ssr_fresh (ssrs st i)" "b0 \<noteq> 0" "b1 \<noteq> 0" "b2 \<noteq> 0"
  shows "stream_is (concat (map (\<lambda>i. concat (map (\<lambda>j. concat (map (\<lambda>k.
       replicate (Suc (unat R)) (p + of_nat i * s2 + of_nat j * s1 + of_nat k * s0)) [0..<unat b0])) [0..<unat b1])) [0..<unat b2])) i
    (st\<lparr>ssrs := (ssrs st)(i := prog (start_job False 3 p ((job_3d b0 b1 b2 s0 s1 s2 j)\<lparr>j_rep := R\<rparr>)) (ssrs st i))\<rparr>)"
proof -
  let ?j = "(job_3d b0 b1 b2 s0 s1 s2 j)\<lparr>j_rep := R\<rparr>"
  obtain s3 where s3: "job_strides (start_job False 3 p ?j) (st4 s0 s1 s2 s3)" using strides_3d_as_4d(1) [OF assms(2-4)] by blast
  obtain bs where bs: "affine_nest p ((Suc (unat (j_bound j 3)), s3) # [(unat b2, s2), (unat b1, s1), (unat b0, s0)]) =
      affine_nest p [(unat b2, s2), (unat b1, s1), (unat b0, s0)] @ bs" using affine_nest_first by blast
  have it: "iters (start_job False 3 p ?j) 3 = Suc (unat (j_bound j 3))" "iters (start_job False 3 p ?j) 2 = unat b2"
    "iters (start_job False 3 p ?j) 1 = unat b1" "iters (start_job False 3 p ?j) 0 = unat b0"
    unfolding strides_3d_as_4d(2) [OF assms(2-4)] by simp_all
  have "stream_is (concat (map (replicate (Suc (unat R))) (affine_nest p [(unat b2, s2), (unat b1, s1), (unat b0, s0)])) @
      concat (map (replicate (Suc (unat R))) bs)) i
    (st\<lparr>ssrs := (ssrs st)(i := prog (start_job False 3 p ?j) (ssrs st i))\<rparr>)"
    using stream_is_job [OF ssr_freshD(1,3) [OF assms(1)] s3]
    unfolding it bs by (simp add: stream_reps_def del: affine_nest.simps replicate_Suc)
  from stream_is_prefix [OF this] show ?thesis
    by (simp only: nest_3d concat_map_concat map_map comp_def)
qed

lemma stream_3d:
  assumes "ssr_fresh (ssrs st i)" "b0 \<noteq> 0" "b1 \<noteq> 0" "b2 \<noteq> 0" "w \<or> j_rep j = 0"
  shows "stream_is (concat (map (\<lambda>i. concat (map (\<lambda>j.
       map (\<lambda>k. p + of_nat i * s2 + of_nat j * s1 + of_nat k * s0) [0..<unat b0]) [0..<unat b1])) [0..<unat b2])) i
    (st\<lparr>ssrs := (ssrs st)(i := prog (start_job w 2 p (job_3d b0 b1 b2 s0 s1 s2 j)) (ssrs st i))\<rparr>)"
proof -
  note j = strides_jobs(3) [OF assms(2-4), where w = w and p = p and j = j and ?s0.0 = s0 and ?s1.0 = s1 and ?s2.0 = s2 and ?s3.0 = 0]
  show ?thesis
    using stream_is_job [OF ssr_freshD(1,3) [OF assms(1)] j]
    unfolding iters_jobs(3) [OF assms(2-4)] job_rep(4) no_reps [OF assms(5)] nest_3d [symmetric]
    by (simp del: affine_nest.simps)
qed

lemma stream_4d:
  assumes "ssr_fresh (ssrs st i)" "b0 \<noteq> 0" "b1 \<noteq> 0" "b2 \<noteq> 0" "b3 \<noteq> 0" "w \<or> j_rep j = 0"
  shows "stream_is (concat (map (\<lambda>h. concat (map (\<lambda>i. concat (map (\<lambda>j.
       map (\<lambda>k. p + of_nat h * s3 + of_nat i * s2 + of_nat j * s1 + of_nat k * s0) [0..<unat b0]) [0..<unat b1])) [0..<unat b2])) [0..<unat b3])) i
    (st\<lparr>ssrs := (ssrs st)(i := prog (start_job w 3 p (job_4d b0 b1 b2 b3 s0 s1 s2 s3 j)) (ssrs st i))\<rparr>)"
proof -
  note j = strides_jobs(4) [OF assms(2-5), where w = w and p = p and j = j and ?s0.0 = s0 and ?s1.0 = s1 and ?s2.0 = s2 and ?s3.0 = s3]
  show ?thesis
    using stream_is_job [OF ssr_freshD(1,3) [OF assms(1)] j]
    unfolding iters_jobs(4) [OF assms(2-5)] job_rep(5) no_reps [OF assms(6)] nest_4d [symmetric]
    by (simp del: affine_nest.simps)
qed


text \<open>The addresses of the streams, block by block.\<close>

definition opt_blocks :: "gemm_fp_args \<Rightarrow> (nat \<times> nat) list" where
  "opt_blocks g = concat (map (\<lambda>m. map (Pair m) [0..<unat (k_N g div unroll)]) [0..<unat (k_M g)])"

definition opt_a :: "gemm_fp_args \<Rightarrow> nat \<times> nat \<Rightarrow> nat \<Rightarrow> u32" where
  "opt_a g = (\<lambda>(m, n0) k. k_A g + of_nat m * (8 * k_lda g) + of_nat k * 8)"

definition opt_b :: "gemm_fp_args \<Rightarrow> nat \<times> nat \<Rightarrow> nat \<Rightarrow> nat \<Rightarrow> u32" where
  "opt_b g = (\<lambda>(m, n0) k u.
     if k_transb g then k_B g + of_nat n0 * (8 * k_ldb g * unroll) + of_nat k * 8 + of_nat u * (8 * k_ldb g)
     else k_B g + of_nat n0 * (8 * unroll) + of_nat k * (8 * k_ldb g) + of_nat u * 8)"

definition opt_w :: "gemm_fp_args \<Rightarrow> nat \<times> nat \<Rightarrow> nat \<Rightarrow> u32" where
  "opt_w g = (\<lambda>(m, n0) u. k_C g + of_nat m * (k_ldc g * 8) + of_nat n0 * (8 * unroll) + of_nat u * 8)"

lemma concat_map_blocks: "concat (map F (opt_blocks g)) =
    concat (map (\<lambda>m. concat (map (\<lambda>n0. F (m, n0)) [0..<unat (k_N g div unroll)])) [0..<unat (k_M g)])"
  by (simp add: opt_blocks_def concat_map_concat comp_def)

lemma gemm_streams_ok:
  assumes "k_setup_ssr g" "\<not> k_transa g" "\<not> k_partition_banks g" "k_N g div unroll \<noteq> 0" "k_M g \<noteq> 0" "k_K g \<noteq> 0"
    "\<And>i. i < 3 \<Longrightarrow> ssr_fresh (ssrs st i)"
  shows "\<exists>st'. gemm_streams c g st = Some st' \<and> ssr_en st' \<and>
    stream_is (concat (map (\<lambda>x. concat (map (\<lambda>k. replicate 8 (opt_a g x k)) [0..<unat (k_K g)])) (opt_blocks g))) 0 st' \<and>
    stream_is (concat (map (\<lambda>x. concat (map (\<lambda>k. map (opt_b g x k) [0..<8]) [0..<unat (k_K g)])) (opt_blocks g))) 1 st' \<and>
    stream_is (concat (map (\<lambda>x. map (opt_w g x) [0..<8]) (opt_blocks g))) 2 st'"
proof -
  define q M K where "q = k_N g div unroll" and "M = k_M g" and "K = k_K g"
  have i: "ssr_fresh (ssrs st 0)" "ssr_fresh (ssrs st (Suc 0))" "ssr_fresh (ssrs st 2)" using assms(7) by simp_all
  note id = i [THEN ssr_freshD(1)] and rp = i [THEN ssr_freshD(2)]
  define n1 where "n1 = (if k_transb g then 8 * k_ldb g * unroll else 8 * unroll)"
  define u1 where "u1 = (if k_transb g then 8 * k_ldb g else 8)"
  define k1 where "k1 = (if k_transb g then 8 else 8 * k_ldb g)"
  let ?j0 = "start_job False 3 (k_A g) ((job_3d K q M 8 0 (8 * k_lda g) (active (ssrs st 0)))\<lparr>j_rep := unroll - 1\<rparr>)"
  let ?j1 = "start_job False 3 (k_B g) (job_4d unroll K q M u1 k1 n1 0 (active (ssrs st 1)))"
  let ?j2 = "start_job True 2 (k_C g) (job_3d unroll q M 8 (8 * unroll) (k_ldc g * 8) (active (ssrs st 2)))"
  define st0 where "st0 = st\<lparr>ssrs := (ssrs st)(0 := prog ?j0 (ssrs st 0))\<rparr>"
  define st1 where "st1 = st0\<lparr>ssrs := (ssrs st0)(1 := prog ?j1 (ssrs st0 1))\<rparr>"
  define st2 where "st2 = st1\<lparr>ssrs := (ssrs st1)(2 := prog ?j2 (ssrs st1 2))\<rparr>"
  have d: "dptr u1" "dptr k1" "dptr n1" by (simp_all add: u1_def k1_def n1_def unroll_def mult.assoc)
  have s1: "setup_ssr1 c g s = snrt_ssr_loop_4d SNRT_SSR_DM1 unroll K q M u1 k1 n1 0 s" for s
    using assms(3) by (simp add: setup_ssr1_def n_outer_incr_def u1_def k1_def n1_def K_def M_def q_def)
  have cfg: "gemm_streams c g st = Some (snrt_ssr_enable st2)"
    using id d assms(1-3)
    by (simp add: gemm_streams_def setup_ssr0_def s1 setup_ssr2_def n_outer_incr_def ssr_reg_defs loop_jobs repeat_job read_write_jobs
      start_job_def job_3d_def job_4d_def st2_def st1_def st0_def set_job_def prog_def ssr_idle_def fun_upd_twist
      K_def [symmetric] q_def [symmetric] M_def [symmetric])
  have u: "unroll \<noteq> 0" "Suc (unat (unroll - 1)) = 8" by (simp_all add: unroll_def)
  have 0: "stream_is (concat (map (\<lambda>x. concat (map (\<lambda>k. replicate 8 (opt_a g x k)) [0..<unat K])) (opt_blocks g))) 0 (snrt_ssr_enable st2)"
    using stream_3d_as_4d [OF i(1) assms(6,4,5), folded K_def q_def M_def, where R = "unroll - 1" and p = "k_A g" and ?s0.0 = 8 and ?s1.0 = 0 and ?s2.0 = "8 * k_lda g" and j = "active (ssrs st 0)"]
      stream_is_other [of st2 0 st0]
    unfolding u(2) concat_map_blocks q_def [symmetric] M_def [symmetric]
    by (simp add: st0_def st1_def st2_def opt_a_def del: replicate.simps upt_Suc)
  have f1: "ssr_fresh (ssrs st0 1)" "ssr_fresh (ssrs st1 2)" using i by (simp_all add: st0_def st1_def)
  have b: "opt_b g (m, n0) k = (\<lambda>u. k_B g + of_nat m * 0 + of_nat n0 * n1 + of_nat k * k1 + of_nat u * u1)" for m n0 k
    by (simp add: opt_b_def n1_def k1_def u1_def)
  have 1: "stream_is (concat (map (\<lambda>x. concat (map (\<lambda>k. map (opt_b g x k) [0..<8]) [0..<unat K])) (opt_blocks g))) 1 (snrt_ssr_enable st2)"
    using stream_4d [OF f1(1) u(1) assms(6,4,5), folded K_def q_def M_def, where w = False and p = "k_B g" and ?s0.0 = u1 and ?s1.0 = k1 and ?s2.0 = n1 and ?s3.0 = 0 and j = "active (ssrs st 1)"]
      stream_is_other [of st2 1 st1] rp
    unfolding concat_map_blocks q_def [symmetric] M_def [symmetric] b
    by (simp add: st1_def st2_def del: upt_Suc)
  have 2: "stream_is (concat (map (\<lambda>x. map (opt_w g x) [0..<8]) (opt_blocks g))) 2 (snrt_ssr_enable st2)"
    using stream_3d [OF f1(2) u(1) assms(4,5), folded q_def M_def, where w = True and p = "k_C g" and ?s0.0 = 8 and ?s1.0 = "8 * unroll" and ?s2.0 = "k_ldc g * 8" and j = "active (ssrs st 2)"]
    unfolding concat_map_blocks q_def [symmetric] M_def [symmetric]
    by (simp add: st2_def opt_w_def del: upt_Suc)
  have "ssr_en (snrt_ssr_enable st2)" by (simp add: snrt_ssr_enable_def)
  then show ?thesis using cfg 0 1 2 unfolding K_def by blast
qed


section \<open>The tile\<close>

text \<open>The element \<open>(i, j)\<close> of the result of the streamed kernel: \<open>beta\<close> is zero or taken as one.\<close>

definition tile_elem_opt :: "fpu \<Rightarrow> snrt_cfg \<Rightarrow> sc_st_gemm_args_t \<Rightarrow> nat \<times> nat \<Rightarrow> mem \<Rightarrow> u64" where
  "tile_elem_opt f c t = (\<lambda>(i, j) mem.
     (let A = \<lambda>k. ld64 mem (ucast (tile_a_at c t i k)); B = \<lambda>k. ld64 mem (ucast (tile_b_at c t k j))
      in fold (\<lambda>k. fmadd f (A k) (B k)) [1..<unat (t_k t)]
           (if t_beta t = 0 then fmul f (A 0) (B 0) else fmadd f (A 0) (B 0) (ld64 mem (ucast (tile_c_at c t (i, j)))))))"

lemma tile_elem_opt_frame:
  assumes "tile_apart c t" "dptr (t_a t)" "dptr (t_b t)" "dptr (t_c t)" "t_k t \<noteq> 0"
    "p \<in> {..<unat (t_m t)} \<times> {..<unat (t_n t)}" "q \<in> {..<unat (t_m t)} \<times> {..<unat (t_n t)}" "p \<noteq> q"
  shows "tile_elem_opt f c t q (st64 mem (ucast (tile_c_at c t p)) v) = tile_elem_opt f c t q mem"
proof -
  obtain i j where q: "q = (i, j)" "i < unat (t_m t)" "j < unat (t_n t)" using assms(7) by auto
  note fr = tile_frame [OF assms(1-4,6) q(2,3) assms(8) [unfolded q(1)]]
  have "0 < unat (t_k t)" using assms(5) by (simp add: unat_gt_0)
  then show ?thesis unfolding tile_elem_opt_def q(1) prod.case fr(3) Let_def fr(1,2) [OF \<open>0 < unat (t_k t)\<close>]
    by (intro fold_cong) (simp_all add: fr(1,2))
qed

lemma opt_addrs:
  assumes "\<not> t_transa t" "\<not> t_partition_banks t" "t_prec t = 8"
    and i: "i = unat (snrt_cluster_core_idx c h) + m * unat (snrt_cluster_compute_core_num c)"
  defines "g \<equiv> core_args c h t"
  shows "opt_a g (m, n0) k = tile_a_at c t i k" "opt_b g (m, n0) k u = tile_b_at c t k (n0 * 8 + u)"
    "opt_w g (m, n0) u = tile_c_at c t (i, n0 * 8 + u)"
    "k_C g + 8 * (of_nat m * k_ldc g + of_nat n0 * unroll) + 8 * of_nat u = tile_c_at c t (i, n0 * 8 + u)"
proof -
  have "(of_nat i :: u32) = snrt_cluster_core_idx c h + of_nat m * snrt_cluster_compute_core_num c" by (simp add: i)
  then show "opt_a g (m, n0) k = tile_a_at c t i k" "opt_b g (m, n0) k u = tile_b_at c t k (n0 * 8 + u)"
    "opt_w g (m, n0) u = tile_c_at c t (i, n0 * 8 + u)"
    "k_C g + 8 * (of_nat m * k_ldc g + of_nat n0 * unroll) + 8 * of_nat u = tile_c_at c t (i, n0 * 8 + u)"
    using assms(1-3)
    by (simp_all add: g_def core_args_def Let_def opt_a_def opt_b_def opt_w_def tile_c_at_def tile_a_at_def
        tile_b_at_def tile_col_def unroll_def algebra_simps)
qed

lemma upt_by_8: "[0..<q * 8] = concat (map (\<lambda>n0. map (\<lambda>u. n0 * 8 + u) [0..<8]) [0..<q])"
proof (induction q)
  case (Suc q)
  have "[0..<Suc q * 8] = [0..<q * 8] @ [q * 8..<q * 8 + 8]" using upt_add_eq_append [of 0 "q * 8" 8] by (simp add: add.commute)
  also have "[q * 8..<q * 8 + 8] = map (\<lambda>u. q * 8 + u) [0..<8]" using map_add_upt [of "q * 8" 8] by (simp add: add.commute)
  finally show ?case using Suc by simp
qed simp

lemma fold_concat_map: "fold (\<lambda>x. fold F (G x)) xs m = fold F (concat (map G xs)) m"
  by (induction xs arbitrary: m) simp_all

lemma opt_preloads_blocks:
  assumes "k_N g = 8 * of_nat q" "q < 2 ^ 29" "q \<noteq> 0" "k_M g \<noteq> 0" "unat (k_M g) * unat (k_N g) < 2 ^ 32"
  shows "opt_preloads nl ni g =
    map (\<lambda>(m, n0). if k_beta g = 0 then None else Some (preload_c g (of_nat m) (of_nat n0))) (opt_blocks g)"
proof -
  have uN: "unat (k_N g) = 8 * q"
    using assms(2) unfolding assms(1) by (subst unat_mult_exact) (simp_all add: unat_of_nat_exact)
  have q: "unat (k_N g div unroll) = q" by (simp add: unat_div uN)
  have MN: "unat (k_M g * k_N g) = unat (k_M g) * unat (k_N g)" using assms(5) by (intro unat_mult_exact) simp
  then have "unat (k_M g * k_N g div unroll) = unat (k_M g) * q"
    by (simp add: unat_div uN)
  moreover have "k_M g * k_N g div unroll \<noteq> 0"
    using calculation assms(3,4) by (metis mult_is_0 unat_0 unsigned_eq_0_iff)
  moreover have "length (opt_blocks g) = unat (k_M g) * q"
    by (simp add: opt_blocks_def length_concat comp_def sum_list_triv q)
  ultimately have l: "frep_iters (k_M g * k_N g div unroll - 1) = length (opt_blocks g)" by (simp add: frep_iters_dec)
  show ?thesis
  proof (cases "k_beta g = 0")
    case True
    have "map (\<lambda>(m, n0). None) (opt_blocks g) = replicate (length (opt_blocks g)) (None :: (mem \<Rightarrow> u64 list) option)"
      by (simp add: case_prod_unfold map_replicate_const)
    moreover have "concat (map (\<lambda>m. map (\<lambda>n0. None) [0..<unat (k_N g div unroll)]) [0..<unat (k_M g)]) =
        map (\<lambda>(m, n0). None :: (mem \<Rightarrow> u64 list) option) (opt_blocks g)"
      by (simp add: opt_blocks_def map_concat comp_def)
    ultimately show ?thesis using True l by (simp add: opt_preloads_def)
  next
    case False
    then show ?thesis by (simp add: opt_preloads_def opt_blocks_def map_concat comp_def)
  qed
qed


definition opt_krn ::
  "fpu \<Rightarrow> snrt_cfg \<Rightarrow> nat \<Rightarrow> nat \<Rightarrow> gemm_fp_args \<Rightarrow> mem \<times> ssr_core \<Rightarrow> (mem \<times> ssr_core) option" where
  "opt_krn f c num_loops num_insns = gemm_fp64_opt f c num_loops num_insns"

text \<open>Where the streamed kernel may be called on a tile.\<close>

definition opt_tile :: "sc_st_gemm_args_t \<Rightarrow> nat \<Rightarrow> bool" where
  "opt_tile t q \<longleftrightarrow> \<not> t_transa t \<and> \<not> t_partition_banks t \<and> t_prec t = 8 \<and> t_setup_ssr t \<and>
     dptr (t_a t) \<and> dptr (t_b t) \<and> dptr (t_c t) \<and> t_n t = 8 * of_nat q \<and> 0 < q \<and> q < 2 ^ 29 \<and> 3 \<le> t_k t \<and>
     unat (t_m t) * unat (t_n t) < 2 ^ 32"

lemma opt_core:
  assumes h: "snrt_is_compute_core c h" and t: "opt_tile t q" "tile_apart c t" and st: "\<And>i. i < 3 \<Longrightarrow> ssr_fresh (ssrs st i)"
  shows "\<exists>st'. sc_st_gemm c h (opt_krn f c nl ni) t (mem, st) =
    Some (fold (\<lambda>p mem. st64 mem (ucast (tile_c_at c t p)) (tile_elem_opt f c t p mem)) (core_elems c h t) mem, st')"
proof (cases "core_rows c h t = []")
  case True
  then show ?thesis by (simp add: sc_st_gemm_core(1) [OF h] core_elems_def)
next
  case False
  define g where "g = core_args c h t"
  define idx P K where "idx = unat (snrt_cluster_core_idx c h)" and "P = unat (snrt_cluster_compute_core_num c)" and "K = unat (t_k t)"
  define F where "F = (\<lambda>p mem. st64 mem (ucast (tile_c_at c t p)) (tile_elem_opt f c t p mem))"
  define I where "I = {..<unat (t_m t)} \<times> {..<unat (t_n t)}"
  have ta: "\<not> t_transa t" "\<not> t_partition_banks t" "t_prec t = 8" "t_setup_ssr t" "dptr (t_a t)" "dptr (t_b t)" "dptr (t_c t)"
    "t_n t = 8 * of_nat q" "0 < q" "q < 2 ^ 29" "3 \<le> t_k t" "unat (t_m t) * unat (t_n t) < 2 ^ 32"
    using t(1) unfolding opt_tile_def by blast+
  have gs: "k_N g = t_n t" "k_K g = t_k t" "k_beta g = t_beta t" "k_setup_ssr g" "\<not> k_transa g" "\<not> k_partition_banks g" "k_transb g = t_transb t"
    using ta by (simp_all add: g_def core_args_def Let_def)
  have K: "3 \<le> K" using ta(11) by (simp add: K_def word_le_nat_alt)
  have uN: "unat (t_n t) = q * 8"
    using ta(10) unfolding ta(8) by (subst unat_mult_exact) (simp_all add: unat_of_nat_exact)
  have uq: "unat (k_N g div unroll) = q" by (simp add: gs unat_div uN)
  have M: "unat (k_M g) = length (core_rows c h t)" unfolding g_def by (rule sc_st_gemm_core(2) [OF h])
  have rows: "core_rows c h t = map (\<lambda>m. idx + m * P) [0..<unat (k_M g)]"
    unfolding M by (simp add: core_rows_def stride_list_def idx_def P_def)
  have sub: "set (core_rows c h t) \<subseteq> {..<unat (t_m t)}"
    unfolding core_rows_def using set_stride_list h by (auto simp: is_compute_idx)
  have M0: "k_M g \<noteq> 0" using False M by (metis length_0_conv unat_0)
  have "length (core_rows c h t) \<le> unat (t_m t)"
  proof -
    have "distinct (core_rows c h t)" unfolding core_rows_def by (rule distinct_stride_list) (use h in \<open>simp add: is_compute_idx\<close>)
    then show ?thesis using card_mono [OF _ sub] by (simp add: distinct_card)
  qed
  then have "unat (k_M g) * unat (k_N g) \<le> unat (t_m t) * unat (t_n t)" unfolding M gs by (intro mult_right_mono) simp_all
  then have MN: "unat (k_M g) * unat (k_N g) < 2 ^ 32" using ta(12) by simp
  have nz: "k_N g div unroll \<noteq> 0" "k_K g \<noteq> 0"
    using uq ta(9) K by (auto simp: gs K_def)
  define B where "B = (\<lambda>x. \<lparr>blk_pre = (case x of (m, n0) \<Rightarrow> if k_beta g = 0 then None else Some (preload_c g (of_nat m) (of_nat n0))),
     blk_a = opt_a g x, blk_b = opt_b g x, blk_w = opt_w g x\<rparr>)"
  have pre: "opt_preloads nl ni g = map blk_pre (map B (opt_blocks g))"
    using opt_preloads_blocks [of g q nl ni] ta(8-10) M0 MN gs(1) by (simp add: B_def comp_def)
  from gemm_streams_ok [OF gs(4-6) nz(1) M0 nz(2) st, of c] obtain st1 where s1: "gemm_streams c g st = Some st1" "ssr_en st1"
    "stream_is (concat (map (\<lambda>x. concat (map (\<lambda>k. replicate 8 (blk_a x k)) [0..<K])) (map B (opt_blocks g)))) 0 st1"
    "stream_is (concat (map (\<lambda>x. concat (map (\<lambda>k. map (blk_b x k) [0..<8]) [0..<K])) (map B (opt_blocks g)))) 1 st1"
    "stream_is (concat (map (\<lambda>x. map (blk_w x) [0..<8]) (map B (opt_blocks g)))) 2 st1"
    unfolding map_map comp_def B_def block.simps gs(2) K_def by blast
  have len: "case blk_pre x of None \<Rightarrow> True | Some p \<Rightarrow> length (p mem) = 8" if "x \<in> set (map B (opt_blocks g))" for x mem
    using that by (auto simp: B_def preload_c_def Let_def split: if_splits)
  from acc_blocks_ok [OF K s1(2-5) len, of f mem] obtain st2 where run: "acc_blocks f (K - 2) (opt_preloads nl ni g) mem st1 =
      Some (fold (\<lambda>x mem. fold (\<lambda>u mem'. st64 mem' (ucast (blk_w x u)) (block_val f mem (blk_pre x) K (blk_a x) (blk_b x) u)) [0..<8] mem)
        (map B (opt_blocks g)) mem, st2)"
    unfolding pre by blast
  have blk: "fold (\<lambda>u mem'. st64 mem' (ucast (blk_w (B x) u)) (block_val f mem (blk_pre (B x)) K (blk_a (B x)) (blk_b (B x)) u)) [0..<8] mem =
      fold F (map (\<lambda>u. (idx + fst x * P, snd x * 8 + u)) [0..<8]) mem" if "x \<in> set (opt_blocks g)" for x mem
  proof -
    have "x \<in> set [0..<unat (k_M g)] \<times> {..<q}" using that unfolding opt_blocks_def set_concat_rows uq .
    then obtain m n0 where x: "x = (m, n0)" "m < unat (k_M g)" "n0 < q" by auto
    define i where "i = idx + m * P"
    have "i \<in> set (core_rows c h t)" unfolding rows i_def using x(2) by auto
    then have im: "i < unat (t_m t)" using sub by auto
    have pI: "(i, n0 * 8 + u) \<in> I" if "u < 8" for u using im x(3) that by (simp add: I_def uN)
    note ad = opt_addrs [OF ta(1-3) i_def [unfolded idx_def P_def], folded g_def]
    have v: "block_val f mem (blk_pre (B x)) K (blk_a (B x)) (blk_b (B x)) u = tile_elem_opt f c t (i, n0 * 8 + u) mem" if "u < 8" for u mem
      using that by (simp add: block_val_def block_init_def B_def x(1) ad tile_elem_opt_def Let_def K_def gs(3) preload_c_def ad(4) [unfolded distrib_left] distrib_left)
    have "fold (\<lambda>u mem'. st64 mem' (ucast (blk_w (B x) u)) (block_val f mem (blk_pre (B x)) K (blk_a (B x)) (blk_b (B x)) u)) [0..<8] mem =
        fold (\<lambda>u mem'. st64 mem' (ucast (tile_c_at c t (i, n0 * 8 + u))) (tile_elem_opt f c t (i, n0 * 8 + u) mem)) [0..<8] mem"
      by (rule fold_cong) (simp_all add: v, simp add: B_def x(1) ad)
    also have "\<dots> = fold (\<lambda>u mem'. st64 mem' (ucast (tile_c_at c t (i, n0 * 8 + u))) (tile_elem_opt f c t (i, n0 * 8 + u) mem')) [0..<8] mem"
    proof (rule dstore.fold_wr_before)
      fix k j m' v assume "k \<in> set [0..<8 :: nat]" "j \<in> set [0..<8 :: nat]" "k \<noteq> j"
      then show "tile_elem_opt f c t (i, n0 * 8 + j) (st64 m' (ucast (tile_c_at c t (i, n0 * 8 + k))) v) = tile_elem_opt f c t (i, n0 * 8 + j) m'"
        using pI [of k] pI [of j] nz(2) unfolding I_def gs(2)
        by (intro tile_elem_opt_frame [OF t(2) ta(5-7)]) simp_all
    qed simp
    also have "\<dots> = fold F (map (\<lambda>u. (idx + fst x * P, snd x * 8 + u)) [0..<8]) mem"
      by (simp add: fold_map comp_def F_def x(1) i_def del: upt_Suc)
    finally show ?thesis .
  qed
  have el: "core_elems c h t = concat (map (\<lambda>x. map (\<lambda>u. (idx + fst x * P, snd x * 8 + u)) [0..<8]) (opt_blocks g))"
    unfolding core_elems_def rows opt_blocks_def uq uN upt_by_8 concat_map_concat
    by (simp add: map_concat comp_def del: upt_Suc)
  have "fold (\<lambda>x mem. fold (\<lambda>u mem'. st64 mem' (ucast (blk_w x u)) (block_val f mem (blk_pre x) K (blk_a x) (blk_b x) u)) [0..<8] mem)
        (map B (opt_blocks g)) mem = fold (\<lambda>x. fold F (map (\<lambda>u. (idx + fst x * P, snd x * 8 + u)) [0..<8])) (opt_blocks g) mem"
    unfolding fold_map [where f = B] comp_def by (rule fold_cong) (auto simp: blk)
  also have "\<dots> = fold F (core_elems c h t) mem" unfolding el by (rule fold_concat_map)
  finally have res: "fold (\<lambda>x mem. fold (\<lambda>u mem'. st64 mem' (ucast (blk_w x u)) (block_val f mem (blk_pre x) K (blk_a x) (blk_b x) u)) [0..<8] mem)
        (map B (opt_blocks g)) mem = fold F (core_elems c h t) mem" .
  have ge: "unroll \<le> k_N g" using ta(9) by (simp add: word_le_nat_alt gs uN)
  have it: "frep_iters (k_K g - 3) = K - 2"
    using K ta(11) by (simp add: frep_iters_def gs K_def unat_sub)
  show ?thesis
    unfolding F_def [symmetric] using s1(1) run [unfolded res] ge it False
    by (simp add: sc_st_gemm_core(1) [OF h] opt_krn_def gemm_fp64_opt_def g_def [symmetric])
qed


lemma opt_cluster_run:
  assumes "compute_team c hs" "opt_tile t q" "tile_apart c t" "\<And>h i. i < 3 \<Longrightarrow> ssr_fresh (ssrs (sts h) i)"
  shows "sc_st_cluster c (opt_krn f c nl ni) t sts hs mem =
    Some (fold (\<lambda>p mem. st64 mem (ucast (tile_c_at c t p)) (tile_elem_opt f c t p mem)) (tile_order c hs t) mem)"
  by (rule sc_st_cluster_fold, rule opt_core [OF compute_teamD(1) [OF assms(1)] assms(2-4)])

lemma opt_tile_k: "opt_tile t q \<Longrightarrow> t_k t \<noteq> 0"
  by (auto simp: opt_tile_def)

text \<open>
  C2: A tile on the compute cores of a cluster with the streamed double-precision kernel, in any order of the
  cores, with or without the nested hardware loop: from fresh stream registers it ends, every element \<open>(i, j)\<close> of
  the tile is the chain of fused multiply-adds of row \<open>i\<close> of \<open>A\<close> and column \<open>j\<close> of \<open>B\<close>, starting from a product for a zero
  \<open>beta\<close> and from the old element otherwise; every other aligned word keeps its value. The number of columns is a
  multiple of the unrolling, the reduction is at least three.
\<close>

theorem sc_st_gemm_opt_correct:
  assumes "compute_team c hs" "opt_tile t q" "tile_apart c t" "\<forall>h. \<forall>i<3. ssr_fresh (ssrs (sts h) i)"
  shows "\<exists>mem'. sc_st_cluster c (opt_krn f c nl ni) t sts hs mem = Some mem' \<and>
    (\<forall>i < unat (t_m t). \<forall>j < unat (t_n t). ld64 mem' (ucast (tile_c_at c t (i, j))) = tile_elem_opt f c t (i, j) mem) \<and>
    (\<forall>p. dptr p \<longrightarrow> p \<notin> tile_c_at c t ` ({..<unat (t_m t)} \<times> {..<unat (t_n t)}) \<longrightarrow> ld64 mem' (ucast p) = ld64 mem (ucast p))"
proof -
  define F where "F = (\<lambda>p mem. st64 mem (ucast (tile_c_at c t p)) (tile_elem_opt f c t p mem))"
  note o = tile_order_elems [OF assms(1), of t]
  have d: "dptr (t_a t)" "dptr (t_b t)" "dptr (t_c t)" using assms(2) unfolding opt_tile_def by blast+
  have run: "sc_st_cluster c (opt_krn f c nl ni) t sts hs mem = Some (fold F (tile_order c hs t) mem)"
    unfolding F_def by (rule opt_cluster_run [OF assms(1-3)]) (use assms(4) in blast)
  have inj: "inj_on (tile_c_at c t) (set (tile_order c hs t))" using assms(3) by (simp add: o(2) tile_apart_def Let_def)
  have "ld64 (fold F (tile_order c hs t) mem) (ucast (tile_c_at c t x)) = tile_elem_opt f c t x mem"
    if "x \<in> set (tile_order c hs t)" for x
    unfolding F_def
    by (rule dstore.fold_wr_at_once [OF o(1) that inj]) (use d tile_elem_opt_frame [OF assms(3) d opt_tile_k [OF assms(2)]] o(2) in auto)
  moreover have "ld64 (fold F (tile_order c hs t) mem) (ucast p) = ld64 mem (ucast p)"
    if "dptr p" "p \<notin> tile_c_at c t ` ({..<unat (t_m t)} \<times> {..<unat (t_n t)})" for p
    unfolding F_def by (rule dstore.fold_wr_other) (use that o(2) d in auto)
  ultimately show ?thesis unfolding run by (intro exI [of _ "fold F (tile_order c hs t) mem"]) (simp add: o(2))
qed

text \<open>Arithmetic without rounding, and a factor \<open>beta\<close> of zero or one.\<close>

definition exact_fpu :: "fpu \<Rightarrow> bool" where
  "exact_fpu f \<longleftrightarrow> (\<forall>x y z. fmadd f x y z = fadd f z (fmul f x y)) \<and> (\<forall>x. fadd f 0 x = x)"

definition beta_unit :: "fpu \<Rightarrow> (u32 \<Rightarrow> u64) \<Rightarrow> u32 \<Rightarrow> bool" where
  "beta_unit f cv b \<longleftrightarrow> (\<forall>x. multiply_opt f x (cv b) = (if b = 0 then 0 else x))"

lemma tile_elem_opt_naive:
  assumes "exact_fpu f" "beta_unit f cv (t_beta t)" "t_k t \<noteq> 0"
  shows "tile_elem_opt f c t p mem = tile_elem f cv c t p mem"
proof -
  obtain i j where p: "p = (i, j)" by force
  have f: "\<And>x y. fmadd f x y = (\<lambda>z. fadd f z (fmul f x y))" "\<And>x. fadd f 0 x = x" using assms(1) by (auto simp: exact_fpu_def)
  have b: "\<And>x. multiply_opt f x (cv (t_beta t)) = (if t_beta t = 0 then 0 else x)" using assms(2) by (simp add: beta_unit_def)
  have "0 < unat (t_k t)" using assms(3) by (simp add: unat_gt_0)
  then have "[0..<unat (t_k t)] = 0 # [1..<unat (t_k t)]" by (simp add: upt_conv_Cons)
  then show ?thesis by (simp add: tile_elem_opt_def tile_elem_def p Let_def b f)
qed

text \<open>
  C21: The streamed kernel is equivalent to the plain one: with arithmetic that does not round and a \<open>beta\<close> of zero or
  one, the cores of a cluster leave the same memory with either.
\<close>

theorem sc_st_gemm_opt_equiv:
  assumes "compute_team c hs" "opt_tile t q" "tile_apart c t" "\<forall>h. \<forall>i<3. ssr_fresh (ssrs (sts h) i)"
    "exact_fpu f" "beta_unit f cv (t_beta t)"
  shows "sc_st_cluster c (opt_krn f c nl ni) t sts hs mem = sc_st_cluster c (naive_krn f cv c) t sts hs mem"
proof -
  have t: "\<not> t_transa t" "t_prec t = 8" using assms(2) unfolding opt_tile_def by blast+
  have "sc_st_cluster c (naive_krn f cv c) t sts hs mem =
      Some (fold (\<lambda>p mem. st64 mem (ucast (tile_c_at c t p)) (tile_elem f cv c t p mem)) (tile_order c hs t) mem)"
    by (rule sc_st_cluster_fold, rule exI, rule naive_core [OF compute_teamD(1) [OF assms(1)] t])
  moreover have "sc_st_cluster c (opt_krn f c nl ni) t sts hs mem =
      Some (fold (\<lambda>p mem. st64 mem (ucast (tile_c_at c t p)) (tile_elem_opt f c t p mem)) (tile_order c hs t) mem)"
    by (rule opt_cluster_run [OF assms(1-3)]) (use assms(4) in blast)
  ultimately show ?thesis by (simp only: tile_elem_opt_naive [OF assms(5,6) opt_tile_k [OF assms(2)]])
qed

lemma sample_tile_opt: "opt_tile sample_tile 1" "beta_unit int_fpu (\<lambda>x. ucast x) (t_beta sample_tile)" "exact_fpu int_fpu"
  using sample_tile_ok by (simp_all add: opt_tile_def sample_tile_def beta_unit_def exact_fpu_def int_fpu_def multiply_opt_def)

theorem sc_st_gemm_opt_correct_witness:
  "\<exists>mem'. sc_st_cluster sample_cfg (opt_krn int_fpu sample_cfg 2 24) sample_tile (\<lambda>_. reset_ssr_core) [3, 1, 2, 0, 7, 6, 5, 4] (\<lambda>_. 1) = Some mem' \<and>
     ld64 mem' 0x30B8 = tile_elem_opt int_fpu sample_cfg sample_tile (2, 7) (\<lambda>_. 1)"
proof -
  have p: "tile_c_at sample_cfg sample_tile (2, 7) = 0x30B8" "2 < unat (t_m sample_tile)" "7 < unat (t_n sample_tile)"
    by (simp_all add: sample_tile_def tile_c_at_def tile_col_def)
  have fr: "\<forall>h. \<forall>i<3. ssr_fresh (ssrs ((\<lambda>_ :: hart. reset_ssr_core) h) i)" by simp
  from sc_st_gemm_opt_correct [OF sample_compute_team sample_tile_opt(1) tile_ranges_apart [OF sample_tile_ok(1)] fr, of int_fpu 2 24 "\<lambda>_. 1"]
  obtain mem' where m: "sc_st_cluster sample_cfg (opt_krn int_fpu sample_cfg 2 24) sample_tile (\<lambda>_. reset_ssr_core) [3, 1, 2, 0, 7, 6, 5, 4] (\<lambda>_. 1) = Some mem'"
    "\<forall>i < unat (t_m sample_tile). \<forall>j < unat (t_n sample_tile). ld64 mem' (ucast (tile_c_at sample_cfg sample_tile (i, j))) =
       tile_elem_opt int_fpu sample_cfg sample_tile (i, j) (\<lambda>_. 1)" by blast
  from m(2) [rule_format, OF p(2,3)] m(1) p(1) show ?thesis by auto
qed

theorem sc_st_gemm_opt_equiv_witness:
  "sc_st_cluster sample_cfg (opt_krn int_fpu sample_cfg 1 16) sample_tile (\<lambda>_. reset_ssr_core) [3, 1, 2, 0, 7, 6, 5, 4] (\<lambda>_. 1) =
   sc_st_cluster sample_cfg (naive_krn int_fpu (\<lambda>x. ucast x) sample_cfg) sample_tile (\<lambda>_. reset_ssr_core) [3, 1, 2, 0, 7, 6, 5, 4] (\<lambda>_. 1)"
proof -
  have fr: "\<forall>h. \<forall>i<3. ssr_fresh (ssrs ((\<lambda>_ :: hart. reset_ssr_core) h) i)" by simp
  show ?thesis
    by (rule sc_st_gemm_opt_equiv [OF sample_compute_team sample_tile_opt(1) tile_ranges_apart [OF sample_tile_ok(1)] fr sample_tile_opt(3,2)])
qed

end
