(* ===== verification/Dot.thy ===== *)
theory Dot
  imports Kernel Pipeline Alloc
begin

text \<open>
  The dot product of \<open>sw/kernels/blas/dot/src/dot.h\<close>: the streamed kernels with one and with four accumulators, and the job
  of a cluster that copies the vectors to the TCDM, computes one partial sum per core and adds them up on core 0.
  Between two barriers only one kind of core accesses the memory, and the compute cores run in any order.
\<close>

section \<open>The kernels\<close>

text \<open>The configuration both kernels begin with.\<close>

definition dot_streams :: "u32 \<Rightarrow> u32 \<Rightarrow> u32 \<Rightarrow> ssr_core \<Rightarrow> ssr_core option" where
  "dot_streams n x y st = do {
     st \<leftarrow> snrt_ssr_loop_1d SNRT_SSR_DM0 n 8 st;
     st \<leftarrow> snrt_ssr_loop_1d SNRT_SSR_DM1 n 8 st;
     st \<leftarrow> snrt_ssr_read SNRT_SSR_DM0 SNRT_SSR_1D x st;
     st \<leftarrow> snrt_ssr_read SNRT_SSR_DM1 SNRT_SSR_1D y st;
     Some (snrt_ssr_enable st) }"

definition dot_seq :: "fpu \<Rightarrow> u32 \<Rightarrow> u32 \<Rightarrow> u32 \<Rightarrow> u32 \<Rightarrow> mem \<Rightarrow> ssr_core \<Rightarrow> (mem \<times> ssr_core) option" where
  "dot_seq f n x y output mem st = do {
     st \<leftarrow> dot_streams n x y st;
     (xs, st) \<leftarrow> ssr_pop (frep_iters (n - 1)) 0 st;
     (ys, st) \<leftarrow> ssr_pop (frep_iters (n - 1)) 1 st;
     let res_ssr = fold (\<lambda>(p, q) acc. fmadd f (ld64 mem (ucast p)) (ld64 mem (ucast q)) acc) (zip xs ys) 0
     in Some (wr_d mem output 0 res_ssr, snrt_ssr_disable st) }"

text \<open>The hardware loop over the four accumulators, \<open>k\<close> iterations left.\<close>

fun dot_frep :: "fpu \<Rightarrow> mem \<Rightarrow> nat \<Rightarrow> u64 list \<Rightarrow> ssr_core \<Rightarrow> (u64 list \<times> ssr_core) option" where
  "dot_frep f mem 0 res st = Some (res, st)"
| "dot_frep f mem (Suc k) res st = do {
     (xs, st) \<leftarrow> ssr_pop 4 0 st;
     (ys, st) \<leftarrow> ssr_pop 4 1 st;
     dot_frep f mem k (map (\<lambda>((p, q), acc). fmadd f (ld64 mem (ucast p)) (ld64 mem (ucast q)) acc) (zip (zip xs ys) res)) st }"

definition dot_seq_4_acc :: "fpu \<Rightarrow> u32 \<Rightarrow> u32 \<Rightarrow> u32 \<Rightarrow> u32 \<Rightarrow> mem \<Rightarrow> ssr_core \<Rightarrow> (mem \<times> ssr_core) option" where
  "dot_seq_4_acc f n x y output mem st = do {
     st \<leftarrow> dot_streams n x y st;
     (res, st) \<leftarrow> dot_frep f mem (frep_iters (drop_bit 2 n - 1)) [0, 0, 0, 0] st;
     let res_ssr_0 = fadd f (res ! 0) (res ! 1);
         res_ssr_2 = fadd f (res ! 2) (res ! 3);
         res_ssr_0 = fadd f res_ssr_0 res_ssr_2
     in Some (wr_d mem output 0 res_ssr_0, snrt_ssr_disable st) }"

section \<open>The cluster\<close>

record dot_bufs =
  dot_x :: u32
  dot_y :: u32
  partial_sums :: u32

definition dot_buffers :: "snrt_allocator_t \<Rightarrow> u32 \<Rightarrow> dot_bufs" where
  "dot_buffers l1 n =
     (let local_x = snrt_l1_next l1;
          local_y = local_x + 8 * n
      in \<lparr>dot_x = local_x, dot_y = local_y, partial_sums = local_y + 8 * n\<rparr>)"

definition dot_copy_in ::
  "dma_sys \<Rightarrow> dot_bufs \<Rightarrow> u32 \<Rightarrow> u32 \<Rightarrow> u32 \<Rightarrow> u32 list \<Rightarrow> dma_state \<Rightarrow> dma_state option" where
  "dot_copy_in sys l n x y evs s =
     (let sz = n * 8;
          (_, s) = snrt_dma_start_1d_ptr (dot_x l) x sz 0 s;
          (_, s) = snrt_dma_start_1d_ptr (dot_y l) y sz 0 s
      in map_option snd (snrt_dma_wait_all sys 0 evs s))"

text \<open>The partial sum of a core, and the compute cores one after the other in the order given.\<close>

definition dot_core ::
  "fpu \<Rightarrow> snrt_cfg \<Rightarrow> dot_bufs \<Rightarrow> u32 \<Rightarrow> hart \<Rightarrow> mem \<Rightarrow> ssr_core \<Rightarrow> (mem \<times> ssr_core) option" where
  "dot_core f c l n h mem st =
     (let core_idx = snrt_cluster_core_idx c h;
          frac_core = n div snrt_cluster_compute_core_num c;
          offset_core = core_idx * frac_core
      in dot_seq_4_acc f frac_core (dot_x l + 8 * offset_core) (dot_y l + 8 * offset_core)
           (partial_sums l + 8 * core_idx) mem st)"

fun dot_cores ::
  "fpu \<Rightarrow> snrt_cfg \<Rightarrow> dot_bufs \<Rightarrow> u32 \<Rightarrow> (hart \<Rightarrow> ssr_core) \<Rightarrow> hart list \<Rightarrow> mem \<Rightarrow> mem option" where
  "dot_cores f c l n sts [] mem = Some mem"
| "dot_cores f c l n sts (h # hs) mem = do {
     (mem, st) \<leftarrow> dot_core f c l n h mem (sts h);
     dot_cores f c l n sts hs mem }"

text \<open>The reduction on core 0.\<close>

definition dot_reduce :: "fpu \<Rightarrow> snrt_cfg \<Rightarrow> dot_bufs \<Rightarrow> mem \<Rightarrow> mem" where
  "dot_reduce f c l mem =
     fold (\<lambda>i mem. wr_d mem (partial_sums l) 0 (fadd f (rd_d mem (partial_sums l) 0) (rd_d mem (partial_sums l) (of_nat i))))
       [1..<unat (snrt_cluster_compute_core_num c)] mem"

definition dot ::
  "fpu \<Rightarrow> snrt_cfg \<Rightarrow> dma_sys \<Rightarrow> snrt_allocator_t \<Rightarrow> (hart \<Rightarrow> ssr_core) \<Rightarrow> hart list \<Rightarrow> u32 \<Rightarrow> u32 \<Rightarrow> u32 \<Rightarrow> u32 \<Rightarrow>
   u32 list \<Rightarrow> dma_state \<Rightarrow> dma_state option" where
  "dot f c sys l1 sts hs n x y result evs s =
     (let l = dot_buffers l1 n in do {
        s \<leftarrow> dot_copy_in sys l n x y evs s;
        mem \<leftarrow> dot_cores f c l n sts hs (dm_mem s);
        let mem = dot_reduce f c l mem
        in Some (s\<lparr>dm_mem := wr_d mem result 0 (rd_d mem (partial_sums l) 0)\<rparr>) })"

section \<open>The streams of a kernel\<close>

text \<open>More operands than the elements of a stream block.\<close>

lemma stream_1d_ends:
  assumes "ssr_fresh (ssrs st i)" "b0 \<noteq> 0" "j_rep j = 0" "unat b0 < k"
  shows "ssr_pop k i (st\<lparr>ssrs := (ssrs st)(i := prog (start_job False 0 p (job_1d b0 s0 j)) (ssrs st i))\<rparr>) = None"
proof -
  let ?j = "start_job False 0 p (job_1d b0 s0 j)"
  let ?x = "prog ?j (ssrs st i)"
  let ?as = "affine_nest p [(iters ?j 3, 0), (iters ?j 2, 0), (iters ?j 1, 0), (iters ?j 0, s0)]"
  have len: "length ?as = unat b0"
    unfolding iters_jobs(1) [OF assms(2)] by (simp add: length_affine_nest del: affine_nest.simps)
  have "fst (agen_stream k ?x) = ?as"
    using stream_job [OF ssr_freshD(1) [OF assms(1)] strides_jobs(1) [OF assms(2), where w = False and p = p and j = j and ?s0.0 = s0
        and ?s1.0 = 0 and ?s2.0 = 0 and ?s3.0 = 0], of k] assms(4)
    unfolding iters_jobs(1) [OF assms(2)] by auto
  moreover have "j_write (active ?x) = False" "j_write (shadow ?x) = False" "j_rep (active ?x) = 0" "j_rep (shadow ?x) = 0" "rep_q ?x = 0"
    using assms(1,3) by (simp_all add: prog_def)
  ultimately have "length (fst (ssr_operands k ?x)) = unat b0"
    using ssr_operands_rep [of ?x 0 k] len by (simp add: length_concat comp_def sum_list_triv split: prod.splits del: affine_nest.simps)
  then show ?thesis using assms(4) by (auto simp: ssr_pop_def split: prod.splits)
qed

lemma dot_streams_ok:
  assumes "n \<noteq> 0" "\<And>i. i < 2 \<Longrightarrow> ssr_fresh (ssrs st i)"
  shows "\<exists>st'. dot_streams n x y st = Some st' \<and>
    stream_is (map (\<lambda>k. x + 8 * of_nat k) [0..<unat n]) 0 st' \<and>
    stream_is (map (\<lambda>k. y + 8 * of_nat k) [0..<unat n]) 1 st' \<and> (\<forall>k>unat n. ssr_pop k 0 st' = None)"
proof -
  have i: "ssr_fresh (ssrs st 0)" "ssr_fresh (ssrs st (Suc 0))" using assms(2) by simp_all
  have d8: "dptr 8" by (simp add: dptr_mod)
  define st0 where "st0 = st\<lparr>ssrs := (ssrs st)(0 := prog (start_job False 0 x (job_1d n 8 (active (ssrs st 0)))) (ssrs st 0))\<rparr>"
  define st1 where "st1 = st0\<lparr>ssrs := (ssrs st0)(1 := prog (start_job False 0 y (job_1d n 8 (active (ssrs st 1)))) (ssrs st0 1))\<rparr>"
  have "dot_streams n x y st = Some (snrt_ssr_enable st1)"
    using i [THEN ssr_freshD(1)] d8
    by (simp add: dot_streams_def ssr_reg_defs loop_jobs read_write_jobs start_job_def job_1d_def
      st1_def st0_def set_job_def prog_def ssr_idle_def fun_upd_twist)
  moreover have "stream_is (map (\<lambda>k. x + 8 * of_nat k) [0..<unat n]) 0 st1"
    using stream_1d [of st 0 n False "active (ssrs st 0)" x 8] i(1) assms(1) stream_is_other [of st1 0 st0]
    by (simp add: st1_def st0_def mult.commute)
  moreover have "stream_is (map (\<lambda>k. y + 8 * of_nat k) [0..<unat n]) 1 st1"
    using stream_1d [of st0 1 n False "active (ssrs st 1)" y 8] i(2) assms(1)
    by (simp add: st1_def st0_def mult.commute)
  moreover have "ssr_pop k 0 (snrt_ssr_enable st1) = None" if "unat n < k" for k
    using stream_1d_ends [of st 0 n "active (ssrs st 0)" k x 8] i(1) assms(1) that
    by (auto simp: ssr_pop_def st1_def st0_def snrt_ssr_enable_def split: prod.splits if_splits)
  ultimately show ?thesis by auto
qed

section \<open>The sums\<close>

text \<open>
  The value of accumulator \<open>u\<close> out of \<open>w\<close> that take the products of \<open>n\<close> elements in turn, and the value of a kernel.
\<close>

definition dot_acc :: "fpu \<Rightarrow> mem \<Rightarrow> u32 \<Rightarrow> u32 \<Rightarrow> nat \<Rightarrow> nat \<Rightarrow> nat \<Rightarrow> u64" where
  "dot_acc f mem x y w n u =
     fold (\<lambda>k. fmadd f (rd_d mem x (of_nat (w * k + u))) (rd_d mem y (of_nat (w * k + u)))) [0..<n div w] 0"

definition dot_4 :: "fpu \<Rightarrow> mem \<Rightarrow> u32 \<Rightarrow> u32 \<Rightarrow> nat \<Rightarrow> u64" where
  "dot_4 f mem x y n =
     fadd f (fadd f (dot_acc f mem x y 4 n 0) (dot_acc f mem x y 4 n 1))
            (fadd f (dot_acc f mem x y 4 n 2) (dot_acc f mem x y 4 n 3))"

lemma upt_4: "[0..<4] = [0, 1, 2, Suc (Suc (Suc 0))]"
  by (simp add: upt_conv_Cons)

lemma upt_by_4: "[4 * i..<4 * (i + Suc k)] = map (\<lambda>u. 4 * i + u) [0..<4] @ [4 * Suc i..<4 * (Suc i + k)]"
proof -
  have "[4 * i..<4 * i + 4] = map (\<lambda>u. 4 * i + u) [0..<4]"
    using map_add_upt [of "4 * i" 4] by (simp add: add.commute del: upt_Suc)
  moreover have "4 * Suc i = 4 * i + 4" "4 * (i + Suc k) = (4 * i + 4) + 4 * k" by simp_all
  ultimately show ?thesis using upt_add_eq_append [of "4 * i" "4 * i + 4" "4 * k"] by (simp add: ac_simps del: upt_Suc)
qed

lemma dot_frep_ok:
  assumes "stream_is (map a [4 * i..<4 * (i + k)] @ as) 0 st" "stream_is (map b [4 * i..<4 * (i + k)] @ bs) 1 st"
  shows "\<exists>st'. dot_frep f mem k (map F [0..<4]) st =
    Some (map (\<lambda>u. fold (\<lambda>j. fmadd f (ld64 mem (ucast (a (4 * j + u)))) (ld64 mem (ucast (b (4 * j + u))))) [i..<i + k] (F u)) [0..<4], st')"
  using assms
proof (induction k arbitrary: i F st)
  case (Suc k)
  let ?a = "map (\<lambda>u. a (4 * i + u)) [0..<4]" and ?b = "map (\<lambda>u. b (4 * i + u)) [0..<4]"
  have s0: "stream_is (?a @ map a [4 * Suc i..<4 * (Suc i + k)] @ as) 0 st"
    and s1: "stream_is (?b @ map b [4 * Suc i..<4 * (Suc i + k)] @ bs) 1 st"
    using Suc.prems unfolding upt_by_4 by (simp_all add: comp_def del: upt_Suc)
  obtain st1 where 1: "ssr_pop 4 0 st = Some (?a, st1)" "ssrs st1 1 = ssrs st 1"
      "stream_is (map a [4 * Suc i..<4 * (Suc i + k)] @ as) 0 st1"
    using pop_stream [OF s0] by auto
  have "stream_is (?b @ map b [4 * Suc i..<4 * (Suc i + k)] @ bs) 1 st1" using s1 stream_is_other [OF 1(2)] by simp
  then obtain st2 where 2: "ssr_pop 4 1 st1 = Some (?b, st2)" "ssrs st2 0 = ssrs st1 0"
      "stream_is (map b [4 * Suc i..<4 * (Suc i + k)] @ bs) 1 st2"
    using pop_stream [of ?b _ 1 st1] by auto
  have 3: "stream_is (map a [4 * Suc i..<4 * (Suc i + k)] @ as) 0 st2" using 1(3) stream_is_other [OF 2(2)] by simp
  have z: "map (\<lambda>((p, q), acc). fmadd f (ld64 mem (ucast p)) (ld64 mem (ucast q)) acc) (zip (zip ?a ?b) (map F [0..<4])) =
      map (\<lambda>u. fmadd f (ld64 mem (ucast (a (4 * i + u)))) (ld64 mem (ucast (b (4 * i + u)))) (F u)) [0..<4]"
    by (simp add: zip_map_map zip_same_conv_map comp_def del: upt_Suc)
  have u: "[i..<i + Suc k] = i # [Suc i..<Suc i + k]" by (simp add: upt_conv_Cons)
  from Suc.IH [OF 3 2(3), of "\<lambda>u. fmadd f (ld64 mem (ucast (a (4 * i + u)))) (ld64 mem (ucast (b (4 * i + u)))) (F u)"]
  show ?case unfolding u by (simp add: 1(1) 2(1) [unfolded One_nat_def] z del: upt_Suc)
qed simp

lemma dot_seq_4_acc_ok:
  assumes "4 \<le> unat n" "\<And>i. i < 2 \<Longrightarrow> ssr_fresh (ssrs st i)"
  shows "\<exists>st'. dot_seq_4_acc f n x y output mem st = Some (wr_d mem output 0 (dot_4 f mem x y (unat n)), st')"
proof -
  have n: "n \<noteq> 0" using assms(1) by auto
  have q: "unat (drop_bit 2 n) = unat n div 4" by (simp add: drop_bit_eq_div unat_div)
  then have "0 < unat (drop_bit 2 n)" using assms(1) by simp
  then have "drop_bit 2 n \<noteq> 0" by (auto simp: unat_gt_0)
  from frep_iters_dec [OF this] have it: "frep_iters (drop_bit 2 n - 1) = unat n div 4" using q by (simp only:)
  obtain st1 where 1: "dot_streams n x y st = Some st1"
    "stream_is (map (\<lambda>k. x + 8 * of_nat k) [0..<unat n]) 0 st1" "stream_is (map (\<lambda>k. y + 8 * of_nat k) [0..<unat n]) 1 st1"
    using dot_streams_ok [where x = x and y = y, OF n assms(2)] by blast
  have "4 * (unat n div 4) + unat n mod 4 = unat n" by simp
  then have u: "[0..<unat n] = [4 * 0..<4 * (0 + unat n div 4)] @ [4 * (unat n div 4)..<unat n]"
    using upt_add_eq_append [of 0 "4 * (unat n div 4)" "unat n mod 4"] by (simp del: upt_Suc)
  note s = 1(2,3) [unfolded u map_append]
  have z: "[0, 0, 0, 0] = map (\<lambda>_. 0 :: u64) [0..<4]" by (simp add: upt_4)
  from dot_frep_ok [OF s, of f mem "\<lambda>_. 0"] obtain st2 where
    "dot_frep f mem (unat n div 4) (map (\<lambda>_. 0) [0..<4]) st1 = Some (map (dot_acc f mem x y 4 (unat n)) [0..<4], st2)"
    unfolding dot_acc_def [abs_def] rd_d_def by (auto simp only: add_0)
  then show ?thesis
    unfolding dot_seq_4_acc_def it z by (simp add: 1(1) dot_4_def upt_4 Let_def numeral_2_eq_2 numeral_3_eq_3)
qed

text \<open>
  With less than four elements the kernel does not end: the loop counter wraps, and the first pass waits for an operand
  that the stream does not have.
\<close>

lemma dot_seq_4_acc_blocks:
  assumes "n \<noteq> 0" "unat n < 4" "\<And>i. i < 2 \<Longrightarrow> ssr_fresh (ssrs st i)"
  shows "dot_seq_4_acc f n x y output mem st = None"
proof -
  obtain st1 where 1: "dot_streams n x y st = Some st1" "\<forall>k>unat n. ssr_pop k 0 st1 = None"
    using dot_streams_ok [where x = x and y = y, OF assms(1,3)] by blast
  then have "ssr_pop 4 0 st1 = None" using assms(2) by blast
  then have "dot_frep f mem (Suc k) cs st1 = None" for k cs by simp
  then show ?thesis by (simp add: dot_seq_4_acc_def 1(1) frep_iters_def del: dot_frep.simps)
qed

lemma dot_seq_ok:
  assumes "n \<noteq> 0" "\<And>i. i < 2 \<Longrightarrow> ssr_fresh (ssrs st i)"
  shows "\<exists>st'. dot_seq f n x y output mem st = Some (wr_d mem output 0 (dot_acc f mem x y 1 (unat n) 0), st')"
proof -
  let ?a = "map (\<lambda>k. x + 8 * of_nat k) [0..<unat n]" and ?b = "map (\<lambda>k. y + 8 * of_nat k) [0..<unat n]"
  obtain st1 where 1: "dot_streams n x y st = Some st1" "stream_is (?a @ []) 0 st1" "stream_is (?b @ []) 1 st1"
    using dot_streams_ok [where x = x and y = y, OF assms] by auto
  obtain st2 where 2: "ssr_pop (unat n) 0 st1 = Some (?a, st2)" "ssrs st2 1 = ssrs st1 1" using pop_stream [OF 1(2)] by auto
  have "stream_is (?b @ []) 1 st2" using 1(3) stream_is_other [OF 2(2)] by simp
  then obtain st3 where 3: "ssr_pop (unat n) 1 st2 = Some (?b, st3)" using pop_stream [of ?b "[]" 1 st2] by auto
  have z: "zip ?a ?b = map (\<lambda>k. (x + 8 * of_nat k, y + 8 * of_nat k)) [0..<unat n]"
    by (simp add: zip_map_map zip_same_conv_map comp_def)
  show ?thesis
    by (simp add: dot_seq_def 1(1) frep_iters_dec [OF assms(1)] 2(1) 3 [unfolded One_nat_def] z fold_map comp_def dot_acc_def rd_d_def)
qed

section \<open>The buffers\<close>

text \<open>
  The three buffers are one array of doublewords from the address the allocator is at; the vectors are not in it, and
  no array wraps around the address space.
\<close>

definition dot_room :: "snrt_cfg \<Rightarrow> u32 \<Rightarrow> nat" where
  "dot_room c n = 2 * unat n + unat (snrt_cluster_compute_core_num c)"

definition dot_space :: "snrt_cfg \<Rightarrow> u32 \<Rightarrow> u32 \<Rightarrow> u32 \<Rightarrow> u32 \<Rightarrow> bool" where
  "dot_space c b n x y \<longleftrightarrow> dptr b \<and> unat b + 8 * dot_room c n \<le> 2 ^ 32 \<and>
     (\<forall>p\<in>{x, y}. unat p + 8 * unat n \<le> 2 ^ 32 \<and> apart p (8 * unat n) b (8 * dot_room c n))"

lemma rd_d_slot: "rd_d m (p + 8 * of_nat j) (of_nat i) = rd_d m p (of_nat (j + i))"
  by (simp add: rd_d_def algebra_simps)

lemma wr_d_slot: "wr_d m (p + 8 * of_nat j) (of_nat i) v = wr_d m p (of_nat (j + i)) v"
  by (simp add: wr_d_def algebra_simps)

lemma slot_inj:
  assumes "p + 8 * of_nat i = p + 8 * (of_nat j :: u32)" "8 * i < 2 ^ 32" "8 * j < 2 ^ 32"
  shows "i = j"
proof -
  have "of_nat (8 * i) = (of_nat (8 * j) :: u32)" using assms(1) by simp
  then have "8 * i = 8 * j" by (rule word_of_nat_inj) (use assms(2,3) in simp_all)
  then show ?thesis by simp
qed

lemma slot_frame:
  assumes "dptr p" "i \<noteq> j" "8 * i < 2 ^ 32" "8 * j < 2 ^ 32"
  shows "rd_d (wr_d m p (of_nat i) v) p (of_nat j) = rd_d m p (of_nat j)"
  unfolding rd_d_def wr_d_def
proof (rule dstore.rd_wr_other)
  show "p + 8 * of_nat i \<noteq> p + 8 * of_nat j" using slot_inj [of p i j] assms(2-4) by auto
qed (use assms(1) in \<open>simp_all only: dptr_add\<close>)

lemma slot_same: "dptr p \<Longrightarrow> rd_d (wr_d m p (of_nat i) v) p (of_nat i) = v"
  unfolding rd_d_def wr_d_def by (rule dstore.rd_wr_same) (simp only: dptr_add)

section \<open>The partial sums\<close>

text \<open>The partial sum of core \<open>i\<close> with \<open>q\<close> elements per core, on vectors at \<open>x\<close> and \<open>y\<close>, and the sum of all of them.\<close>

definition dot_part :: "fpu \<Rightarrow> mem \<Rightarrow> u32 \<Rightarrow> u32 \<Rightarrow> nat \<Rightarrow> nat \<Rightarrow> u64" where
  "dot_part f mem x y q i = dot_4 f mem (x + 8 * of_nat (i * q)) (y + 8 * of_nat (i * q)) q"

definition dot_value :: "fpu \<Rightarrow> mem \<Rightarrow> u32 \<Rightarrow> u32 \<Rightarrow> nat \<Rightarrow> nat \<Rightarrow> u64" where
  "dot_value f mem x y n P =
     fold (\<lambda>i acc. fadd f acc (dot_part f mem x y (n div P) i)) [1..<P] (dot_part f mem x y (n div P) 0)"

lemma dot_acc_cong:
  assumes "\<And>j. j < n \<Longrightarrow> rd_d m x (of_nat j) = rd_d m' x' (of_nat j)" "\<And>j. j < n \<Longrightarrow> rd_d m y (of_nat j) = rd_d m' y' (of_nat j)"
    "u < w"
  shows "dot_acc f m x y w n u = dot_acc f m' x' y' w n u"
  unfolding dot_acc_def
proof (rule fold_cong [OF refl refl])
  fix k assume "k \<in> set [0..<n div w]"
  then have "Suc k * w \<le> n div w * w" by (intro mult_right_mono) simp_all
  also have "\<dots> \<le> n" by simp
  finally have "w * k + u < n" using assms(3) by (simp add: mult.commute)
  from assms(1,2) [OF this] show "fmadd f (rd_d m x (of_nat (w * k + u))) (rd_d m y (of_nat (w * k + u))) =
      fmadd f (rd_d m' x' (of_nat (w * k + u))) (rd_d m' y' (of_nat (w * k + u)))" by (simp only:)
qed

lemma dot_part_cong:
  assumes "\<And>j. j < n \<Longrightarrow> rd_d m x (of_nat j) = rd_d m' x' (of_nat j)" "\<And>j. j < n \<Longrightarrow> rd_d m y (of_nat j) = rd_d m' y' (of_nat j)"
    "Suc i * q \<le> n"
  shows "dot_part f m x y q i = dot_part f m' x' y' q i"
proof -
  have lt: "i * q + j < n" if "j < q" for j using assms(3) that by simp
  have "dot_acc f m (x + 8 * of_nat (i * q)) (y + 8 * of_nat (i * q)) 4 q u =
      dot_acc f m' (x' + 8 * of_nat (i * q)) (y' + 8 * of_nat (i * q)) 4 q u" if "u < 4" for u
    by (rule dot_acc_cong [OF _ _ that]) (simp_all only: rd_d_slot assms(1,2) lt)
  then show ?thesis by (simp add: dot_part_def dot_4_def)
qed

lemma dot_core_ok:
  assumes "unat (snrt_cluster_core_idx c h) = i" "P = unat (snrt_cluster_compute_core_num c)" "i < P" "4 * P \<le> unat n"
    "\<And>j. j < 2 \<Longrightarrow> ssr_fresh (ssrs st j)"
  shows "\<exists>st'. dot_core f c l n h mem st =
    Some (wr_d mem (partial_sums l) (of_nat i) (dot_part f mem (dot_x l) (dot_y l) (unat n div P) i), st')"
proof -
  define q where "q = n div snrt_cluster_compute_core_num c"
  have q: "unat q = unat n div P" by (simp add: q_def unat_div assms(2))
  have P: "0 < P" using assms(3) by simp
  then have "4 \<le> unat q" using assms(4) unfolding q by (simp add: less_eq_div_iff_mult_less_eq)
  from dot_seq_4_acc_ok [OF this assms(5)] obtain st' where
    "dot_seq_4_acc f q (dot_x l + 8 * (snrt_cluster_core_idx c h * q)) (dot_y l + 8 * (snrt_cluster_core_idx c h * q))
        (partial_sums l + 8 * snrt_cluster_core_idx c h) mem st =
      Some (wr_d mem (partial_sums l + 8 * snrt_cluster_core_idx c h) 0
        (dot_4 f mem (dot_x l + 8 * (snrt_cluster_core_idx c h * q)) (dot_y l + 8 * (snrt_cluster_core_idx c h * q)) (unat n div P)), st')"
    unfolding q by blast
  moreover have "snrt_cluster_core_idx c h = of_nat i" "q = of_nat (unat n div P)"
    using assms(1) q by (metis of_nat_unat ucast_id)+
  moreover have "wr_d mem (partial_sums l + 8 * of_nat i) 0 v = wr_d mem (partial_sums l) (of_nat i) v" for v
    using wr_d_slot [of mem "partial_sums l" i 0 v] by simp
  ultimately show ?thesis
    unfolding dot_core_def Let_def q_def [symmetric] by (simp add: dot_part_def q)
qed

lemma dot_cores_fold:
  assumes "P = unat (snrt_cluster_compute_core_num c)" "4 * P \<le> unat n" "\<And>h j. j < 2 \<Longrightarrow> ssr_fresh (ssrs (sts h) j)"
    "\<And>h. h \<in> set hs \<Longrightarrow> unat (snrt_cluster_core_idx c h) < P"
  shows "dot_cores f c l n sts hs mem =
    Some (fold (\<lambda>i mem. wr_d mem (partial_sums l) (of_nat i) (dot_part f mem (dot_x l) (dot_y l) (unat n div P) i))
      (map (\<lambda>h. unat (snrt_cluster_core_idx c h)) hs) mem)"
  using assms(4)
proof (induction hs arbitrary: mem)
  case (Cons h hs)
  have "unat (snrt_cluster_core_idx c h) < P" using Cons.prems by simp
  from dot_core_ok [OF refl assms(1) this assms(2) assms(3) [of _ h], where f = f and l = l and mem = mem] obtain st' where
    "dot_core f c l n h mem (sts h) = Some (wr_d mem (partial_sums l) (of_nat (unat (snrt_cluster_core_idx c h)))
      (dot_part f mem (dot_x l) (dot_y l) (unat n div P) (unat (snrt_cluster_core_idx c h))), st')" by blast
  then show ?case using Cons by simp
qed simp

text \<open>The parts of the array of buffers.\<close>

lemma dot_slots:
  fixes l1 n
  defines "l \<equiv> dot_buffers l1 n" and "b \<equiv> snrt_l1_next l1"
  shows "rd_d m (dot_x l) (of_nat i) = rd_d m b (of_nat i)" "rd_d m (dot_y l) (of_nat i) = rd_d m b (of_nat (unat n + i))"
    "rd_d m (partial_sums l) (of_nat i) = rd_d m b (of_nat (2 * unat n + i))"
    "wr_d m (partial_sums l) (of_nat i) v = wr_d m b (of_nat (2 * unat n + i)) v"
proof -
  have p: "dot_x l = b" "dot_y l = b + 8 * of_nat (unat n)" "partial_sums l = b + 8 * of_nat (2 * unat n)"
    by (simp_all add: dot_buffers_def l_def b_def Let_def)
  show "rd_d m (dot_x l) (of_nat i) = rd_d m b (of_nat i)" "rd_d m (dot_y l) (of_nat i) = rd_d m b (of_nat (unat n + i))"
    "rd_d m (partial_sums l) (of_nat i) = rd_d m b (of_nat (2 * unat n + i))"
    "wr_d m (partial_sums l) (of_nat i) v = wr_d m b (of_nat (2 * unat n + i)) v"
    unfolding p rd_d_slot wr_d_slot by (rule refl)+
qed

lemma dot_cores_sums:
  fixes l1 n
  defines "l \<equiv> dot_buffers l1 n"
  assumes "dptr (snrt_l1_next l1)" "8 * (2 * unat n + P) \<le> 2 ^ 32" "mset js = mset [0..<P]" "i < P"
  shows "rd_d (fold (\<lambda>i mem. wr_d mem (partial_sums l) (of_nat i) (dot_part f mem (dot_x l) (dot_y l) (unat n div P) i)) js mem)
      (partial_sums l) (of_nat i) = dot_part f mem (dot_x l) (dot_y l) (unat n div P) i"
proof -
  let ?b = "snrt_l1_next l1" and ?w = "\<lambda>i. snrt_l1_next l1 + 8 * of_nat (2 * unat n + i) :: u32"
  have dist: "distinct js" by (simp add: mset_eq_imp_distinct_iff [OF assms(4)])
  have set: "set js = {..<P}" unfolding mset_eq_setD [OF assms(4)] by auto
  have inj: "inj_on ?w (set js)"
  proof (rule inj_onI)
    fix j k assume "j \<in> set js" "k \<in> set js" "?w j = ?w k"
    then show "j = k" using slot_inj [of ?b "2 * unat n + j" "2 * unat n + k"] set assms(3) by simp
  qed
  have frame: "dot_part f (st64 m (ucast (?w k)) v) (dot_x l) (dot_y l) (unat n div P) j =
      dot_part f m (dot_x l) (dot_y l) (unat n div P) j" if "k \<in> set js" "j \<in> set js" for k j m v
  proof (rule dot_part_cong)
    have kj: "k < P" "Suc j \<le> P" using that set by auto
    show "Suc j * (unat n div P) \<le> unat n"
      using mult_right_mono [OF kj(2), of "unat n div P"] times_div_less_eq_dividend [of P "unat n"] by linarith
    fix i assume i: "i < unat n"
    have r: "rd_d (st64 m (ucast (?w k)) v) ?b (of_nat s) = rd_d m ?b (of_nat s)" if "s < 2 * unat n" for s
      using slot_frame [OF assms(2), of "2 * unat n + k" s m v] kj(1) assms(3) that by (simp add: wr_d_def)
    show "rd_d (st64 m (ucast (?w k)) v) (dot_x l) (of_nat i) = rd_d m (dot_x l) (of_nat i)"
      "rd_d (st64 m (ucast (?w k)) v) (dot_y l) (of_nat i) = rd_d m (dot_y l) (of_nat i)"
      unfolding l_def dot_slots by (rule r, use i in simp)+
  qed
  show ?thesis
    unfolding l_def dot_slots(3,4) unfolding rd_d_def wr_d_def l_def [symmetric]
    by (rule dstore.fold_wr_at [OF dist _ inj _ frame]) (use assms(2,5) set in \<open>simp_all only: dptr_add lessThan_iff\<close>)
qed

lemma dot_reduce_value:
  fixes l1 n
  defines "l \<equiv> dot_buffers l1 n"
  assumes "dptr (snrt_l1_next l1)" "8 * (2 * unat n + P) \<le> 2 ^ 32" "set js \<subseteq> {1..<P}"
  shows "rd_d (fold (\<lambda>i mem. wr_d mem (partial_sums l) 0 (fadd f (rd_d mem (partial_sums l) 0) (rd_d mem (partial_sums l) (of_nat i)))) js mem)
      (partial_sums l) 0 =
    fold (\<lambda>i acc. fadd f acc (rd_d mem (partial_sums l) (of_nat i))) js (rd_d mem (partial_sums l) 0)"
  using assms(4)
proof (induction js arbitrary: mem)
  case (Cons j js)
  let ?p = "partial_sums l"
  let ?m = "wr_d mem ?p 0 (fadd f (rd_d mem ?p 0) (rd_d mem ?p (of_nat j)))"
  have "?p = snrt_l1_next l1 + 8 * (2 * n)" by (simp add: l_def dot_buffers_def Let_def)
  then have d: "dptr ?p" using assms(2) by (simp only: dptr_add)
  have "rd_d ?m ?p (of_nat i) = rd_d mem ?p (of_nat i)" if "i \<in> set js" for i
    using slot_frame [OF d, of 0 i mem] that Cons.prems assms(3) by auto
  then have "fold (\<lambda>i acc. fadd f acc (rd_d ?m ?p (of_nat i))) js a = fold (\<lambda>i acc. fadd f acc (rd_d mem ?p (of_nat i))) js a" for a
    by (intro fold_cong) simp_all
  moreover have "rd_d ?m ?p 0 = fadd f (rd_d mem ?p 0) (rd_d mem ?p (of_nat j))" using slot_same [OF d, of mem 0] by simp
  ultimately show ?case using Cons by simp
qed simp

text \<open>The copies of the vectors.\<close>

lemma dot_copy_mem:
  assumes "unicast sys" "quiet s" "2 \<le> count_list evs 0"
  shows "\<exists>s'. dot_copy_in sys l n x y evs s = Some s' \<and> quiet s' \<and>
    dm_mem s' = copy_bytes (ucast (dot_y l)) (ucast y) (unat (n * 8)) (copy_bytes (ucast (dot_x l)) (ucast x) (unat (n * 8)) (dm_mem s))"
  using two_copies_wait [OF assms] by (simp add: dot_copy_in_def Let_def case_prod_unfold)

text \<open>A write to a part of an array of doublewords changes nothing else.\<close>

lemma wr_slot_out:
  assumes "unat b + 8 * R \<le> 2 ^ 32" "j < R" "a \<notin> bytes (ucast b) (8 * R)"
  shows "wr_d m b (of_nat j) v a = m a"
proof -
  have "bytes (ucast (b + 8 * of_nat j)) 8 \<subseteq> bytes (ucast b) (8 * R)" by (rule bytes_part) (use assms(1,2) in simp_all)
  then have "a \<notin> bytes (ucast (b + 8 * of_nat j)) 8" using assms(3) by blast
  then show ?thesis by (simp add: wr_d_def st64_def bytes_def)
qed

lemma fold_slots_out:
  assumes "unat b + 8 * R \<le> 2 ^ 32" "\<And>j. j \<in> set js \<Longrightarrow> w j < R" "a \<notin> bytes (ucast b) (8 * R)"
  shows "fold (\<lambda>j m. wr_d m b (of_nat (w j)) (v j m)) js m a = m a"
  using assms(2) by (induction js arbitrary: m) (simp_all add: wr_slot_out [OF assms(1) _ assms(3)])

section \<open>The job\<close>

text \<open>The compute cores of the cluster, each with fresh stream registers, and the events the wait needs.\<close>

definition dot_run :: "snrt_cfg \<Rightarrow> dma_sys \<Rightarrow> (hart \<Rightarrow> ssr_core) \<Rightarrow> hart list \<Rightarrow> u32 \<Rightarrow> u32 list \<Rightarrow> dma_state \<Rightarrow> bool" where
  "dot_run c sys sts hs n evs s \<longleftrightarrow>
     mset (map (\<lambda>h. unat (snrt_cluster_core_idx c h)) hs) = mset [0..<unat (snrt_cluster_compute_core_num c)] \<and>
     snrt_cluster_compute_core_num c \<noteq> 0 \<and> 4 * unat (snrt_cluster_compute_core_num c) \<le> unat n \<and>
     (\<forall>h. \<forall>i<2. ssr_fresh (ssrs (sts h) i)) \<and> unicast sys \<and> quiet s \<and> 2 \<le> count_list evs 0"

lemma dot_core_indices:
  assumes "dot_run c sys sts hs n evs s" "h \<in> set hs"
  shows "unat (snrt_cluster_core_idx c h) < unat (snrt_cluster_compute_core_num c)"
proof -
  have m: "mset (map (\<lambda>h. unat (snrt_cluster_core_idx c h)) hs) = mset [0..<unat (snrt_cluster_compute_core_num c)]"
    using assms(1) by (simp add: dot_run_def)
  have "unat (snrt_cluster_core_idx c h) \<in> set (map (\<lambda>h. unat (snrt_cluster_core_idx c h)) hs)" using assms(2) by simp
  also have "\<dots> = set [0..<unat (snrt_cluster_compute_core_num c)]" by (rule mset_eq_setD [OF m])
  finally show ?thesis by simp
qed

text \<open>The copies hold the elements of the vectors.\<close>

lemma dot_copied:
  fixes l1 n
  defines "l \<equiv> dot_buffers l1 n"
  assumes "dot_space c (snrt_l1_next l1) n x y" "snrt_cluster_compute_core_num c \<noteq> 0"
    and m': "m' = copy_bytes (ucast (dot_y l)) (ucast y) (unat (n * 8)) (copy_bytes (ucast (dot_x l)) (ucast x) (unat (n * 8)) m)"
  shows "\<And>j. j < unat n \<Longrightarrow> rd_d m' (dot_x l) (of_nat j) = rd_d m x (of_nat j)"
    and "\<And>j. j < unat n \<Longrightarrow> rd_d m' (dot_y l) (of_nat j) = rd_d m y (of_nat j)"
    and "\<And>a. a \<notin> bytes (ucast (snrt_l1_next l1)) (8 * dot_room c n) \<Longrightarrow> m' a = m a"
proof -
  define b N R where "b = snrt_l1_next l1" and "N = unat n" and "R = dot_room c n"
  have P: "0 < unat (snrt_cluster_compute_core_num c)" using assms(3) by (simp add: unat_gt_0)
  then have R: "2 * N < R" by (simp add: N_def R_def dot_room_def)
  have sp: "unat b + 8 * R \<le> 2 ^ 32" "unat x + 8 * N \<le> 2 ^ 32" "unat y + 8 * N \<le> 2 ^ 32"
    "apart x (8 * N) b (8 * R)" "apart y (8 * N) b (8 * R)"
    using assms(2) by (simp_all add: dot_space_def b_def N_def R_def)
  have n8: "unat (n * 8) = 8 * N" using sp(1) R by (subst unat_mult_exact) (simp_all add: N_def)
  have d: "dot_x l = b" "dot_y l = b + 8 * of_nat N" by (simp_all add: l_def dot_buffers_def b_def Let_def N_def)
  have uy: "unat (dot_y l) = unat b + 8 * N" unfolding d by (rule ucast_elem(2)) (use sp(1) R in linarith)
  have sb: "bytes (ucast (dot_x l)) (8 * N) \<subseteq> bytes (ucast b) (8 * R)" "bytes (ucast (dot_y l)) (8 * N) \<subseteq> bytes (ucast b) (8 * R)"
    using R sp(1) bytes_no_wrap [of b "8 * R"] bytes_no_wrap [of "dot_x l" "8 * N"] bytes_no_wrap [of "dot_y l" "8 * N"] uy d(1)
    by auto
  have by_: "bytes (ucast y) (8 * N) \<inter> bytes (ucast (dot_x l)) (8 * N) = {}"
    using apart_bytes [OF sp(5,3,1)] sb(1) by blast
  have xy: "bytes (ucast (dot_x l)) (8 * N) \<inter> bytes (ucast (dot_y l)) (8 * N) = {}"
    by (rule apart_bytes) (use uy d(1) sp(1) R in \<open>simp_all add: apart_def\<close>)
  have lx: "unat (dot_x l) + 8 * N \<le> 2 ^ 32" "unat (dot_y l) + 8 * N \<le> 2 ^ 32" using uy d(1) sp(1) R by simp_all
  let ?m1 = "copy_bytes (ucast (dot_x l)) (ucast x) (8 * N) m"
  have m'': "m' = copy_bytes (ucast (dot_y l)) (ucast y) (8 * N) ?m1" by (simp add: m' n8)
  show "rd_d m' (dot_x l) (of_nat j) = rd_d m x (of_nat j)" if "j < unat n" for j
  proof -
    have "rd_d m' (dot_x l) (of_nat j) = rd_d ?m1 (dot_x l) (of_nat j)"
      unfolding m'' by (rule rd_d_out [OF copy_bytes_footprint lx(1) _ xy]) (use that in \<open>simp add: N_def\<close>)
    also have "\<dots> = rd_d m x (of_nat j)" by (rule copy_elem [OF lx(1) sp(2)]) (use that in \<open>simp add: N_def\<close>)
    finally show ?thesis .
  qed
  show "rd_d m' (dot_y l) (of_nat j) = rd_d m y (of_nat j)" if "j < unat n" for j
  proof -
    have "rd_d m' (dot_y l) (of_nat j) = rd_d ?m1 y (of_nat j)"
      unfolding m'' by (rule copy_elem [OF lx(2) sp(3)]) (use that in \<open>simp add: N_def\<close>)
    also have "\<dots> = rd_d m y (of_nat j)" by (rule rd_d_out [OF copy_bytes_footprint sp(3) _ by_]) (use that in \<open>simp add: N_def\<close>)
    finally show ?thesis .
  qed
  show "m' a = m a" if "a \<notin> bytes (ucast (snrt_l1_next l1)) (8 * dot_room c n)" for a
  proof -
    have "a \<notin> bytes (ucast (dot_x l)) (8 * N)" "a \<notin> bytes (ucast (dot_y l)) (8 * N)"
      using that sb unfolding b_def [symmetric] R_def [symmetric] by blast+
    then show ?thesis unfolding m'' by (simp add: footprint_out [OF copy_bytes_footprint])
  qed
qed

lemma dot_result:
  assumes "dot_space c (snrt_l1_next l1) n x y" "dot_run c sys sts hs n evs s"
  shows "\<exists>s'. dot f c sys l1 sts hs n x y result evs s = Some s' \<and>
    rd_d (dm_mem s') result 0 = dot_value f (dm_mem s) x y (unat n) (unat (snrt_cluster_compute_core_num c)) \<and>
    (\<forall>a. a \<notin> bytes (ucast (snrt_l1_next l1)) (8 * dot_room c n) \<longrightarrow> a \<notin> bytes (ucast result) 8 \<longrightarrow> dm_mem s' a = dm_mem s a)"
proof -
  define l P js where "l = dot_buffers l1 n" and "P = unat (snrt_cluster_compute_core_num c)"
    and "js = map (\<lambda>h. unat (snrt_cluster_core_idx c h)) hs"
  let ?b = "snrt_l1_next l1" and ?q = "unat n div P"
  have P0: "snrt_cluster_compute_core_num c \<noteq> 0" and P4: "4 * P \<le> unat n" and js: "mset js = mset [0..<P]"
    and fr: "\<And>h j. j < 2 \<Longrightarrow> ssr_fresh (ssrs (sts h) j)"
    and dma: "unicast sys" "quiet s" "2 \<le> count_list evs 0"
    using assms(2) by (simp_all add: dot_run_def P_def js_def)
  have P: "0 < P" using P0 by (simp add: P_def unat_gt_0)
  have sp: "dptr ?b" "unat ?b + 8 * (2 * unat n + P) \<le> 2 ^ 32" using assms(1) by (simp_all add: dot_space_def dot_room_def P_def)
  then have R: "8 * (2 * unat n + P) \<le> 2 ^ 32" by linarith
  obtain s1 where 1: "dot_copy_in sys l n x y evs s = Some s1"
    "dm_mem s1 = copy_bytes (ucast (dot_y l)) (ucast y) (unat (n * 8)) (copy_bytes (ucast (dot_x l)) (ucast x) (unat (n * 8)) (dm_mem s))"
    using dot_copy_mem [OF dma] by blast
  note copied = dot_copied [OF assms(1) P0 1(2) [unfolded l_def], folded l_def]
  define m2 where "m2 = fold (\<lambda>i mem. wr_d mem (partial_sums l) (of_nat i) (dot_part f mem (dot_x l) (dot_y l) ?q i)) js (dm_mem s1)"
  have 2: "dot_cores f c l n sts hs (dm_mem s1) = Some m2"
    using dot_cores_fold [OF P_def P4 fr] dot_core_indices [OF assms(2)] by (simp add: m2_def js_def P_def)
  have part: "rd_d m2 (partial_sums l) (of_nat i) = dot_part f (dm_mem s) x y ?q i" if "i < P" for i
  proof -
    have "Suc i * ?q \<le> P * ?q" using that by (intro mult_right_mono) simp_all
    also have "\<dots> \<le> unat n" by simp
    finally have "dot_part f (dm_mem s1) (dot_x l) (dot_y l) ?q i = dot_part f (dm_mem s) x y ?q i"
      by (intro dot_part_cong copied(1,2))
    then show ?thesis using dot_cores_sums [OF sp(1) R js that, folded l_def] by (simp add: m2_def)
  qed
  define m3 where "m3 = dot_reduce f c l m2"
  have 3: "rd_d m3 (partial_sums l) 0 = dot_value f (dm_mem s) x y (unat n) P"
  proof -
    have "rd_d m3 (partial_sums l) 0 =
        fold (\<lambda>i acc. fadd f acc (rd_d m2 (partial_sums l) (of_nat i))) [1..<P] (rd_d m2 (partial_sums l) 0)"
      unfolding m3_def dot_reduce_def l_def P_def [symmetric] by (rule dot_reduce_value [OF sp(1) R]) auto
    also have "\<dots> = fold (\<lambda>i acc. fadd f acc (dot_part f (dm_mem s) x y ?q i)) [1..<P] (dot_part f (dm_mem s) x y ?q 0)"
      using part [of 0] P by (intro fold_cong) (auto simp: part)
    finally show ?thesis by (simp add: dot_value_def)
  qed
  have out: "m3 a = dm_mem s a" if a: "a \<notin> bytes (ucast ?b) (8 * dot_room c n)" for a
  proof -
    have r: "dot_room c n = 2 * unat n + P" by (simp add: dot_room_def P_def)
    have "m3 a = m2 a"
      using fold_slots_out [OF sp(2), of "[1..<P]" "\<lambda>_. 2 * unat n + 0"] a P
      unfolding m3_def dot_reduce_def l_def dot_slots(4) [where i = 0, simplified] r P_def by simp
    also have "m2 a = dm_mem s1 a"
      unfolding m2_def l_def dot_slots(4)
      by (rule fold_slots_out [OF sp(2)]) (use a r mset_eq_setD [OF js] in auto)
    finally show ?thesis using copied(3) [OF a] by simp
  qed
  have "dot f c sys l1 sts hs n x y result evs s = Some (s1\<lparr>dm_mem := wr_d m3 result 0 (rd_d m3 (partial_sums l) 0)\<rparr>)"
    using 1(1) 2 by (simp add: dot_def l_def m3_def Let_def)
  moreover have "rd_d (wr_d m3 result 0 v) result 0 = v" for v by (simp add: rd_d_def wr_d_def ld64_st64_same)
  moreover have "wr_d m3 result 0 v a = m3 a" if "a \<notin> bytes (ucast result) 8" for v a
    using that by (simp add: wr_d_def st64_def bytes_def)
  ultimately show ?thesis using 3 out by (simp add: P_def)
qed

section \<open>Arithmetic that does not round\<close>

lemma dot_acc_sum:
  "dot_acc int_fpu m x y w n u = (\<Sum>k<n div w. rd_d m x (of_nat (k * w + u)) * rd_d m y (of_nat (k * w + u)))"
proof -
  have "fold (\<lambda>k acc. g k + acc) [0..<n] a = (\<Sum>k<n. g k) + a" for g :: "nat \<Rightarrow> u64" and n a
    by (induction n) (simp_all add: ac_simps)
  then show ?thesis by (simp add: dot_acc_def int_fpu_def mult.commute [of w])
qed

lemma dot_4_sum:
  assumes "4 dvd n"
  shows "dot_4 int_fpu m x y n = (\<Sum>j<n. rd_d m x (of_nat j) * rd_d m y (of_nat j))"
proof -
  let ?g = "\<lambda>j. rd_d m x (of_nat j) * rd_d m y (of_nat j)"
  have g4: "sum g {a..<a + 4} = g a + g (a + 1) + (g (a + 2) + g (a + 3))" for g :: "nat \<Rightarrow> u64" and a
    by (simp add: eval_nat_numeral sum.atLeastLessThan_Suc add.assoc)
  have fadd: "fadd int_fpu = (+)" by (simp add: int_fpu_def)
  have "dot_4 int_fpu m x y n = (\<Sum>k<n div 4. ?g (k * 4) + ?g (k * 4 + 1) + (?g (k * 4 + 2) + ?g (k * 4 + 3)))"
    by (simp only: dot_4_def dot_acc_sum sum.distrib fadd add_0_right)
  also have "\<dots> = (\<Sum>k<n div 4. sum ?g {k * 4..<k * 4 + 4})"
    unfolding g4 by (rule refl)
  also have "\<dots> = sum ?g {..<n div 4 * 4}" by (rule sum.nat_group)
  finally show ?thesis using assms by simp
qed

lemma dot_value_sum:
  assumes "0 < P" "4 * P dvd n"
  shows "dot_value int_fpu m x y n P = (\<Sum>j<n. rd_d m x (of_nat j) * rd_d m y (of_nat j))"
proof -
  let ?g = "\<lambda>j. rd_d m x (of_nat j) * rd_d m y (of_nat j)" and ?q = "n div P"
  obtain r where n: "n = 4 * r * P" using assms(2) by (auto simp: dvd_def mult.commute mult.left_commute)
  then have q: "?q = 4 * r" using assms(1) by simp
  have part: "dot_part int_fpu m x y ?q i = sum ?g {i * ?q..<i * ?q + ?q}" for i
  proof -
    have "dot_part int_fpu m x y ?q i = (\<Sum>j<?q. ?g (i * ?q + j))"
      unfolding dot_part_def q by (subst dot_4_sum) (simp_all only: dvd_triv_left rd_d_slot)
    also have "\<dots> = sum ?g {i * ?q..<i * ?q + ?q}"
      using sum.shift_bounds_nat_ivl [of ?g 0 "i * ?q" ?q] by (simp add: atLeast0LessThan add.commute del: of_nat_add of_nat_mult)
    finally show ?thesis .
  qed
  have fold: "fold (\<lambda>i acc. acc + h i) [1..<p] (h 0) = (\<Sum>i<p. h i)" if "0 < p" for h :: "nat \<Rightarrow> u64" and p
    using that by (induction p rule: nat_induct_non_zero) simp_all
  have "dot_value int_fpu m x y n P = (\<Sum>i<P. dot_part int_fpu m x y ?q i)"
    using fold [OF assms(1)] by (simp add: dot_value_def int_fpu_def)
  also have "\<dots> = sum ?g {..<P * ?q}" unfolding part by (rule sum.nat_group)
  also have "P * ?q = n" using assms(1) by (simp add: n)
  finally show ?thesis .
qed

section \<open>The result\<close>

text \<open>
  C22: The dot product of a cluster. The job ends and leaves in the result the sum, in the order of the cores, of the partial
  sums of the compute cores, each of them the sum of four chains of fused multiply-adds over every fourth element of the core's
  part of the vectors; outside of the buffers and the result the memory keeps its value. The compute cores run in any order;
  each needs at least four elements, with fewer the kernel waits for ever (lemma \<open>dot_seq_4_acc_blocks\<close>).
\<close>

theorem dot_cluster_correct:
  assumes "dot_space c (snrt_l1_next l1) n x y" "dot_run c sys sts hs n evs s"
  shows "\<exists>s'. dot f c sys l1 sts hs n x y result evs s = Some s' \<and>
    rd_d (dm_mem s') result 0 = dot_value f (dm_mem s) x y (unat n) (unat (snrt_cluster_compute_core_num c)) \<and>
    (\<forall>a. a \<notin> bytes (ucast (snrt_l1_next l1)) (8 * dot_room c n) \<longrightarrow> a \<notin> bytes (ucast result) 8 \<longrightarrow> dm_mem s' a = dm_mem s a)"
  by (rule dot_result [OF assms])

text \<open>
  C23: With the operations of integers, which do not round, and a number of elements that is a multiple of four times the number
  of compute cores, the result of the job is the inner product of the vectors.
\<close>

theorem dot_inner_product:
  assumes "dot_space c (snrt_l1_next l1) n x y" "dot_run c sys sts hs n evs s"
    "4 * unat (snrt_cluster_compute_core_num c) dvd unat n"
  shows "\<exists>s'. dot int_fpu c sys l1 sts hs n x y result evs s = Some s' \<and>
    rd_d (dm_mem s') result 0 = (\<Sum>j<unat n. rd_d (dm_mem s) x (of_nat j) * rd_d (dm_mem s) y (of_nat j))"
proof -
  have "0 < unat (snrt_cluster_compute_core_num c)" using assms(2) by (simp add: dot_run_def unat_gt_0)
  from dot_value_sum [OF this assms(3)] show ?thesis
    using dot_result [OF assms(1,2), of int_fpu result] by auto
qed

text \<open>The elements beyond the last multiple of the number of cores do not enter the sum.\<close>

lemma dot_ignores_tail: "0 < P \<Longrightarrow> dot_value f m x y n P = dot_value f m x y (n div P * P) P"
  by (simp add: dot_value_def)

definition dot_heap :: snrt_allocator_t where
  "dot_heap = \<lparr>a_base = 0x10000000, a_end = 0x10020000, a_next = 0x10000000\<rparr>"

lemma sample_dot:
  assumes "32 \<le> unat n" "unat n \<le> 512"
  shows "dot_space sample_cfg (snrt_l1_next dot_heap) n 0x80000000 0x80001000"
    "dot_run sample_cfg sample_sys (\<lambda>_. reset_ssr_core) [3, 1, 2, 0, 7, 6, 5, 4] n [0, 0] sample_dma"
proof -
  have c: "unat (snrt_cluster_compute_core_num sample_cfg) = 8" "snrt_cluster_compute_core_num sample_cfg \<noteq> 0"
    by (simp_all add: team_defs sample_cfg_def)
  have l: "snrt_l1_next dot_heap = 0x10000000" by (simp add: snrt_l1_next_def dot_heap_def)
  show "dot_space sample_cfg (snrt_l1_next dot_heap) n 0x80000000 0x80001000"
    using assms by (simp add: dot_space_def dot_room_def c l dptr_mod apart_def)
  show "dot_run sample_cfg sample_sys (\<lambda>_. reset_ssr_core) [3, 1, 2, 0, 7, 6, 5, 4] n [0, 0] sample_dma"
    using assms sample_team sample_dma_ok(1,2,3) c by (simp add: dot_run_def quiet_def)
qed

theorem dot_cluster_correct_witness:
  "\<exists>s'. dot int_fpu sample_cfg sample_sys dot_heap (\<lambda>_. reset_ssr_core) [3, 1, 2, 0, 7, 6, 5, 4] 37 0x80000000 0x80001000
       0x80002000 [0, 0] sample_dma = Some s' \<and>
     rd_d (dm_mem s') 0x80002000 0 = dot_value int_fpu (dm_mem sample_dma) 0x80000000 0x80001000 37 8"
  using dot_cluster_correct [OF sample_dot, of 37 int_fpu "0x80002000"] by (auto simp: team_defs sample_cfg_def)

theorem dot_inner_product_witness:
  "\<exists>s'. dot int_fpu sample_cfg sample_sys dot_heap (\<lambda>_. reset_ssr_core) [3, 1, 2, 0, 7, 6, 5, 4] 64 0x80000000 0x80001000
       0x80002000 [0, 0] sample_dma = Some s' \<and>
     rd_d (dm_mem s') 0x80002000 0 =
       (\<Sum>j<64. rd_d (dm_mem sample_dma) 0x80000000 (of_nat j) * rd_d (dm_mem sample_dma) 0x80001000 (of_nat j))"
  using dot_inner_product [OF sample_dot, of 64 "0x80002000"] by (auto simp: team_defs sample_cfg_def)

end
