(* ===== verification/Transpose.thy ===== *)
theory Transpose
  imports Kernel Pipeline Alloc
begin

text \<open>
  The transposition layer of \<open>sw/kernels/dnn/transpose/src/transpose.h\<close>: the plain kernel for elements of any size, the streamed kernel
  for doublewords, their distribution over the compute cores, and the layer with its transfers. No arithmetic is involved, so
  the theorems are about the bytes of the elements.
\<close>

section \<open>The kernels\<close>

datatype precision_t = FP64 | FP32 | FP16 | FP8

fun prec_size :: "precision_t \<Rightarrow> u32" where
  "prec_size FP64 = 8"
| "prec_size FP32 = 4"
| "prec_size FP16 = 2"
| "prec_size FP8 = 1"

text \<open>The template over the element type, by the size \<open>w\<close> of the type: an assignment copies its bytes.\<close>

definition transpose_baseline :: "u32 \<Rightarrow> u32 \<Rightarrow> u32 \<Rightarrow> u32 \<Rightarrow> u32 \<Rightarrow> u32 \<Rightarrow> mem \<Rightarrow> mem" where
  "transpose_baseline w input output M N M_stride =
     fold (\<lambda>m. fold (\<lambda>n. copy_bytes (ucast (output + (of_nat n * M_stride + of_nat m) * w))
         (ucast (input + (of_nat m * N + of_nat n) * w)) (unat w)) [0..<unat N]) [0..<unat M]"

definition transpose_fp64_opt :: "u32 \<Rightarrow> u32 \<Rightarrow> u32 \<Rightarrow> u32 \<Rightarrow> u32 \<Rightarrow> mem \<Rightarrow> ssr_core \<Rightarrow> (mem \<times> ssr_core) option" where
  "transpose_fp64_opt input output M N M_stride mem st = do {
     st \<leftarrow> snrt_ssr_loop_2d SNRT_SSR_DM0 N M 8 (N * 8) st;
     st \<leftarrow> snrt_ssr_loop_2d SNRT_SSR_DM1 N M (8 * M_stride) 8 st;
     st \<leftarrow> snrt_ssr_read SNRT_SSR_DM0 SNRT_SSR_2D input st;
     st \<leftarrow> snrt_ssr_write SNRT_SSR_DM1 SNRT_SSR_2D output st;
     (rs, st) \<leftarrow> ssr_pop (frep_iters (M * N - 1)) 0 (snrt_ssr_enable st);
     (ws, st) \<leftarrow> ssr_pop (frep_iters (M * N - 1)) 1 st;
     Some (fold (\<lambda>(p, q) mem. st64 mem (ucast q) (ld64 mem (ucast p))) (zip rs ws) mem, snrt_ssr_disable st) }"

definition transpose_kernel ::
  "snrt_cfg \<Rightarrow> hart \<Rightarrow> precision_t \<Rightarrow> u32 \<Rightarrow> u32 \<Rightarrow> u32 \<Rightarrow> u32 \<Rightarrow> bool \<Rightarrow> mem \<Rightarrow> ssr_core \<Rightarrow> (mem \<times> ssr_core) option" where
  "transpose_kernel c h dtype input output M N baseline mem st =
     (let frac_M = M div snrt_cluster_compute_core_num c
      in if snrt_is_compute_core c h then
           (let row_offset = snrt_cluster_core_idx c h * frac_M;
                input_offset = input + row_offset * N * prec_size dtype;
                output_offset = output + row_offset * prec_size dtype
            in if dtype = FP64 \<and> \<not> baseline
               then transpose_fp64_opt input_offset output_offset frac_M N M mem st
               else Some (transpose_baseline (prec_size dtype) input_offset output_offset frac_M N M mem, st))
         else Some (mem, st))"

section \<open>The layer\<close>

record transpose_layer_t =
  tl_M :: u32
  tl_N :: u32
  tl_input :: u32
  tl_output :: u32
  tl_dtype :: precision_t
  tl_baseline :: bool

text \<open>The cores of the cluster one after the other, in the order given.\<close>

fun transpose_cluster ::
  "snrt_cfg \<Rightarrow> (hart \<Rightarrow> ssr_core) \<Rightarrow> transpose_layer_t \<Rightarrow> u32 \<Rightarrow> u32 \<Rightarrow> hart list \<Rightarrow> mem \<Rightarrow> mem option" where
  "transpose_cluster c sts l input output [] mem = Some mem"
| "transpose_cluster c sts l input output (h # hs) mem = do {
     (mem, st) \<leftarrow> transpose_kernel c h (tl_dtype l) input output (tl_M l) (tl_N l) (tl_baseline l) mem (sts h);
     transpose_cluster c sts l input output hs mem }"

definition transpose_layer ::
  "snrt_cfg \<Rightarrow> dma_sys \<Rightarrow> (hart \<Rightarrow> ssr_core) \<Rightarrow> hart list \<Rightarrow> snrt_allocator_t \<Rightarrow> transpose_layer_t \<Rightarrow> u32 list \<Rightarrow> u32 list \<Rightarrow>
   dma_state \<Rightarrow> dma_state option" where
  "transpose_layer c sys sts hs A l evs evs' s =
     (let matrix_size = tl_M l * tl_N l * prec_size (tl_dtype l);
          input = snrt_l1_next A;
          output = input + matrix_size
      in do {
        (_, s) \<leftarrow> snrt_dma_wait_all sys 0 evs (snd (snrt_dma_start_1d_ptr input (tl_input l) matrix_size 0 s));
        mem \<leftarrow> transpose_cluster c sts l input output hs (dm_mem s);
        (_, s) \<leftarrow> snrt_dma_wait_all sys 0 evs' (snd (snrt_dma_start_1d_ptr (tl_output l) output matrix_size 0 (s\<lparr>dm_mem := mem\<rparr>)));
        Some s })"

section \<open>The elements of a matrix\<close>

text \<open>The copy of one element, by its row and column in the input.\<close>

definition t_elem :: "nat \<Rightarrow> u32 \<Rightarrow> u32 \<Rightarrow> nat \<Rightarrow> nat \<Rightarrow> nat \<times> nat \<Rightarrow> mem \<Rightarrow> mem" where
  "t_elem w input output M N = (\<lambda>(r, n).
     copy_bytes (ucast output + of_nat (w * (n * M + r))) (ucast input + of_nat (w * (r * N + n))) w)"

definition t_rows :: "nat \<Rightarrow> nat list \<Rightarrow> (nat \<times> nat) list" where
  "t_rows N rs = concat (map (\<lambda>r. map (Pair r) [0..<N]) rs)"

text \<open>A doubleword that is loaded and stored is a copy of its bytes.\<close>

lemma ld64_byte:
  "k < 8 \<Longrightarrow> ucast (drop_bit (8 * k) (ld64 m a)) = m (a + of_nat k)"
proof -
  assume k: "k < 8"
  have "bit (ld64 m a) (8 * k + j) = bit (m (a + of_nat k)) j" if "j < 8" for j
  proof -
    consider "k = 0" | "k = 1" | "k = 2" | "k = 3" | "k = 4" | "k = 5" | "k = 6" | "k = 7" using k by linarith
    moreover have "\<not> bit (x :: u8) i" if "8 \<le> i" for x i using that bit_imp_le_length [of x i] by auto
    ultimately show ?thesis using that by cases (auto simp: ld64_def bit_simps)
  qed
  then show ?thesis by (intro bit_word_eqI) (simp add: bit_simps)
qed

lemma st64_ld64: "st64 m d (ld64 m' p) = (\<lambda>b. if unat (b - d) < 8 then m' (p + (b - d)) else m b)"
  using ld64_byte [of "unat (b - d)" for b] by (auto simp: st64_def)

lemma st64_ld64_copy: "st64 m d (ld64 m p) = copy_bytes d p 8 m"
  by (simp add: st64_ld64 copy_bytes_def)

lemma t_rows_append: "t_rows N (rs @ rs') = t_rows N rs @ t_rows N rs'"
  by (simp add: t_rows_def)

lemma fold_t_rows: "fold f (t_rows N rs) = fold (\<lambda>r. fold (\<lambda>n. f (r, n)) [0..<N]) rs"
  by (induction rs) (simp_all add: t_rows_def fold_map comp_def)

text \<open>The operands and the result of the kernels in the TCDM: they do not wrap.\<close>

definition t_fits :: "nat \<Rightarrow> u32 \<Rightarrow> u32 \<Rightarrow> nat \<Rightarrow> nat \<Rightarrow> bool" where
  "t_fits w input output M N \<longleftrightarrow> unat input + w * (M * N) < 2 ^ 32 \<and> unat output + w * (M * N) < 2 ^ 32"

lemma t_index_less:
  assumes "r < M" "n < (N :: nat)"
  shows "n * M + r < M * N" "r * N + n < M * N"
proof -
  have "n * M + r < Suc n * M" "r * N + n < Suc r * N" using assms by simp_all
  moreover have "Suc n * M \<le> N * M" "Suc r * N \<le> M * N" using assms by (intro mult_right_mono; simp)+
  ultimately show "n * M + r < M * N" "r * N + n < M * N" by (simp_all only: mult.commute [of N M])
qed

lemma t_addr:
  assumes "t_fits w input output M N" "r < M" "n < N"
  shows "(ucast (output + of_nat (w * (n * M + r))) :: u64) = ucast output + of_nat (w * (n * M + r))"
    "(ucast (input + of_nat (w * (r * N + n))) :: u64) = ucast input + of_nat (w * (r * N + n))"
proof -
  have "w * (n * M + r) \<le> w * (M * N)" "w * (r * N + n) \<le> w * (M * N)"
    using t_index_less [OF assms(2,3)] by (intro mult_left_mono; simp)+
  moreover have "unat input + w * (M * N) < 4294967296" "unat output + w * (M * N) < 4294967296"
    using assms(1) by (simp_all add: t_fits_def)
  ultimately have "unat output + w * (n * M + r) < 4294967296" and "unat input + w * (r * N + n) < 4294967296" by linarith+
  then show "(ucast (output + of_nat (w * (n * M + r))) :: u64) = ucast output + of_nat (w * (n * M + r))"
    "(ucast (input + of_nat (w * (r * N + n))) :: u64) = ucast input + of_nat (w * (r * N + n))"
    by (simp_all only: ucast_u32_u64_of_nat)
qed

lemma shift_upt: "[a..<a + k] = map ((+) a) [0..<k]"
  by (induction k) simp_all

lemma baseline_rows:
  assumes "t_fits (unat w) input output (unat M) (unat N)" "r0 + unat F \<le> unat M"
  shows "transpose_baseline w (input + of_nat r0 * N * w) (output + of_nat r0 * w) F N M =
    fold (t_elem (unat w) input output (unat M) (unat N)) (t_rows (unat N) [r0..<r0 + unat F])"
proof -
  have step: "copy_bytes (ucast (output + of_nat r0 * w + (of_nat n * M + of_nat m) * w))
        (ucast (input + of_nat r0 * N * w + (of_nat m * N + of_nat n) * w)) (unat w) =
      t_elem (unat w) input output (unat M) (unat N) (r0 + m, n)" if "m < unat F" "n < unat N" for m n
  proof -
    have r: "r0 + m < unat M" using that(1) assms(2) by simp
    have "output + of_nat r0 * w + (of_nat n * M + of_nat m) * w = output + of_nat (unat w * (n * unat M + (r0 + m)))"
      "input + of_nat r0 * N * w + (of_nat m * N + of_nat n) * w = input + of_nat (unat w * ((r0 + m) * unat N + n))"
      by (simp_all add: algebra_simps)
    then show ?thesis by (simp only: t_addr [OF assms(1) r that(2)] t_elem_def split)
  qed
  show ?thesis
    unfolding transpose_baseline_def shift_upt [of r0 "unat F"] fold_t_rows fold_map comp_def
    by (intro ext fold_cong refl) (simp only: set_upt atLeastLessThan_iff step)
qed

section \<open>The streamed kernel\<close>

lemma zip_concat_maps:
  "zip (concat (map (\<lambda>m. map (f m) ks) ms)) (concat (map (\<lambda>m. map (g m) ks) ms)) = concat (map (\<lambda>m. map (\<lambda>k. (f m k, g m k)) ks) ms)"
  by (induction ms) (simp_all add: zip_map_map zip_same_conv_map comp_def)

lemma fold_concat_maps: "fold f (concat (map (\<lambda>m. map (g m) ks) ms)) = fold (\<lambda>m. fold (\<lambda>k. f (g m k)) ks) ms"
  by (induction ms) (simp_all add: fold_map comp_def)

lemma opt_rows:
  assumes "t_fits 8 input output (unat M) (unat N)" "r0 + unat F \<le> unat M" "F \<noteq> 0" "N \<noteq> 0"
    "\<And>i. i < 2 \<Longrightarrow> ssr_fresh (ssrs st i)"
  shows "\<exists>st'. transpose_fp64_opt (input + of_nat r0 * N * 8) (output + of_nat r0 * 8) F N M mem st =
    Some (fold (t_elem 8 input output (unat M) (unat N)) (t_rows (unat N) [r0..<r0 + unat F]) mem, st')"
proof -
  define inp where "inp = input + of_nat r0 * N * 8"
  define outp where "outp = output + of_nat r0 * 8"
  have i: "ssr_fresh (ssrs st 0)" "ssr_fresh (ssrs st (Suc 0))" using assms(5) by simp_all
  define st0 where "st0 = st\<lparr>ssrs := (ssrs st)(0 := prog (start_job False 1 inp (job_2d N F 8 (N * 8) (active (ssrs st 0)))) (ssrs st 0))\<rparr>"
  define st1 where "st1 = st0\<lparr>ssrs := (ssrs st0)(1 := prog (start_job True 1 outp (job_2d N F (8 * M) 8 (active (ssrs st 1)))) (ssrs st0 1))\<rparr>"
  let ?ks = "[0..<unat N]" and ?ms = "[0..<unat F]"
  define rs where "rs = concat (map (\<lambda>m. map (\<lambda>k. inp + of_nat m * (N * 8) + of_nat k * 8) ?ks) ?ms)"
  define ws where "ws = concat (map (\<lambda>m. map (\<lambda>k. outp + of_nat m * 8 + of_nat k * (8 * M)) ?ks) ?ms)"
  have cfg: "do { st \<leftarrow> snrt_ssr_loop_2d SNRT_SSR_DM0 N F 8 (N * 8) st;
      st \<leftarrow> snrt_ssr_loop_2d SNRT_SSR_DM1 N F (8 * M) 8 st;
      st \<leftarrow> snrt_ssr_read SNRT_SSR_DM0 SNRT_SSR_2D inp st;
      snrt_ssr_write SNRT_SSR_DM1 SNRT_SSR_2D outp st } = Some st1"
    using i [THEN ssr_freshD(1)]
    by (simp add: ssr_reg_defs loop_jobs read_write_jobs start_job_def job_2d_def
      st1_def st0_def set_job_def prog_def ssr_idle_def fun_upd_twist)
  have s0: "stream_is (rs @ []) 0 (snrt_ssr_enable st1)"
    using stream_2d [of st 0 N F False "active (ssrs st 0)" inp "N * 8" 8] i(1) assms(3,4) stream_is_other [of st1 0 st0]
    by (simp add: rs_def st1_def st0_def)
  have s1: "stream_is (ws @ []) 1 (snrt_ssr_enable st1)"
    using stream_2d [of st0 1 N F True "active (ssrs st 1)" outp 8 "8 * M"] i(2) assms(3,4)
    by (simp add: ws_def st1_def st0_def)
  have len: "length rs = unat F * unat N" "length ws = unat F * unat N"
    by (simp_all add: rs_def ws_def length_concat comp_def sum_list_triv)
  have it: "frep_iters (F * N - 1) = unat F * unat N"
  proof -
    have "unat F * unat N \<le> unat M * unat N" using assms(2) by (intro mult_right_mono) simp_all
    moreover have "unat input + 8 * (unat M * unat N) < 4294967296" using assms(1) by (simp add: t_fits_def)
    ultimately have "unat F * unat N < 4294967296" by linarith
    then have u: "unat (F * N) = unat F * unat N" by (subst unat_mult_exact) simp_all
    then have "F * N \<noteq> 0" using assms(3,4) by (auto simp: unat_eq_0 simp flip: unat_gt_0)
    from frep_iters_dec [OF this] show ?thesis using u by (simp only:)
  qed
  obtain t0 where t0: "ssr_pop (unat F * unat N) 0 (snrt_ssr_enable st1) = Some (rs, t0)" "\<forall>k. k \<noteq> 0 \<longrightarrow> ssrs t0 k = ssrs (snrt_ssr_enable st1) k"
    using pop_stream [OF s0] by (auto simp: len)
  have "stream_is (ws @ []) 1 t0" using s1 stream_is_other [of t0 1 "snrt_ssr_enable st1"] t0(2) by simp
  then obtain t1 where t1: "ssr_pop (unat F * unat N) 1 t0 = Some (ws, t1)" using pop_stream [of ws "[]" 1 t0] by (auto simp: len)
  have step: "st64 mem' (ucast (outp + of_nat m * 8 + of_nat k * (8 * M))) (ld64 mem' (ucast (inp + of_nat m * (N * 8) + of_nat k * 8))) =
      t_elem 8 input output (unat M) (unat N) (r0 + m, k) mem'" if "m < unat F" "k < unat N" for m k mem'
  proof -
    have r: "r0 + m < unat M" using that(1) assms(2) by simp
    have "outp + of_nat m * 8 + of_nat k * (8 * M) = output + of_nat (8 * (k * unat M + (r0 + m)))"
      "inp + of_nat m * (N * 8) + of_nat k * 8 = input + of_nat (8 * ((r0 + m) * unat N + k))"
      by (simp_all add: inp_def outp_def algebra_simps)
    then show ?thesis by (simp only: t_addr [OF assms(1) r that(2)] t_elem_def split st64_ld64_copy)
  qed
  have "fold (\<lambda>(p, q) mem. st64 mem (ucast q) (ld64 mem (ucast p))) (zip rs ws) =
      fold (t_elem 8 input output (unat M) (unat N)) (t_rows (unat N) [r0..<r0 + unat F])"
    unfolding rs_def ws_def zip_concat_maps fold_concat_maps shift_upt [of r0 "unat F"] fold_t_rows fold_map comp_def split
    by (intro ext fold_cong refl) (simp only: set_upt atLeastLessThan_iff step)
  moreover have "transpose_fp64_opt inp outp F N M mem st =
      Some (fold (\<lambda>(p, q) mem. st64 mem (ucast q) (ld64 mem (ucast p))) (zip rs ws) mem, snrt_ssr_disable t1)"
    using cfg unfolding transpose_fp64_opt_def it by (auto simp: bind_eq_Some_conv t0(1) t1 [unfolded One_nat_def])
  ultimately show ?thesis by (simp add: inp_def outp_def)
qed

section \<open>What the elements leave\<close>

lemma copy_at:
  assumes "d + w \<le> 2 ^ 32" "e < 2 ^ 32"
  shows "copy_bytes (q + of_nat d) (p + of_nat s) w m (q + of_nat e) =
    (if d \<le> e \<and> e < d + w then m (p + of_nat (s + (e - d))) else m (q + of_nat e))"
proof (cases "d \<le> e")
  case True
  have "q + of_nat e - (q + of_nat d) = (of_nat (e - d) :: u64)" using True by (simp add: of_nat_diff)
  moreover have "unat (of_nat (e - d) :: u64) = e - d" using assms(2) by (intro unat_of_nat_u64) simp
  ultimately show ?thesis using True by (auto simp: copy_bytes_def add.assoc add_diff_eq)
next
  case False
  define x where "x = q + of_nat e - (q + of_nat d)"
  have "\<not> unat x < w"
  proof
    assume lt: "unat x < w"
    have "of_nat (unat x + (d - e)) = x + of_nat (d - e)" by simp
    also have "\<dots> = 0" using False by (simp add: x_def of_nat_diff)
    finally have "unat (of_nat (unat x + (d - e)) :: u64) = 0" by simp
    moreover have "unat (of_nat (unat x + (d - e)) :: u64) = unat x + (d - e)"
      using lt assms(1) by (intro unat_of_nat_u64) simp
    ultimately show False using False by simp
  qed
  then show ?thesis using False by (simp add: copy_bytes_def x_def)
qed

lemma t_index_inj:
  assumes "n * M + r = n' * M + r'" "r < M" "r' < (M :: nat)"
  shows "n = n'" "r = r'"
proof -
  have "(n * M + r) div M = (n' * M + r') div M" "(n * M + r) mod M = (n' * M + r') mod M" using assms(1) by simp_all
  then show "n = n'" "r = r'" using assms(2,3) by simp_all
qed

text \<open>Byte \<open>b\<close> of an element of the output, and the bytes that are not in it.\<close>

definition t_apart :: "nat \<Rightarrow> u32 \<Rightarrow> u32 \<Rightarrow> nat \<Rightarrow> nat \<Rightarrow> bool" where
  "t_apart w input output M N \<longleftrightarrow> t_fits w input output M N \<and>
     bytes (ucast input) (w * (M * N)) \<inter> bytes (ucast output) (w * (M * N)) = {}"

lemma t_elem_out:
  assumes "t_fits w input output M N" "r < M" "n < N" "a \<notin> bytes (ucast output) (w * (M * N))"
  shows "t_elem w input output M N (r, n) m a = m a"
proof -
  let ?d = "w * (n * M + r)"
  have le: "?d + w \<le> w * (M * N)"
  proof -
    have "w * Suc (n * M + r) \<le> w * (M * N)" using t_index_less(1) [OF assms(2,3)] by (intro mult_left_mono) simp_all
    then show ?thesis by simp
  qed
  have lt: "w * (M * N) < 2 ^ 32" using assms(1) by (simp add: t_fits_def)
  have "\<not> unat (a - (ucast output + of_nat ?d)) < w"
  proof
    assume k: "unat (a - (ucast output + of_nat ?d)) < w"
    define k' where "k' = unat (a - (ucast output + of_nat ?d))"
    have "a - ucast output = of_nat (?d + k')" by (simp add: k'_def)
    moreover have "?d + k' < w * (M * N)" using k le by (simp add: k'_def)
    moreover from this have "unat (of_nat (?d + k') :: u64) = ?d + k'" using lt by (intro unat_of_nat_u64) simp
    ultimately have "a \<in> bytes (ucast output) (w * (M * N))" by (simp only: bytes_def mem_Collect_eq)
    then show False using assms(4) by simp
  qed
  then show ?thesis by (simp add: t_elem_def copy_bytes_out)
qed

lemma t_elems_out:
  assumes "t_fits w input output M N" "\<And>r n. (r, n) \<in> set ps \<Longrightarrow> r < M \<and> n < N" "a \<notin> bytes (ucast output) (w * (M * N))"
  shows "fold (t_elem w input output M N) ps m a = m a"
  using assms(2)
proof (induction ps arbitrary: m)
  case (Cons p ps)
  obtain r n where p: "p = (r, n)" by force
  have "r < M \<and> n < N" and ps: "\<And>r n. (r, n) \<in> set ps \<Longrightarrow> r < M \<and> n < N" using Cons.prems by (auto simp: p)
  then show ?case using Cons.IH [OF ps] t_elem_out [OF assms(1) _ _ assms(3), of r n m] by (simp add: p)
qed simp

lemma t_elem_at:
  assumes "t_fits w input output M N" "r < M" "n < N" "r' < M" "n' < N" "b < w"
  shows "t_elem w input output M N (r', n') m (ucast output + of_nat (w * (n * M + r) + b)) =
    (if (r', n') = (r, n) then m (ucast input + of_nat (w * (r * N + n) + b)) else m (ucast output + of_nat (w * (n * M + r) + b)))"
proof -
  have lt: "w * (M * N) < 2 ^ 32" using assms(1) by (simp add: t_fits_def)
  have le: "w * (n * M + r) + w \<le> w * (M * N)" if "r < M" "n < N" for r n
  proof -
    have "w * Suc (n * M + r) \<le> w * (M * N)" using t_index_less(1) [OF that] by (intro mult_left_mono) simp_all
    then show ?thesis by simp
  qed
  have at: "t_elem w input output M N (r', n') m (ucast output + of_nat (w * (n * M + r) + b)) =
      (if w * (n' * M + r') \<le> w * (n * M + r) + b \<and> w * (n * M + r) + b < w * (n' * M + r') + w
       then m (ucast input + of_nat (w * (r' * N + n') + (w * (n * M + r) + b - w * (n' * M + r'))))
       else m (ucast output + of_nat (w * (n * M + r) + b)))"
    unfolding t_elem_def split by (rule copy_at) (use le [OF assms(2,3)] le [OF assms(4,5)] lt assms(6) in linarith)+
  have div: "(w * (n * M + r) + b) div w = n * M + r" using assms(6) by simp
  have "w * (n' * M + r') \<le> w * (n * M + r) + b \<and> w * (n * M + r) + b < w * (n' * M + r') + w \<longleftrightarrow> n' * M + r' = n * M + r"
    using div div_nat_eqI [of w "n' * M + r'" "w * (n * M + r) + b"] assms(6) by (auto simp: mult.commute)
  also have "\<dots> \<longleftrightarrow> (r', n') = (r, n)" using t_index_inj [OF _ assms(4,2)] by auto
  finally show ?thesis using at by auto
qed

lemma t_elems_other:
  assumes "t_fits w input output M N" "r < M" "n < N" "b < w" "\<And>r n. (r, n) \<in> set ps \<Longrightarrow> r < M \<and> n < N" "(r, n) \<notin> set ps"
  shows "fold (t_elem w input output M N) ps m (ucast output + of_nat (w * (n * M + r) + b)) =
    m (ucast output + of_nat (w * (n * M + r) + b))"
  using assms(5,6)
proof (induction ps rule: rev_induct)
  case (snoc q ps)
  obtain r' n' where q: "q = (r', n')" by force
  have rn': "r' < M" "n' < N" using snoc.prems(1) [of r' n'] by (simp_all add: q)
  show ?case using snoc t_elem_at [OF assms(1-3) rn' assms(4)] by (auto simp: q)
qed simp

lemma t_elems_value:
  assumes "t_apart w input output M N" "\<And>r n. (r, n) \<in> set ps \<Longrightarrow> r < M \<and> n < N" "(r, n) \<in> set ps" "b < w"
  shows "fold (t_elem w input output M N) ps m (ucast output + of_nat (w * (n * M + r) + b)) =
    m (ucast input + of_nat (w * (r * N + n) + b))"
  using assms(2,3)
proof (induction ps rule: rev_induct)
  case (snoc q ps)
  obtain r' n' where q: "q = (r', n')" by force
  have rn: "r < M" "n < N" using snoc.prems(1) [OF snoc.prems(2)] by simp_all
  have rn': "r' < M" "n' < N" using snoc.prems(1) [of r' n'] by (simp_all add: q)
  have f: "t_fits w input output M N" using assms(1) by (simp add: t_apart_def)
  let ?m = "fold (t_elem w input output M N) ps m"
  have src: "?m (ucast input + of_nat (w * (r * N + n) + b)) = m (ucast input + of_nat (w * (r * N + n) + b))"
  proof (rule t_elems_out [OF f])
    have "w * Suc (r * N + n) \<le> w * (M * N)" using t_index_less(2) [OF rn] by (intro mult_left_mono) simp_all
    then have "w * (r * N + n) + b < w * (M * N)" using assms(4) by simp
    moreover from this have "unat (of_nat (w * (r * N + n) + b) :: u64) = w * (r * N + n) + b"
      using f by (intro unat_of_nat_u64) (simp add: t_fits_def)
    ultimately have "ucast input + of_nat (w * (r * N + n) + b) \<in> bytes (ucast input) (w * (M * N))"
      by (simp only: bytes_def mem_Collect_eq add_diff_cancel_left')
    then show "ucast input + of_nat (w * (r * N + n) + b) \<notin> bytes (ucast output) (w * (M * N))"
      using assms(1) by (auto simp: t_apart_def)
  qed (use snoc.prems in auto)
  show ?case
    using snoc src t_elem_at [OF f rn rn' assms(4), of ?m] by (auto simp: q)
qed simp

section \<open>The cluster\<close>

text \<open>The compute cores among the harts are those of the cluster; the streamed kernel needs fresh streams and something to do.\<close>

definition t_team :: "snrt_cfg \<Rightarrow> (hart \<Rightarrow> ssr_core) \<Rightarrow> hart list \<Rightarrow> transpose_layer_t \<Rightarrow> bool" where
  "t_team c sts hs l \<longleftrightarrow>
     mset (map (\<lambda>h. unat (snrt_cluster_core_idx c h)) (filter (snrt_is_compute_core c) hs)) =
       mset [0..<unat (snrt_cluster_compute_core_num c)] \<and>
     snrt_cluster_compute_core_num c \<noteq> 0 \<and>
     (tl_dtype l = FP64 \<and> \<not> tl_baseline l \<longrightarrow>
        tl_M l div snrt_cluster_compute_core_num c \<noteq> 0 \<and> tl_N l \<noteq> 0 \<and> (\<forall>h. \<forall>i<2. ssr_fresh (ssrs (sts h) i)))"

definition t_core_rows :: "snrt_cfg \<Rightarrow> nat \<Rightarrow> hart \<Rightarrow> nat list" where
  "t_core_rows c q h =
     (if snrt_is_compute_core c h
      then [unat (snrt_cluster_core_idx c h) * q..<unat (snrt_cluster_core_idx c h) * q + q] else [])"

definition t_order :: "snrt_cfg \<Rightarrow> transpose_layer_t \<Rightarrow> hart list \<Rightarrow> (nat \<times> nat) list" where
  "t_order c l hs = t_rows (unat (tl_N l))
     (concat (map (t_core_rows c (unat (tl_M l) div unat (snrt_cluster_compute_core_num c))) hs))"

definition t_size :: "transpose_layer_t \<Rightarrow> nat" where
  "t_size l = unat (prec_size (tl_dtype l))"

lemma kernel_rows:
  assumes "t_fits (t_size l) input output (unat (tl_M l)) (unat (tl_N l))" "snrt_cluster_compute_core_num c \<noteq> 0"
    "tl_dtype l = FP64 \<and> \<not> tl_baseline l \<longrightarrow>
        tl_M l div snrt_cluster_compute_core_num c \<noteq> 0 \<and> tl_N l \<noteq> 0 \<and> (\<forall>i<2. ssr_fresh (ssrs st i))"
    "q = unat (tl_M l) div unat (snrt_cluster_compute_core_num c)"
    "snrt_is_compute_core c h \<Longrightarrow> unat (snrt_cluster_core_idx c h) < unat (snrt_cluster_compute_core_num c)"
  shows "\<exists>st'. transpose_kernel c h (tl_dtype l) input output (tl_M l) (tl_N l) (tl_baseline l) mem st =
    Some (fold (t_elem (t_size l) input output (unat (tl_M l)) (unat (tl_N l))) (t_rows (unat (tl_N l)) (t_core_rows c q h)) mem, st')"
proof (cases "snrt_is_compute_core c h")
  case False
  then show ?thesis by (simp add: transpose_kernel_def t_core_rows_def t_rows_def)
next
  case True
  define P i F where "P = unat (snrt_cluster_compute_core_num c)" and "i = unat (snrt_cluster_core_idx c h)"
    and "F = tl_M l div snrt_cluster_compute_core_num c"
  have i: "i < P" using assms(5) [OF True] by (simp add: i_def P_def)
  have F: "unat F = q" by (simp add: F_def assms(4) unat_div)
  have "Suc i * q \<le> P * q" using i by (intro mult_right_mono) simp_all
  also have "\<dots> \<le> unat (tl_M l)" by (simp add: assms(4) P_def)
  finally have le: "i * q + unat F \<le> unat (tl_M l)" by (simp add: F)
  have off: "snrt_cluster_core_idx c h * F = of_nat (i * q)" using F by (simp add: i_def flip: F)
  have rows: "t_core_rows c q h = [i * q..<i * q + unat F]" using True by (simp add: t_core_rows_def i_def F)
  show ?thesis
  proof (cases "tl_dtype l = FP64 \<and> \<not> tl_baseline l")
    case opt: True
    have f8: "t_fits 8 input output (unat (tl_M l)) (unat (tl_N l))" using assms(1) opt by (simp add: t_size_def)
    have "F \<noteq> 0" "tl_N l \<noteq> 0" "\<And>i. i < 2 \<Longrightarrow> ssr_fresh (ssrs st i)" using assms(3) opt by (auto simp: F_def)
    from opt_rows [OF f8 le this, of mem] show ?thesis
      using opt True by (simp add: transpose_kernel_def F_def [symmetric] off rows t_size_def Let_def)
  next
    case False
    from baseline_rows [OF assms(1) [unfolded t_size_def] le] show ?thesis
      using False True by (auto simp: transpose_kernel_def F_def [symmetric] off rows t_size_def Let_def)
  qed
qed

lemma cluster_rows:
  assumes "t_fits (t_size l) input output (unat (tl_M l)) (unat (tl_N l))" "t_team c sts hs l"
  shows "transpose_cluster c sts l input output hs mem =
    Some (fold (t_elem (t_size l) input output (unat (tl_M l)) (unat (tl_N l))) (t_order c l hs) mem)"
proof -
  have P: "snrt_cluster_compute_core_num c \<noteq> 0" and s: "\<And>h. tl_dtype l = FP64 \<and> \<not> tl_baseline l \<longrightarrow>
        tl_M l div snrt_cluster_compute_core_num c \<noteq> 0 \<and> tl_N l \<noteq> 0 \<and> (\<forall>i<2. ssr_fresh (ssrs (sts h) i))"
    using assms(2) unfolding t_team_def by blast+
  have idx: "snrt_is_compute_core c h \<Longrightarrow> unat (snrt_cluster_core_idx c h) < unat (snrt_cluster_compute_core_num c)" for h
    by (simp add: snrt_is_compute_core_def word_less_nat_alt)
  have "set ks \<subseteq> set hs \<Longrightarrow> transpose_cluster c sts l input output ks mem =
    Some (fold (t_elem (t_size l) input output (unat (tl_M l)) (unat (tl_N l))) (t_order c l ks) mem)" for ks
  proof (induction ks arbitrary: mem)
    case Nil
    then show ?case by (simp add: t_order_def t_rows_def)
  next
    case (Cons h ks)
    then obtain st' where "transpose_kernel c h (tl_dtype l) input output (tl_M l) (tl_N l) (tl_baseline l) mem (sts h) =
      Some (fold (t_elem (t_size l) input output (unat (tl_M l)) (unat (tl_N l)))
        (t_rows (unat (tl_N l)) (t_core_rows c (unat (tl_M l) div unat (snrt_cluster_compute_core_num c)) h)) mem, st')"
      using kernel_rows [OF assms(1) P s [of h] refl idx] by blast
    then show ?case using Cons by (simp add: t_order_def t_rows_append)
  qed
  then show ?thesis by blast
qed

text \<open>The cores together take every column below the last multiple of their number, and only those.\<close>

lemma set_t_order:
  assumes "t_team c sts hs l" "P = unat (snrt_cluster_compute_core_num c)"
  shows "(r, n) \<in> set (t_order c l hs) \<longleftrightarrow> r < P * (unat (tl_M l) div P) \<and> n < unat (tl_N l)"
proof -
  let ?q = "unat (tl_M l) div P"
  have m: "mset (map (\<lambda>h. unat (snrt_cluster_core_idx c h)) (filter (snrt_is_compute_core c) hs)) = mset [0..<P]"
    using assms by (simp add: t_team_def)
  have r: "(r, n) \<in> set (t_order c l hs) \<longleftrightarrow> (\<exists>h\<in>set hs. r \<in> set (t_core_rows c ?q h)) \<and> n < unat (tl_N l)"
    by (auto simp: t_order_def t_rows_def assms(2) image_iff)
  have "(\<exists>h\<in>set hs. r \<in> set (t_core_rows c ?q h)) \<longleftrightarrow> (\<exists>i\<in>set (map (\<lambda>h. unat (snrt_cluster_core_idx c h)) (filter (snrt_is_compute_core c) hs)). i * ?q \<le> r \<and> r < i * ?q + ?q)"
    by (auto simp: t_core_rows_def)
  also have "\<dots> \<longleftrightarrow> (\<exists>i<P. i * ?q \<le> r \<and> r < i * ?q + ?q)" unfolding mset_eq_setD [OF m] by auto
  also have "\<dots> \<longleftrightarrow> r < P * ?q"
  proof
    assume "\<exists>i<P. i * ?q \<le> r \<and> r < i * ?q + ?q"
    then obtain i where "i < P" "r < Suc i * ?q" by auto
    moreover from this have "Suc i * ?q \<le> P * ?q" by (intro mult_right_mono) simp_all
    ultimately show "r < P * ?q" by linarith
  next
    assume lt: "r < P * ?q"
    then have "0 < ?q" by (cases ?q) simp_all
    then have "r mod ?q < ?q" by simp
    then have "r div ?q < P" "r div ?q * ?q \<le> r" "r < r div ?q * ?q + ?q"
      using lt div_mult_mod_eq [of r ?q] by (simp only: less_mult_imp_div_less, linarith, linarith)
    then show "\<exists>i<P. i * ?q \<le> r \<and> r < i * ?q + ?q" by blast
  qed
  finally show ?thesis using r by simp
qed

section \<open>The layer\<close>

text \<open>
  The two buffers follow the pointer of the allocator; the matrices in the main memory are not in them, and nothing wraps.
\<close>

definition t_len :: "transpose_layer_t \<Rightarrow> nat" where
  "t_len l = t_size l * (unat (tl_M l) * unat (tl_N l))"

definition t_space :: "u32 \<Rightarrow> transpose_layer_t \<Rightarrow> bool" where
  "t_space b l \<longleftrightarrow> unat b + 2 * t_len l < 2 ^ 32 \<and>
     (\<forall>p\<in>{tl_input l, tl_output l}. unat p + t_len l < 2 ^ 32 \<and> apart p (t_len l) b (2 * t_len l))"

lemma t_space_facts:
  assumes "t_space b l"
  defines "sz \<equiv> tl_M l * tl_N l * prec_size (tl_dtype l)"
  shows "unat sz = t_len l" "unat (b + sz) = unat b + t_len l"
    "t_apart (t_size l) b (b + sz) (unat (tl_M l)) (unat (tl_N l))"
proof -
  have len: "unat b + 2 * t_len l < 2 ^ 32" using assms(1) by (simp add: t_space_def)
  have "1 \<le> t_size l" by (cases "tl_dtype l") (simp_all add: t_size_def)
  then have "1 * (unat (tl_M l) * unat (tl_N l)) \<le> t_len l" unfolding t_len_def by (intro mult_right_mono) simp_all
  then have mn: "unat (tl_M l * tl_N l) = unat (tl_M l) * unat (tl_N l)" using len by (subst unat_mult_exact) simp_all
  have "unat (tl_M l * tl_N l) * unat (prec_size (tl_dtype l)) = t_len l" by (simp add: mn t_len_def t_size_def mult.commute)
  then show sz: "unat sz = t_len l" unfolding sz_def using len by (subst unat_mult_exact) simp_all
  show u: "unat (b + sz) = unat b + t_len l" using len by (subst unat_add_exact) (simp_all add: sz)
  have "bytes (ucast b) (t_len l) \<inter> bytes (ucast (b + sz)) (t_len l) = {}"
    by (rule apart_bytes) (use u len in \<open>simp_all add: apart_def\<close>)
  then show "t_apart (t_size l) b (b + sz) (unat (tl_M l)) (unat (tl_N l))"
    using u len by (simp add: t_apart_def t_fits_def t_len_def)
qed

lemma layer_mem:
  assumes "t_team c sts hs l" "t_space (snrt_l1_next A) l" "unicast sys" "quiet s" "1 \<le> count_list evs 0" "1 \<le> count_list evs' 0"
  defines "b \<equiv> snrt_l1_next A" and "b' \<equiv> snrt_l1_next A + tl_M l * tl_N l * prec_size (tl_dtype l)"
  shows "\<exists>s'. transpose_layer c sys sts hs A l evs evs' s = Some s' \<and>
    dm_mem s' = copy_bytes (ucast (tl_output l)) (ucast b') (t_len l)
      (fold (t_elem (t_size l) b b' (unat (tl_M l)) (unat (tl_N l))) (t_order c l hs)
        (copy_bytes (ucast b) (ucast (tl_input l)) (t_len l) (dm_mem s)))"
proof -
  note sp = t_space_facts [OF assms(2), folded b'_def b_def]
  have f: "t_fits (t_size l) b b' (unat (tl_M l)) (unat (tl_N l))" using sp(3) by (simp add: t_apart_def)
  obtain e1 s1 where 1: "snrt_dma_wait_all sys 0 evs (snd (snrt_dma_start_1d_ptr b (tl_input l) (tl_M l * tl_N l * prec_size (tl_dtype l)) 0 s)) = Some (e1, s1)"
    "quiet s1" "dm_mem s1 = copy_bytes (ucast b) (ucast (tl_input l)) (t_len l) (dm_mem s)"
    using copy_wait [OF assms(3-5), of b "tl_input l" "tl_M l * tl_N l * prec_size (tl_dtype l)"] unfolding sp(1) by blast
  define mem where "mem = fold (t_elem (t_size l) b b' (unat (tl_M l)) (unat (tl_N l))) (t_order c l hs) (dm_mem s1)"
  have 2: "transpose_cluster c sts l b b' hs (dm_mem s1) = Some mem" unfolding mem_def by (rule cluster_rows [OF f assms(1)])
  have q: "quiet (s1\<lparr>dm_mem := mem\<rparr>)" using 1(2) by (simp add: quiet_def)
  obtain e2 s2 where 3: "snrt_dma_wait_all sys 0 evs' (snd (snrt_dma_start_1d_ptr (tl_output l) b' (tl_M l * tl_N l * prec_size (tl_dtype l)) 0
      (s1\<lparr>dm_mem := mem\<rparr>))) = Some (e2, s2)" "dm_mem s2 = copy_bytes (ucast (tl_output l)) (ucast b') (t_len l) mem"
    using copy_wait [OF assms(3) q assms(6), of "tl_output l" b' "tl_M l * tl_N l * prec_size (tl_dtype l)"] unfolding sp(1) by auto
  have b': "b + tl_M l * tl_N l * prec_size (tl_dtype l) = b'" by (simp add: b_def b'_def)
  show ?thesis
    using 1(1) 2 3 unfolding transpose_layer_def Let_def b_def [symmetric] b' mem_def by (simp add: 1(3))
qed

text \<open>The bytes of element \<open>(r, n)\<close> of an \<open>M\<close> by \<open>N\<close> matrix at \<open>p\<close>.\<close>

definition elem_byte :: "nat \<Rightarrow> mem \<Rightarrow> u32 \<Rightarrow> nat \<Rightarrow> nat \<Rightarrow> nat \<Rightarrow> nat \<Rightarrow> u8" where
  "elem_byte w m p N r n b = m (ucast p + of_nat (w * (r * N + n) + b))"

lemma elem_in_bytes:
  assumes "r < M" "n < N" "b < w" "w * (M * N) < 2 ^ 32"
  shows "w * (r * N + n) + b < w * (M * N)" "ucast p + of_nat (w * (r * N + n) + b) \<in> bytes (ucast (p :: u32)) (w * (M * N))"
proof -
  have "w * Suc (r * N + n) \<le> w * (M * N)" using t_index_less(2) [OF assms(1,2)] by (intro mult_left_mono) simp_all
  then show lt: "w * (r * N + n) + b < w * (M * N)" using assms(3) by simp
  then have "unat (of_nat (w * (r * N + n) + b) :: u64) = w * (r * N + n) + b" using assms(4) by (intro unat_of_nat_u64) simp
  then show "ucast p + of_nat (w * (r * N + n) + b) \<in> bytes (ucast p) (w * (M * N))"
    using lt by (simp only: bytes_def mem_Collect_eq add_diff_cancel_left')
qed

lemma copied_elem:
  assumes "r < M" "n < N" "b < w" "w * (M * N) < 2 ^ 32"
  shows "elem_byte w (copy_bytes (ucast d) (ucast p) (w * (M * N)) m) d N r n b = elem_byte w m p N r n b"
  using elem_in_bytes(1) [OF assms] assms(4) unfolding elem_byte_def by (intro copy_bytes_offset) simp_all

section \<open>The result\<close>

text \<open>
  C24: The transposition layer, for elements of any of the four precisions and with either kernel. The layer ends and leaves, in the
  main memory, element \<open>(r, n)\<close> of the input as element \<open>(n, r)\<close> of the output, byte for byte, for every column \<open>n\<close> and
  every row \<open>r\<close> below the last multiple of the number of compute cores, which is every row when this number divides \<open>M\<close>; the places of
  the other rows get what the output buffer of the cluster held before; nothing but the buffers and the output changes.
\<close>

theorem transpose_layer_correct:
  assumes "t_team c sts hs l" "t_space (snrt_l1_next A) l" "unicast sys" "quiet s" "1 \<le> count_list evs 0" "1 \<le> count_list evs' 0"
  defines "M \<equiv> unat (tl_M l)" and "N \<equiv> unat (tl_N l)" and "P \<equiv> unat (snrt_cluster_compute_core_num c)"
  shows "\<exists>s'. transpose_layer c sys sts hs A l evs evs' s = Some s' \<and>
    (\<forall>r n b. r < P * (M div P) \<longrightarrow> n < N \<longrightarrow> b < t_size l \<longrightarrow>
       elem_byte (t_size l) (dm_mem s') (tl_output l) M n r b = elem_byte (t_size l) (dm_mem s) (tl_input l) N r n b) \<and>
    (\<forall>r n b. P * (M div P) \<le> r \<longrightarrow> r < M \<longrightarrow> n < N \<longrightarrow> b < t_size l \<longrightarrow>
       elem_byte (t_size l) (dm_mem s') (tl_output l) M n r b =
         elem_byte (t_size l) (dm_mem s) (snrt_l1_next A + tl_M l * tl_N l * prec_size (tl_dtype l)) M n r b) \<and>
    (\<forall>a. a \<notin> bytes (ucast (snrt_l1_next A)) (2 * t_len l) \<longrightarrow> a \<notin> bytes (ucast (tl_output l)) (t_len l) \<longrightarrow> dm_mem s' a = dm_mem s a)"
proof -
  define x y where "x = snrt_l1_next A" and "y = snrt_l1_next A + tl_M l * tl_N l * prec_size (tl_dtype l)"
  note sp = t_space_facts [OF assms(2), folded y_def x_def, folded M_def N_def]
  have f: "t_fits (t_size l) x y M N" using sp(3) by (simp add: t_apart_def)
  have lt: "t_size l * (M * N) < 2 ^ 32" and len: "t_len l = t_size l * (M * N)" using f by (simp_all add: t_fits_def t_len_def M_def N_def)
  obtain s' where s': "transpose_layer c sys sts hs A l evs evs' s = Some s'"
    "dm_mem s' = copy_bytes (ucast (tl_output l)) (ucast y) (t_size l * (M * N))
      (fold (t_elem (t_size l) x y M N) (t_order c l hs) (copy_bytes (ucast x) (ucast (tl_input l)) (t_size l * (M * N)) (dm_mem s)))"
    using layer_mem [OF assms(1-6), folded y_def M_def N_def, folded x_def] unfolding len by blast
  let ?m0 = "copy_bytes (ucast x) (ucast (tl_input l)) (t_size l * (M * N)) (dm_mem s)"
  let ?m1 = "fold (t_elem (t_size l) x y M N) (t_order c l hs) ?m0"
  have ord: "(r, n) \<in> set (t_order c l hs) \<longleftrightarrow> r < P * (M div P) \<and> n < N" for r n
    using set_t_order [OF assms(1) refl] by (simp add: M_def N_def P_def)
  have PM: "P * (M div P) \<le> M" by simp
  have inb: "r < M \<and> n < N" if "(r, n) \<in> set (t_order c l hs)" for r n using that PM unfolding ord by linarith
  have "elem_byte (t_size l) (dm_mem s') (tl_output l) M n r b = elem_byte (t_size l) (dm_mem s) (tl_input l) N r n b"
    if "r < P * (M div P)" "n < N" "b < t_size l" for r n b
  proof -
    have r: "r < M" using that(1) PM by linarith
    have "elem_byte (t_size l) (dm_mem s') (tl_output l) M n r b = elem_byte (t_size l) ?m1 y M n r b"
      using copied_elem [OF that(2) r that(3), of "tl_output l" y ?m1] lt unfolding s'(2) by (simp only: mult.commute [of N M])
    also have "\<dots> = elem_byte (t_size l) ?m0 x N r n b"
      unfolding elem_byte_def by (rule t_elems_value [OF sp(3) inb]) (use that ord in simp_all)
    also have "\<dots> = elem_byte (t_size l) (dm_mem s) (tl_input l) N r n b" by (rule copied_elem [OF r that(2,3) lt])
    finally show ?thesis .
  qed
  moreover have "elem_byte (t_size l) (dm_mem s') (tl_output l) M n r b = elem_byte (t_size l) (dm_mem s) y M n r b"
    if "P * (M div P) \<le> r" "r < M" "n < N" "b < t_size l" for r n b
  proof -
    have nin: "(r, n) \<notin> set (t_order c l hs)" using that(1) by (simp add: ord)
    have "elem_byte (t_size l) (dm_mem s') (tl_output l) M n r b = elem_byte (t_size l) ?m1 y M n r b"
      using copied_elem [OF that(3,2,4), of "tl_output l" y ?m1] lt unfolding s'(2) by (simp only: mult.commute [of N M])
    also have "\<dots> = elem_byte (t_size l) ?m0 y M n r b"
      unfolding elem_byte_def by (rule t_elems_other [OF f that(2-4) inb nin])
    also have "\<dots> = elem_byte (t_size l) (dm_mem s) y M n r b"
    proof -
      have "ucast y + of_nat (t_size l * (n * M + r) + b) \<in> bytes (ucast y) (t_size l * (M * N))"
        using elem_in_bytes(2) [OF that(3,2,4), of y] lt by (simp only: mult.commute [of N M])
      then have "ucast y + of_nat (t_size l * (n * M + r) + b) \<notin> bytes (ucast x) (t_size l * (M * N))"
        using sp(3) by (auto simp: t_apart_def)
      then show ?thesis unfolding elem_byte_def by (rule footprint_out [OF copy_bytes_footprint])
    qed
    finally show ?thesis .
  qed
  moreover have "dm_mem s' a = dm_mem s a" if "a \<notin> bytes (ucast x) (2 * t_len l)" "a \<notin> bytes (ucast (tl_output l)) (t_len l)" for a
  proof -
    have le: "unat x + 2 * t_len l \<le> 2 ^ 32" using assms(2) by (simp add: t_space_def x_def)
    have "bytes (ucast y) (t_len l) = {b. unat x + t_len l \<le> unat b \<and> unat b < unat x + t_len l + t_len l}"
      using bytes_no_wrap [of y "t_len l"] sp(2) le by simp
    then have "bytes (ucast y) (t_len l) \<subseteq> bytes (ucast x) (2 * t_len l)" using bytes_no_wrap [OF le] by auto
    then have "a \<notin> bytes (ucast y) (t_size l * (M * N))" "a \<notin> bytes (ucast x) (t_size l * (M * N))"
      using that(1) by (auto simp: len bytes_def)
    moreover have "a \<notin> bytes (ucast (tl_output l)) (t_size l * (M * N))" using that(2) by (simp only: len not_False_eq_True)
    ultimately show ?thesis
      unfolding s'(2) by (simp only: footprint_out [OF copy_bytes_footprint] t_elems_out [OF f inb] not_False_eq_True)
  qed
  ultimately show ?thesis using s'(1) unfolding x_def y_def by blast
qed

text \<open>The other rows are not transposed: their place in the output gets what the buffer of the cluster held.\<close>


text \<open>Seventeen rows of three words on eight cores: element \<open>(15, 2)\<close> arrives, the last row does not.\<close>

definition t_heap :: snrt_allocator_t where
  "t_heap = \<lparr>a_base = 0x10000000, a_end = 0x10020000, a_next = 0x10000000\<rparr>"

definition t_layer :: "precision_t \<Rightarrow> bool \<Rightarrow> transpose_layer_t" where
  "t_layer d b = \<lparr>tl_M = 17, tl_N = 3, tl_input = 0x80000000, tl_output = 0x80001000, tl_dtype = d, tl_baseline = b\<rparr>"

lemma sample_layer:
  "t_team sample_cfg (\<lambda>_. reset_ssr_core) [3, 1, 8, 2, 0, 7, 6, 5, 4] (t_layer d b)"
  "t_space (snrt_l1_next t_heap) (t_layer d b)"
proof -
  have "snrt_cluster_compute_core_num sample_cfg = 8" by (simp add: team_defs sample_cfg_def)
  moreover have "filter (snrt_is_compute_core sample_cfg) [3, 1, 8, 2, 0, 7, 6, 5, 4] = [3, 1, 2, 0, 7, 6, 5, 4]"
    by (simp add: team_defs sample_cfg_def)
  ultimately show "t_team sample_cfg (\<lambda>_. reset_ssr_core) [3, 1, 8, 2, 0, 7, 6, 5, 4] (t_layer d b)"
    using sample_team by (simp add: t_team_def t_layer_def)
  show "t_space (snrt_l1_next t_heap) (t_layer d b)"
    by (cases d) (simp_all add: t_space_def t_heap_def t_layer_def snrt_l1_next_def t_len_def t_size_def apart_def)
qed

theorem transpose_layer_correct_witness:
  "\<exists>s'. transpose_layer sample_cfg sample_sys (\<lambda>_. reset_ssr_core) [3, 1, 8, 2, 0, 7, 6, 5, 4] t_heap (t_layer FP64 False) [0] [0]
       sample_dma = Some s' \<and>
    elem_byte 8 (dm_mem s') 0x80001000 17 2 0 7 = elem_byte 8 (dm_mem sample_dma) 0x80000000 3 0 2 7"
proof -
  have q: "quiet sample_dma" and P: "unat (snrt_cluster_compute_core_num sample_cfg) = 8"
    using sample_dma_ok by (simp_all add: quiet_def team_defs sample_cfg_def)
  from transpose_layer_correct [OF sample_layer [of FP64 False] sample_dma_ok(1) q, of "[0]" "[0]"]
  show ?thesis unfolding P by (auto simp: t_layer_def t_size_def)
qed

end
