(* ===== verification/Spec2Isabelle.thy ===== *)
theory Spec2Isabelle
  imports Alloc Dma Ssr Mutex Barrier Reduction Dm Kmp Eu Prng Start Putchar Gemv_Job Axpy_Job Gemm_Schedule Gemm_Opt Dot Transpose
begin

text \<open>
  The runtime of the Snitch cluster and its linear algebra kernels, as HOL functions and step relations.

  \<^bold>\<open>The program.\<close> A system is a number of clusters. A cluster has compute cores, one data mover core with a DMA engine, and a
  tightly coupled memory (TCDM). Every core runs the same program: \<open>start.S\<close> and \<open>start.c\<close> set up stacks, thread-local and
  cluster-local storage and the allocators, call \<open>main\<close>, and reduce the exit codes. The kernels move tiles from the
  main memory to the TCDM with the data mover core and compute on them with the stream registers and the hardware loop of the
  compute cores; the cores meet at barriers. The sources are under \<open>sw/runtime\<close> and \<open>sw/kernels\<close>.

  \<^bold>\<open>The theories.\<close> \<open>Snrt_Prelude\<close> has the machine words, a byte memory with doublewords, and the locale \<open>elem_store\<close> of a
  store whose cells are independent, interpreted on the doublewords at aligned addresses (\<open>dstore\<close>).

  \<^item> \<open>Team\<close> (\<open>team.h\<close>, \<open>snitch_cluster_cfg.h.tpl\<close>): core and cluster indices over the configuration record \<open>snrt_cfg\<close>; a core is
    its hart id. Indices are a bijection.
  \<^item> \<open>Alloc\<close> (\<open>alloc.h\<close>, \<open>alloc_v2.h\<close>, the stacks of \<open>start.S\<close>): the allocators as functions on \<open>snrt_allocator_t\<close>, the trap of a
    bounds check as the left branch of a sum. The locale \<open>bump_allocator\<close> states that blocks ascend below a limit; it is
    interpreted on the five allocation routines.
  \<^item> \<open>Dma\<close> (\<open>dma.h\<close>): the configuration registers, queues and counters of the engine. A transfer takes effect when an
    event of its channel completes it; a wait consumes a given list of events and is None when the list ends first. The number
    of events a wait needs is a hypothesis, and enough is the number of pending transfers. Tile loads and stores, memset.
  \<^item> \<open>Ssr\<close> (\<open>ssr.h\<close>): the configuration words and the address generator. Programmed loops give the affine nest of
    addresses, for up to four dimensions.
  \<^item> \<open>Irq\<close> (\<open>cluster_interrupts.h\<close>, \<open>global_interrupts.h\<close>, \<open>riscv.h\<close>), \<open>Mutex\<close>, \<open>Barrier\<close>, \<open>Reduction\<close> (\<open>sync.h\<close>): interrupts as a
    pending state per core; the others instruction by instruction, as step functions of one core and reachability under any
    interleaving. Invariants by rule induction give exclusion, safety of the barriers and progress under every schedule; the locale
    \<open>round_barrier\<close> is the contract of both barriers (\<open>pb\<close>, \<open>ic\<close>). The tree reduction is a relation on the data mover cores.
  \<^item> \<open>Dm\<close> (\<open>dm.h\<close>): the task ring between the cores and the data mover service. \<open>Kmp\<close> (\<open>omp/kmp.c\<close>) and \<open>Eu\<close> (\<open>omp/eu.h\<close>): the
    entry points of OpenMP and the event unit with its fork and join.
  \<^item> \<open>Start\<close> (\<open>start.c\<close>, \<open>start.h\<close>, \<open>start.S\<close>): the phases between the barriers of the start, the storage they set up, the exit code.
    \<open>Putchar\<close> (\<open>impl/putchar.c\<close>), \<open>Prng\<close> (\<open>kernels/misc/prng\<close>): the output buffers of the harts; the generators with their
    jump functions, as polynomials of the linear step.
  \<^item> \<open>Kernel\<close>: what the kernels share. The floating-point unit is a record of functions on bit patterns, of which no law is
    assumed; the stream registers deliver operands, and one that has ended blocks (None); \<open>frep.o\<close> is a number of repetitions.
  \<^item> \<open>Gemv\<close>, \<open>Gemv_Job\<close> (\<open>gemv/src\<close>), \<open>Axpy\<close>, \<open>Axpy_Job\<close> (\<open>axpy.h\<close>), \<open>Dot\<close> (\<open>dot.h\<close>): the kernels on one core, their distribution
    over the cores in any order, and the jobs around them. The plain loops of \<open>axpy.h\<close> run on fuel; as many steps as elements
    are enough. \<open>Transpose\<close> (\<open>dnn/transpose/src/transpose.h\<close>): both kernels and the layer, on the bytes of elements of any precision.
  \<^item> \<open>Pipeline\<close>: the scheme of double buffering. The locale \<open>tile_pipeline\<close> asks that the phases the pipeline exchanges commute and
    gives that the pipeline does what one tile after the other does; footprints on the memory discharge it. It is
    interpreted by the job of \<open>axpy.h\<close>.
  \<^item> \<open>Gemm\<close>, \<open>Gemm_Schedule\<close> (\<open>gemm.h\<close>, \<open>gemm_types.h\<close>): the tile loop as the sequence of calls each core makes; between two
    barriers the calls of the cores are shuffled. The theorem is about every shuffle, on whole tiles. \<open>Gemm_Fp64\<close>,
    \<open>Gemm_Opt\<close> (\<open>gemm_fp64.h\<close>, \<open>blas.h\<close>): the kernels that compute a tile, on the memory.

  \<^bold>\<open>The properties\<close> are marked in the theories by their number. The ones on kernels say what is left in memory, and that nothing
  else changes; the ones on synchronisation hold in every reachable state. Where a theorem has hypotheses, a
  witness next to it applies it to a concrete configuration, usually that of the default cluster with eight compute cores.

  \<^bold>\<open>How the parts meet.\<close> The jobs of \<open>Axpy_Job\<close>, \<open>Dot\<close>, \<open>Gemv_Job\<close> and \<open>Transpose\<close> use the allocator, the transfers of \<open>Dma\<close>, the
  streams of \<open>Ssr\<close> and the indices of \<open>Team\<close>; \<open>Start\<close> uses the DMA, the allocators, the barriers and the reduction of \<open>Reduction\<close>.
  A barrier is taken in the jobs as the end of a phase, which the theorems of \<open>Barrier\<close> justify for the software barriers;
  the hardware barrier of a cluster has no code in the repository but a read of a register.

  \<^bold>\<open>Not modelled.\<close> The arithmetic of the floating-point unit (a parameter). In \<open>gemm.h\<close> the copy of the arguments, which
  \<open>JOB_ARGS_PRELOADED\<close> leaves out, tiles in single banks and the reduction of \<open>parallelize_k\<close> on the level of tiles, and more
  than \<open>2 ^ 31\<close> iterations. The kernels in lower precision (packed vectors in inline assembly), the
  other neural network kernels, the stencils and the other benchmarks, which are further compute kernels on the same runtime; performance
  counters and traces, which have no effect on the program; tests, vendored code and the hardware itself, of which the parts the
  software relies on are modelled with the component that uses them.
\<close>

end
